(* ===== verification/Prelude.thy ===== *)
theory Prelude
  imports Main "HOL-Library.Code_Target_Nat" "HOL-Library.Code_Target_Int"
begin

text \<open>
  Shared vocabulary of the development: the errors a C++ run can end in, the two result
  types, the monadic glue over them, and generic lemmas on lists and relations.

  The passes are built with assertions on (\<open>src/CMakeLists.txt\<close> passes \<open>-UNDEBUG\<close>), so a
  failed \<open>assert\<close> is an observable outcome (\<open>Assertion\<close>). An access outside a container
  (\<open>std::vector::at\<close>, \<open>BitVector::test\<close>) is \<open>Bad_index\<close>, the dereference of something that is
  not an instruction of the function is \<open>Bad_pointer\<close>, the exits of \<open>unhandled_value\<close> and
  \<open>warn_unhandled_intrinsic\<close> (\<open>std::_Exit\<close>) are \<open>Unhandled\<close>, and \<open>std::abort\<close> is \<open>Aborted\<close>. \<open>Exited\<close> is the exit of the
  contract checker on a function it rejects.
  \<open>Diverges\<close> is a recursion along the operands of values that is deeper than there are values.

  \<open>'a res\<close> is the result of code that always stops. \<open>'a run\<close> adds \<open>None\<close> for code whose loop
  may not stop; every such loop has a theorem that it does return where the code relies on it.
\<close>

datatype error = Assertion | Bad_index | Bad_pointer | Unhandled | Aborted | Diverges | Exited

type_synonym 'a res = "error + 'a"
type_synonym 'a run = "'a res option"

named_theorems run_simps

definition bindr :: "'a res \<Rightarrow> ('a \<Rightarrow> 'b res) \<Rightarrow> 'b res" where
  "bindr m f = (case m of Inl e \<Rightarrow> Inl e | Inr x \<Rightarrow> f x)"

definition bindo :: "'a run \<Rightarrow> ('a \<Rightarrow> 'b run) \<Rightarrow> 'b run" where
  "bindo m f = (case m of None \<Rightarrow> None | Some (Inl e) \<Rightarrow> Some (Inl e) | Some (Inr x) \<Rightarrow> f x)"

definition assertr :: "bool \<Rightarrow> 'a res \<Rightarrow> 'a res" where
  "assertr b k = (if b then k else Inl Assertion)"

lemma bindr_Inl [simp, run_simps]: "bindr (Inl e) f = Inl e"
  by (simp add: bindr_def)

lemma bindr_Inr [simp, run_simps]: "bindr (Inr x) f = f x"
  by (simp add: bindr_def)

lemma bindr_eq_Inr: "bindr m f = Inr y \<longleftrightarrow> (\<exists>x. m = Inr x \<and> f x = Inr y)"
  by (cases m) auto

lemma bindo_None [simp, run_simps]: "bindo None f = None"
  by (simp add: bindo_def)

lemma bindo_Inl [simp, run_simps]: "bindo (Some (Inl e)) f = Some (Inl e)"
  by (simp add: bindo_def)

lemma bindo_Inr [simp, run_simps]: "bindo (Some (Inr x)) f = f x"
  by (simp add: bindo_def)

lemma bindo_eq_Inr: "bindo m f = Some (Inr y) \<longleftrightarrow> (\<exists>x. m = Some (Inr x) \<and> f x = Some (Inr y))"
  by (auto simp: bindo_def split: option.splits sum.splits)

lemma bindo_mono [partial_function_mono]:
  assumes "mono_option B" and "\<And>y. mono_option (\<lambda>f. C y f)"
  shows "mono_option (\<lambda>f. bindo (B f) (\<lambda>y. C y f))"
proof -
  have eq: "(\<lambda>f. bindo (B f) (\<lambda>y. C y f)) =
      (\<lambda>f. Option.bind (B f) (\<lambda>r. case r of Inl e \<Rightarrow> Some (Inl e) | Inr y \<Rightarrow> C y f))"
    by (rule ext) (auto simp: bindo_def split: option.split sum.split)
  have "mono_option (\<lambda>f. case r of Inl e \<Rightarrow> Some (Inl e) | Inr y \<Rightarrow> C y f)" for r
    using assms(2) option.const_mono by (cases r) auto
  then show ?thesis unfolding eq by (intro bind_mono assms(1))
qed

lemma assertr_simps [simp, run_simps]:
  "assertr True k = k" "assertr False k = Inl Assertion"
  by (simp_all add: assertr_def)

lemma assertr_eq_Inr [simp]: "assertr b k = Inr y \<longleftrightarrow> b \<and> k = Inr y"
  by (simp add: assertr_def)

text \<open>A loop over a container whose body may fail: stop at the first error.\<close>

fun foldr_res :: "('a \<Rightarrow> 's \<Rightarrow> 's res) \<Rightarrow> 'a list \<Rightarrow> 's \<Rightarrow> 's res" where
  "foldr_res f [] s = Inr s"
| "foldr_res f (x # xs) s = bindr (f x s) (foldr_res f xs)"

fun map_res :: "('a \<Rightarrow> 'b res) \<Rightarrow> 'a list \<Rightarrow> 'b list res" where
  "map_res f [] = Inr []"
| "map_res f (x # xs) = bindr (f x) (\<lambda>y. bindr (map_res f xs) (\<lambda>ys. Inr (y # ys)))"

lemma foldr_res_append: "foldr_res f (xs @ ys) s = bindr (foldr_res f xs s) (foldr_res f ys)"
proof (induction xs arbitrary: s)
  case (Cons x xs)
  then show ?case by (cases "f x s") auto
qed simp

lemma foldr_res_total:
  assumes "\<And>x s. x \<in> set xs \<Longrightarrow> f x s = Inr (g x s)"
  shows "foldr_res f xs s = Inr (fold g xs s)"
  using assms by (induction xs arbitrary: s) auto

lemma map_res_total:
  assumes "\<And>x. x \<in> set xs \<Longrightarrow> f x = Inr (g x)"
  shows "map_res f xs = Inr (map g xs)"
  using assms by (induction xs) auto

lemma map_res_InrD: "map_res f xs = Inr ys \<Longrightarrow> list_all2 (\<lambda>x y. f x = Inr y) xs ys"
  by (induction xs arbitrary: ys) (auto simp: bindr_eq_Inr)

text \<open>Consecutive pairs of a path: the loops \<open>it1, it2 = next(it1)\<close> of the code.\<close>

fun path_pairs :: "'a list \<Rightarrow> ('a \<times> 'a) list" where
  "path_pairs (x # y # zs) = (x, y) # path_pairs (y # zs)"
| "path_pairs _ = []"

lemma path_pairs_append:
  "path_pairs (xs @ y # zs) = path_pairs (xs @ [y]) @ path_pairs (y # zs)"
proof (induction xs)
  case (Cons x xs)
  then show ?case by (cases xs) auto
qed simp

lemma path_pairs_set: "(a, b) \<in> set (path_pairs xs) \<Longrightarrow> a \<in> set xs \<and> b \<in> set (tl xs)"
proof (induction xs rule: path_pairs.induct)
  case (1 x y zs)
  then show ?case by (cases zs) auto
qed auto

lemma in_concat_map: "y \<in> set (concat (map f xs)) \<longleftrightarrow> (\<exists>x \<in> set xs. y \<in> set (f x))"
  by auto

text \<open>Relations.\<close>

lemma trancl_Image_subset_rtrancl: "R\<^sup>+ `` A \<subseteq> R\<^sup>* `` A"
  by (auto intro: trancl_into_rtrancl)

lemma rtrancl_closed:
  assumes "(x, y) \<in> R\<^sup>*" "x \<in> A" "\<And>u v. u \<in> A \<Longrightarrow> (u, v) \<in> R \<Longrightarrow> v \<in> A"
  shows "y \<in> A"
  using assms by (induction rule: rtrancl_induct) auto

lemma trancl_closed:
  assumes "(x, y) \<in> R\<^sup>+" "x \<in> B" "\<And>u v. u \<in> A \<union> B \<Longrightarrow> (u, v) \<in> R \<Longrightarrow> v \<in> A"
  shows "y \<in> A"
  using assms by (induction rule: trancl_induct) auto

end
