(* ===== verification/Containers.thy ===== *)
theory Containers
  imports Prelude "HOL-Library.List_Lexorder"
begin

text \<open>
  The standard containers the code iterates over in key order. A \<open>std::map\<close> is an association
  list with strictly increasing keys, a \<open>std::set\<close> a strictly increasing list, so that
  \<open>for (... : m)\<close> is a traversal of the list and \<open>operator<\<close> on sets and on vectors of sets is
  the lexicographic order of lists. \<open>std_map\<close> is the contract the rest of the development
  relies on; the sorted association lists provide it.
\<close>

definition u32 :: "nat \<Rightarrow> nat" where
  "u32 x = x mod 2 ^ 32"

lemma u32_small [simp]: "x < 2 ^ 32 \<Longrightarrow> u32 x = x"
  by (simp add: u32_def)

lemma u32_less [simp]: "u32 x < 2 ^ 32"
  by (simp add: u32_def)

lemma u32_less_num [simp]: "u32 x < 4294967296"
  using u32_less[of x] by simp

definition om_ok :: "('k::linorder \<times> 'v) list \<Rightarrow> bool" where
  "om_ok m \<longleftrightarrow> sorted_wrt (<) (map fst m)"

fun om_put :: "('k::linorder \<times> 'v) list \<Rightarrow> 'k \<Rightarrow> 'v \<Rightarrow> ('k \<times> 'v) list" where
  "om_put [] k v = [(k, v)]"
| "om_put ((a, b) # m) k v =
     (if k < a then (k, v) # (a, b) # m
      else if k = a then (k, v) # m
      else (a, b) # om_put m k v)"

definition om_erase :: "('k::linorder \<times> 'v) list \<Rightarrow> 'k \<Rightarrow> ('k \<times> 'v) list" where
  "om_erase m k = filter (\<lambda>p. fst p \<noteq> k) m"

definition om_find :: "('k::linorder \<times> 'v) list \<Rightarrow> 'k \<Rightarrow> 'v option" where
  "om_find m k = map_of m k"

text \<open>\<open>map.insert(p)\<close> and \<open>map.emplace(k, v)\<close> keep an existing entry.\<close>

definition om_emplace :: "('k::linorder \<times> 'v) list \<Rightarrow> 'k \<Rightarrow> 'v \<Rightarrow> ('k \<times> 'v) list" where
  "om_emplace m k v = (case om_find m k of None \<Rightarrow> om_put m k v | Some _ \<Rightarrow> m)"

definition os_of :: "'a::linorder list \<Rightarrow> 'a list" where
  "os_of xs = sort (remdups xs)"

definition os_ok :: "'a::linorder list \<Rightarrow> bool" where
  "os_ok xs \<longleftrightarrow> sorted_wrt (<) xs"

text \<open>A store: what is read after a write.\<close>

locale store =
  fixes get :: "'s \<Rightarrow> 'k \<Rightarrow> 'v"
    and put :: "'s \<Rightarrow> 'k \<Rightarrow> 'v \<Rightarrow> 's"
    and valid :: "'s \<Rightarrow> bool"
    and key :: "'k \<Rightarrow> bool"
    and val :: "'v \<Rightarrow> bool"
  assumes get_put: "valid s \<Longrightarrow> key k \<Longrightarrow> val v \<Longrightarrow> key k' \<Longrightarrow>
      get (put s k v) k' = (if k' = k then v else get s k')"
    and valid_put: "valid s \<Longrightarrow> key k \<Longrightarrow> val v \<Longrightarrow> valid (put s k v)"
begin

definition put_all :: "('k \<times> 'v) list \<Rightarrow> 's \<Rightarrow> 's" where
  "put_all ops s = fold (\<lambda>(k, v) s. put s k v) ops s"

lemma put_all_simps [simp]:
  "put_all [] s = s" "put_all (p # ops) s = put_all ops (put s (fst p) (snd p))"
  "put_all (ops @ ops') s = put_all ops' (put_all ops s)"
  by (auto simp: put_all_def split_beta)

lemma valid_put_all: "valid s \<Longrightarrow> \<forall>p \<in> set ops. key (fst p) \<and> val (snd p) \<Longrightarrow> valid (put_all ops s)"
  by (induction ops arbitrary: s) (auto simp: valid_put)

lemma get_put_all:
  assumes "valid s" "\<forall>p \<in> set ops. key (fst p) \<and> val (snd p)" "key k"
  shows "get (put_all ops s) k = (case map_of (rev ops) k of None \<Rightarrow> get s k | Some v \<Rightarrow> v)"
  using assms
  by (induction ops arbitrary: s) (auto simp: get_put valid_put map_add_def split: option.splits)

lemma get_put_all_frame:
  assumes "valid s" "\<forall>p \<in> set ops. key (fst p) \<and> val (snd p)" "key k" "k \<notin> fst ` set ops"
  shows "get (put_all ops s) k = get s k"
proof -
  from assms(4) have "map_of (rev ops) k = None" by (auto simp: map_of_eq_None_iff)
  with get_put_all[OF assms(1-3)] show ?thesis by simp
qed

lemma get_put_all_in:
  assumes "valid s" "\<forall>p \<in> set ops. key (fst p) \<and> val (snd p)" "(k, v) \<in> set ops"
    "\<And>v'. (k, v') \<in> set ops \<Longrightarrow> v' = v"
  shows "get (put_all ops s) k = v"
proof -
  have "k \<in> fst ` set (rev ops)" using assms(3) by force
  then obtain v' where v': "map_of (rev ops) k = Some v'"
    by (metis map_of_eq_None_iff not_None_eq)
  then have "(k, v') \<in> set ops" by (auto dest: map_of_SomeD)
  with assms(2-4) v' get_put_all[OF assms(1,2)] show ?thesis by auto
qed

lemma get_put_all_fun:
  assumes "valid s" "\<forall>p \<in> set ops. key (fst p) \<and> val (snd p)" "key k"
    "\<And>v. (k, v) \<in> set ops \<Longrightarrow> v = f k" "k \<notin> fst ` set ops \<Longrightarrow> get s k = f k"
  shows "get (put_all ops s) k = f k"
proof (cases "k \<in> fst ` set ops")
  case True
  with assms(4) have "(k, f k) \<in> set ops" by force
  from get_put_all_in[OF assms(1,2) this] assms(4) show ?thesis by blast
next
  case False
  with get_put_all_frame[OF assms(1-3)] assms(5) show ?thesis by simp
qed

lemma foldr_res_put_all:
  assumes "\<And>x s. x \<in> set xs \<Longrightarrow> f x s = Inr (put_all (ops x) s)"
  shows "foldr_res f xs s = Inr (put_all (concat (map ops xs)) s)"
  using assms by (induction xs arbitrary: s) auto

end

locale std_map = store find put valid "\<lambda>_. True" "\<lambda>_. True"
  for find :: "'m \<Rightarrow> 'k \<Rightarrow> 'v option" and put :: "'m \<Rightarrow> 'k \<Rightarrow> 'v option \<Rightarrow> 'm" and valid +
  fixes empty :: 'm
  assumes find_empty: "find empty k = None" and valid_empty: "valid empty"

lemma om_ok_Nil [simp, intro]: "om_ok []"
  by (simp add: om_ok_def)

lemma om_ok_Cons: "om_ok ((a, b) # m) \<longleftrightarrow> om_ok m \<and> (\<forall>k \<in> fst ` set m. a < k)"
  by (auto simp: om_ok_def)

lemma om_ok_distinct: "om_ok m \<Longrightarrow> distinct (map fst m)"
  unfolding om_ok_def by (rule strict_sorted_iff[THEN iffD1, THEN conjunct2])

lemma keys_om_put [simp]: "fst ` set (om_put m k v) = insert k (fst ` set m)"
  by (induction m k v rule: om_put.induct) auto

lemma om_ok_put [simp]: "om_ok m \<Longrightarrow> om_ok (om_put m k v)"
  by (induction m k v rule: om_put.induct) (auto simp: om_ok_Cons)

lemma om_ok_erase [simp]: "om_ok m \<Longrightarrow> om_ok (om_erase m k)"
  unfolding om_erase_def by (induction m) (auto simp: om_ok_Cons)

lemma om_ok_filter: "om_ok m \<Longrightarrow> om_ok (filter P m)"
  by (induction m) (auto simp: om_ok_Cons)

lemma om_find_simps [simp]:
  "om_find [] k = None" "om_find ((a, b) # m) k = (if k = a then Some b else om_find m k)"
  by (auto simp: om_find_def)

lemma om_find_None: "om_find m k = None \<longleftrightarrow> k \<notin> fst ` set m"
  by (simp add: om_find_def map_of_eq_None_iff)

lemma om_find_put [simp]: "om_ok m \<Longrightarrow> om_find (om_put m k v) k' = (if k' = k then Some v else om_find m k')"
  by (induction m k v rule: om_put.induct) (auto simp: om_ok_Cons)

lemma om_find_erase [simp]: "om_find (om_erase m k) k' = (if k' = k then None else om_find m k')"
  unfolding om_erase_def by (induction m) auto

lemma om_find_in: "om_ok m \<Longrightarrow> om_find m k = Some v \<longleftrightarrow> (k, v) \<in> set m"
  by (auto simp: om_find_def map_of_eq_Some_iff om_ok_distinct)

lemma om_put_in: "om_ok m \<Longrightarrow> (a, b) \<in> set (om_put m k v) \<longleftrightarrow> (a = k \<and> b = v) \<or> (a \<noteq> k \<and> (a, b) \<in> set m)"
  by (induction m k v rule: om_put.induct) (auto simp: om_ok_Cons)

lemma om_erase_in: "(a, b) \<in> set (om_erase m k) \<longleftrightarrow> a \<noteq> k \<and> (a, b) \<in> set m"
  by (auto simp: om_erase_def)

text \<open>Writing \<open>None\<close> is \<open>erase\<close>.\<close>

definition om_write :: "('k::linorder \<times> 'v) list \<Rightarrow> 'k \<Rightarrow> 'v option \<Rightarrow> ('k \<times> 'v) list" where
  "om_write m k ov = (case ov of None \<Rightarrow> om_erase m k | Some v \<Rightarrow> om_put m k v)"

interpretation om: std_map om_find om_write om_ok "[]"
  by unfold_locales (auto simp: om_write_def split: option.splits)

text \<open>\<open>om_emplace\<close> copies an ordered range into an empty map unchanged.\<close>

lemma om_put_snoc: "om_ok (m @ [(k, v)]) \<Longrightarrow> om_put m k v = m @ [(k, v)]"
  by (induction m k v rule: om_put.induct) (auto simp: om_ok_def)

lemma om_emplace_copy:
  "om_ok (m @ r) \<Longrightarrow> fold (\<lambda>p m. om_emplace m (fst p) (snd p)) r m = m @ r"
proof (induction r arbitrary: m)
  case (Cons p r)
  obtain k v where p: "p = (k, v)" by (cases p)
  from Cons.prems have "om_ok (m @ [(k, v)])" "k \<notin> fst ` set m"
    using p by (auto simp: om_ok_def sorted_wrt_append)
  then have "om_emplace m k v = m @ [(k, v)]"
    by (simp add: om_emplace_def om_put_snoc om_find_None[THEN iffD2])
  with Cons.IH[of "m @ [(k, v)]"] Cons.prems p show ?case by simp
qed simp

lemma set_os_of [simp]: "set (os_of xs) = set xs"
  by (simp add: os_of_def)

lemma os_ok_os_of [simp]: "os_ok (os_of xs)"
  by (simp add: os_ok_def os_of_def strict_sorted_iff)

lemma os_ok_distinct: "os_ok xs \<Longrightarrow> distinct xs"
  by (simp add: os_ok_def strict_sorted_iff)

lemma os_ok_filter [simp]: "os_ok xs \<Longrightarrow> os_ok (filter P xs)"
  by (simp add: os_ok_def sorted_wrt_filter)

lemma os_ok_unique: "os_ok xs \<Longrightarrow> os_ok ys \<Longrightarrow> set xs = set ys \<Longrightarrow> xs = ys"
  by (auto simp: os_ok_def strict_sorted_equal)

lemma os_of_id: "os_ok xs \<Longrightarrow> os_of xs = xs"
  by (rule os_ok_unique) auto

end
