(* ===== verification/GraphViews.thy ===== *)
theory GraphViews
  imports Containers
begin

text \<open>
  The graph classes of \<open>src/FordFulkerson.cc\<close>. The abstract class \<open>Graph\<close> is the record
  \<open>graph\<close> of its virtual methods and \<open>operator[]\<close>; a class that wraps a
  \<open>const BaseGraph&\<close> keeps such a record. \<open>unsigned\<close> arithmetic is reduced by \<open>u32\<close>.
  \<open>graph_view\<close> is the contract of a graph (rows in key order, no zero weights, weights and
  rows agree), \<open>mutable_graph\<close> adds \<open>put_weight\<close>; each class provides the contract.
\<close>

type_synonym dsts = "(nat \<times> nat) list"

record graph =
  g_nodes :: nat
  g_row :: "nat \<Rightarrow> dsts"
  g_weight :: "nat \<Rightarrow> nat \<Rightarrow> nat"

definition dsts_weight :: "dsts \<Rightarrow> nat \<Rightarrow> nat" where
  "dsts_weight d v = (case om_find d v of None \<Rightarrow> 0 | Some w \<Rightarrow> w)"

subsection \<open>\<open>ImmutableVectorGraph\<close>\<close>

text \<open>\<open>G.at(src)\<close> throws outside the vector; the searches check the index before they read
  a row (\<open>Bad_index\<close>), so the empty row given here is never used.\<close>

definition ivg_row :: "dsts list \<Rightarrow> nat \<Rightarrow> dsts" where
  "ivg_row G src = (if src < length G then G ! src else [])"

definition ivg_get_weight :: "dsts list \<Rightarrow> nat \<Rightarrow> nat \<Rightarrow> nat" where
  "ivg_get_weight G src dst =
     (case om_find (ivg_row G src) dst of None \<Rightarrow> 0 | Some w \<Rightarrow> w)"

definition ivg_nodes :: "dsts list \<Rightarrow> nat" where
  "ivg_nodes G = u32 (length G)"

definition ivg :: "dsts list \<Rightarrow> graph" where
  "ivg G = \<lparr>g_nodes = ivg_nodes G, g_row = ivg_row G, g_weight = ivg_get_weight G\<rparr>"

subsection \<open>\<open>DupGraph\<close>: \<open>levels\<close> copies of a graph\<close>

record dup_graph =
  dup_orig :: graph
  dup_levels :: nat

definition mk_dup :: "graph \<Rightarrow> nat \<Rightarrow> dup_graph res" where
  "mk_dup orig levels = assertr (levels \<ge> 1) (Inr \<lparr>dup_orig = orig, dup_levels = levels\<rparr>)"

definition dup_nodes :: "dup_graph \<Rightarrow> nat" where
  "dup_nodes d = u32 (g_nodes (dup_orig d) * dup_levels d)"

definition get_level :: "dup_graph \<Rightarrow> nat \<Rightarrow> nat" where
  "get_level d v = v div g_nodes (dup_orig d)"

definition get_base :: "dup_graph \<Rightarrow> nat \<Rightarrow> nat" where
  "get_base d v = v mod g_nodes (dup_orig d)"

definition dup_row :: "dup_graph \<Rightarrow> nat \<Rightarrow> dsts" where
  "dup_row d src =
     (let offset = u32 (get_level d src * g_nodes (dup_orig d))
      in map (\<lambda>(v, w). (u32 (v + offset), w)) (g_row (dup_orig d) (get_base d src)))"

definition dup_get_weight :: "dup_graph \<Rightarrow> nat \<Rightarrow> nat \<Rightarrow> nat" where
  "dup_get_weight d src dst =
     (if get_level d src = get_level d dst
      then g_weight (dup_orig d) (get_base d src) (get_base d dst) else 0)"

definition get_first_level_node :: "dup_graph \<Rightarrow> nat \<Rightarrow> nat" where
  "get_first_level_node d v = v mod g_nodes (dup_orig d)"

definition get_node_for_level :: "dup_graph \<Rightarrow> nat \<Rightarrow> nat \<Rightarrow> nat res" where
  "get_node_for_level d v l =
     assertr (v < g_nodes (dup_orig d)) (Inr (u32 (v + u32 (g_nodes (dup_orig d) * l))))"

definition inc_level :: "dup_graph \<Rightarrow> nat \<Rightarrow> nat res" where
  "inc_level d v = get_node_for_level d v (u32 (get_level d v + 1))"

definition dec_level :: "dup_graph \<Rightarrow> nat \<Rightarrow> nat res" where
  "dec_level d v = get_node_for_level d v (u32 (get_level d v + (2 ^ 32 - 1)))"

definition dup :: "dup_graph \<Rightarrow> graph" where
  "dup d = \<lparr>g_nodes = dup_nodes d, g_row = dup_row d, g_weight = dup_get_weight d\<rparr>"

subsection \<open>\<open>ScopedGraph\<close>: edits on top of a graph that is not changed\<close>

record scoped_graph =
  sg_orig :: graph
  sg_mod :: "(nat \<times> dsts) list"

definition mk_scoped :: "graph \<Rightarrow> scoped_graph" where
  "mk_scoped orig = \<lparr>sg_orig = orig, sg_mod = []\<rparr>"

definition sg_nodes :: "scoped_graph \<Rightarrow> nat" where
  "sg_nodes g = g_nodes (sg_orig g)"

definition sg_row :: "scoped_graph \<Rightarrow> nat \<Rightarrow> dsts" where
  "sg_row g src = (case om_find (sg_mod g) src of Some r \<Rightarrow> r | None \<Rightarrow> g_row (sg_orig g) src)"

definition sg_get_weight :: "scoped_graph \<Rightarrow> nat \<Rightarrow> nat \<Rightarrow> nat" where
  "sg_get_weight g src dst =
     (case om_find (sg_mod g) src of
        Some mod_dsts \<Rightarrow> (case om_find mod_dsts dst of Some w \<Rightarrow> w | None \<Rightarrow> 0)
      | None \<Rightarrow> g_weight (sg_orig g) src dst)"

definition sg_put_weight :: "scoped_graph \<Rightarrow> nat \<Rightarrow> nat \<Rightarrow> nat \<Rightarrow> scoped_graph" where
  "sg_put_weight g src dst w =
     (let r = (case om_find (sg_mod g) src of
                 Some r \<Rightarrow> r
               | None \<Rightarrow> fold (\<lambda>p m. om_emplace m (fst p) (snd p)) (g_row (sg_orig g) src) []);
          r' = (if w > 0 then om_put r dst w else om_erase r dst)
      in g\<lparr>sg_mod := om_put (sg_mod g) src r'\<rparr>)"

definition sg :: "scoped_graph \<Rightarrow> graph" where
  "sg g = \<lparr>g_nodes = sg_nodes g, g_row = sg_row g, g_weight = sg_get_weight g\<rparr>"

subsection \<open>\<open>IntersectUnitGraph\<close>\<close>

definition mk_intersect :: "graph \<Rightarrow> graph \<Rightarrow> (graph \<times> graph) res" where
  "mk_intersect G1 G2 = assertr (g_nodes G1 = g_nodes G2) (Inr (G1, G2))"

definition intersect_row :: "graph \<times> graph \<Rightarrow> nat \<Rightarrow> dsts" where
  "intersect_row G src =
     (let dsts1 = fold (\<lambda>p m. om_emplace m (fst p) 1) (g_row (fst G) src) [];
          dsts2 = fold (\<lambda>p m. om_emplace m (fst p) 1) (g_row (snd G) src) []
      in filter (\<lambda>p. p \<in> set dsts2) dsts1)"

subsection \<open>The contracts\<close>

definition row_ok :: "nat \<Rightarrow> dsts \<Rightarrow> bool" where
  "row_ok n r \<longleftrightarrow> om_ok r \<and> (\<forall>(v, w) \<in> set r. v < n \<and> 0 < w \<and> w < 2 ^ 32)"

locale graph_view =
  fixes nodes :: "'g \<Rightarrow> nat"
    and row :: "'g \<Rightarrow> nat \<Rightarrow> dsts"
    and weight :: "'g \<Rightarrow> nat \<Rightarrow> nat \<Rightarrow> nat"
    and valid :: "'g \<Rightarrow> bool"
  assumes row_ok: "valid g \<Longrightarrow> u < nodes g \<Longrightarrow> row_ok (nodes g) (row g u)"
    and weight_row: "valid g \<Longrightarrow> u < nodes g \<Longrightarrow> v < nodes g \<Longrightarrow> weight g u v = dsts_weight (row g u) v"
begin

text \<open>\<open>get_weight\<close> \<open>returns 0 if no edge exists\<close>, and only then.\<close>

lemma weight_iff_edge:
  assumes "valid g" "u < nodes g" "v < nodes g"
  shows "0 < weight g u v \<longleftrightarrow> v \<in> fst ` set (row g u)"
proof -
  have r: "row_ok (nodes g) (row g u)" using assms by (simp add: row_ok)
  then have "om_ok (row g u)" by (simp add: row_ok_def)
  with r show ?thesis unfolding weight_row[OF assms]
    by (force simp: dsts_weight_def row_ok_def om_find_in om_find_None split: option.splits)
qed

lemma row_weight:
  assumes "valid g" "u < nodes g" "(v, w) \<in> set (row g u)"
  shows "weight g u v = w \<and> v < nodes g \<and> 0 < w \<and> w < 2 ^ 32"
proof -
  have r: "row_ok (nodes g) (row g u)" using assms by (simp add: row_ok)
  with assms(3) have "v < nodes g" "om_find (row g u) v = Some w" "0 < w" "w < 2 ^ 32"
    by (auto simp: row_ok_def om_find_in)
  with weight_row[OF assms(1,2)] show ?thesis by (simp add: dsts_weight_def)
qed

lemma weight_bound:
  assumes "valid g" "u < nodes g" "v < nodes g"
  shows "weight g u v < 2 ^ 32"
proof (cases "om_find (row g u) v")
  case None
  then show ?thesis by (simp add: weight_row[OF assms] dsts_weight_def)
next
  case (Some w)
  with row_ok[OF assms(1,2)] have "(v, w) \<in> set (row g u)" by (simp add: om_find_in row_ok_def)
  from row_weight[OF assms(1,2) this] show ?thesis by simp
qed

end

locale mutable_graph = graph_view +
  fixes put :: "'a \<Rightarrow> nat \<Rightarrow> nat \<Rightarrow> nat \<Rightarrow> 'a"
  assumes put_valid: "valid g \<Longrightarrow> u < nodes g \<Longrightarrow> v < nodes g \<Longrightarrow> w < 2 ^ 32 \<Longrightarrow> valid (put g u v w)"
    and put_nodes: "nodes (put g u v w) = nodes g"
    and weight_put: "valid g \<Longrightarrow> u < nodes g \<Longrightarrow> v < nodes g \<Longrightarrow> w < 2 ^ 32 \<Longrightarrow>
          a < nodes g \<Longrightarrow> b < nodes g \<Longrightarrow>
          weight (put g u v w) a b = (if a = u \<and> b = v then w else weight g a b)"

text \<open>A graph of a known size is a store of weights: reads after a sequence of writes.\<close>

locale sized_graph = mutable_graph +
  fixes N :: nat
begin

definition get_at :: "'a \<Rightarrow> nat \<times> nat \<Rightarrow> nat" where
  "get_at g e = weight g (fst e) (snd e)"

definition put_at :: "'a \<Rightarrow> nat \<times> nat \<Rightarrow> nat \<Rightarrow> 'a" where
  "put_at g e w = put g (fst e) (snd e) w"

lemma get_put_at:
  assumes "valid g \<and> nodes g = N" "fst e < N \<and> snd e < N" "w < 2 ^ 32" "fst e' < N \<and> snd e' < N"
  shows "get_at (put_at g e w) e' = (if e' = e then w else get_at g e')"
  using assms by (auto simp: get_at_def put_at_def weight_put prod_eq_iff)

end

sublocale sized_graph \<subseteq> writes: store get_at put_at "\<lambda>g. valid g \<and> nodes g = N"
    "\<lambda>e. fst e < N \<and> snd e < N" "\<lambda>w. w < 2 ^ 32"
  by unfold_locales (simp_all add: get_put_at, simp_all add: put_at_def put_valid put_nodes)

subsection \<open>Each class keeps its contract\<close>

definition ivg_ok :: "dsts list \<Rightarrow> bool" where
  "ivg_ok G \<longleftrightarrow> length G < 2 ^ 32 \<and> (\<forall>r \<in> set G. row_ok (length G) r)"

definition view_ok :: "graph \<Rightarrow> bool" where
  "view_ok g \<longleftrightarrow> (\<forall>u < g_nodes g. row_ok (g_nodes g) (g_row g u) \<and>
     (\<forall>v < g_nodes g. g_weight g u v = dsts_weight (g_row g u) v))"

definition dup_ok :: "dup_graph \<Rightarrow> bool" where
  "dup_ok d \<longleftrightarrow> view_ok (dup_orig d) \<and> g_nodes (dup_orig d) * dup_levels d < 2 ^ 32"

definition sg_ok :: "scoped_graph \<Rightarrow> bool" where
  "sg_ok g \<longleftrightarrow> view_ok (sg_orig g) \<and> om_ok (sg_mod g) \<and>
     (\<forall>(u, r) \<in> set (sg_mod g). row_ok (g_nodes (sg_orig g)) r)"

interpretation view: graph_view g_nodes g_row g_weight view_ok
  by unfold_locales (auto simp: view_ok_def)

interpretation vec: graph_view ivg_nodes ivg_row ivg_get_weight ivg_ok
  by unfold_locales (auto simp: ivg_ok_def ivg_nodes_def ivg_row_def ivg_get_weight_def dsts_weight_def)

lemma view_ok_ivg: "ivg_ok G \<Longrightarrow> view_ok (ivg G)"
  by (auto simp: view_ok_def ivg_def vec.row_ok vec.weight_row)

lemma om_find_shift: "om_find (map (\<lambda>(v, w). (v + k, w)) r) (b + k) = om_find r (b::nat)"
  by (induction r) auto

lemma om_ok_shift: "om_ok r \<Longrightarrow> om_ok (map (\<lambda>(v, w). (v + k, w)) r)" for k :: nat
  by (auto simp: om_ok_def sorted_wrt_map split_beta comp_def)

lemma dup_row_shift:
  assumes "dup_ok d" "src < dup_nodes d"
  shows "dup_row d src = map (\<lambda>(v, w). (v + get_level d src * g_nodes (dup_orig d), w))
           (g_row (dup_orig d) (get_base d src))"
    and "get_base d src < g_nodes (dup_orig d)"
    and "get_level d src < dup_levels d"
proof -
  let ?n = "g_nodes (dup_orig d)"
  from assms have src: "src < ?n * dup_levels d" and n: "?n > 0"
    by (auto simp: dup_ok_def dup_nodes_def intro!: gr0I)
  then show base: "get_base d src < ?n" by (simp add: get_base_def)
  from src show lev: "get_level d src < dup_levels d"
    by (simp add: get_level_def less_mult_imp_div_less mult.commute)
  have off: "v + get_level d src * ?n < 2 ^ 32" if "v < ?n" for v
  proof -
    have "v + get_level d src * ?n < ?n * Suc (get_level d src)" using that by simp
    also have "\<dots> \<le> ?n * dup_levels d" using lev by (intro mult_le_mono) auto
    finally show ?thesis using assms(1) by (simp add: dup_ok_def)
  qed
  have "v < ?n" if "(v, w) \<in> set (g_row (dup_orig d) (get_base d src))" for v w
    using that assms(1) base view.row_weight by (auto simp: dup_ok_def)
  with off off[OF n] show "dup_row d src = map (\<lambda>(v, w). (v + get_level d src * ?n, w))
           (g_row (dup_orig d) (get_base d src))"
    by (auto simp: dup_row_def Let_def)
qed

lemma dup_node_bound: "v < n \<Longrightarrow> l < k \<Longrightarrow> v + l * n < n * (k::nat)"
proof -
  assume "v < n" "l < k"
  then have "v + l * n < n * Suc l" by simp
  also have "\<dots> \<le> n * k" using \<open>l < k\<close> by (intro mult_le_mono) auto
  finally show ?thesis .
qed

interpretation dupg: graph_view dup_nodes dup_row dup_get_weight dup_ok
proof unfold_locales
  fix d u assume d: "dup_ok d" and u: "u < dup_nodes d"
  note s = dup_row_shift[OF d u]
  let ?n = "g_nodes (dup_orig d)"
  from d have nd: "dup_nodes d = ?n * dup_levels d" by (simp add: dup_ok_def dup_nodes_def)
  from d s(2) have r: "row_ok ?n (g_row (dup_orig d) (get_base d u))"
    by (auto simp: dup_ok_def view.row_ok)
  then show "row_ok (dup_nodes d) (dup_row d u)"
    using s(3) by (auto simp: row_ok_def s(1) nd om_ok_shift intro!: dup_node_bound)
  fix v assume v: "v < dup_nodes d"
  from dup_row_shift(2)[OF d v] have vb: "get_base d v < ?n" .
  show "dup_get_weight d u v = dsts_weight (dup_row d u) v"
  proof (cases "get_level d u = get_level d v")
    case True
    then have "v = get_base d v + get_level d u * ?n"
      by (simp add: get_base_def get_level_def)
    with True d s(2) vb show ?thesis
      by (metis dsts_weight_def dup_get_weight_def dup_ok_def om_find_shift s(1) view.weight_row)
  next
    case False
    have "om_find (dup_row d u) v = None"
      using r False by (auto simp: om_find_None s(1) row_ok_def get_level_def)
    with False show ?thesis by (simp add: dup_get_weight_def dsts_weight_def)
  qed
qed

lemma view_ok_dup: "dup_ok d \<Longrightarrow> view_ok (dup d)"
  by (auto simp: view_ok_def dup_def dupg.row_ok dupg.weight_row)

lemma sg_ok_mk: "view_ok g \<Longrightarrow> sg_ok (mk_scoped g)"
  by (simp add: sg_ok_def mk_scoped_def)

lemma sg_base_row:
  assumes "sg_ok g" "u < sg_nodes g"
  shows "(case om_find (sg_mod g) u of Some r \<Rightarrow> r
          | None \<Rightarrow> fold (\<lambda>p m. om_emplace m (fst p) (snd p)) (g_row (sg_orig g) u) []) = sg_row g u"
proof (cases "om_find (sg_mod g) u")
  case None
  from assms have "om_ok (g_row (sg_orig g) u)"
    using view.row_ok by (auto simp: sg_ok_def sg_nodes_def row_ok_def)
  with None om_emplace_copy[of "[]"] show ?thesis by (simp add: sg_row_def)
qed (simp add: sg_row_def)

lemma sg_row_ok: "sg_ok g \<Longrightarrow> u < sg_nodes g \<Longrightarrow> row_ok (sg_nodes g) (sg_row g u)"
  by (auto simp: sg_row_def sg_ok_def sg_nodes_def view.row_ok om_find_in split: option.splits)

lemma sg_put_row:
  assumes "sg_ok g" "u < sg_nodes g"
  shows "sg_row (sg_put_weight g u v w) a =
     (if a = u then (if w > 0 then om_put (sg_row g u) v w else om_erase (sg_row g u) v) else sg_row g a)"
  using assms(1) unfolding sg_put_weight_def Let_def sg_base_row[OF assms]
  by (auto simp: sg_row_def sg_ok_def split: option.split)

lemma sg_put_ok:
  assumes "sg_ok g" "u < sg_nodes g" "v < sg_nodes g" "w < 2 ^ 32"
  shows "sg_ok (sg_put_weight g u v w)"
proof -
  let ?r = "if w > 0 then om_put (sg_row g u) v w else om_erase (sg_row g u) v"
  from sg_row_ok[OF assms(1,2)] assms(3,4) have "row_ok (sg_nodes g) ?r"
    by (auto simp: row_ok_def om_put_in om_erase_in)
  with assms(1) show ?thesis unfolding sg_put_weight_def Let_def sg_base_row[OF assms(1,2)]
    by (auto simp: sg_ok_def sg_nodes_def om_put_in)
qed

interpretation scoped: mutable_graph sg_nodes sg_row sg_get_weight sg_ok sg_put_weight
proof unfold_locales
  fix g u v a b and w :: nat
  assume g: "sg_ok g" and u: "u < sg_nodes g"
  show "row_ok (sg_nodes g) (sg_row g u)" using g u by (rule sg_row_ok)
  have W: "sg_get_weight h x y = dsts_weight (sg_row h x) y"
    if "sg_ok h" "x < sg_nodes h" "y < sg_nodes h" for h x y
    using that by (auto simp: sg_get_weight_def dsts_weight_def sg_row_def sg_ok_def sg_nodes_def
        view.weight_row split: option.splits)
  assume v: "v < sg_nodes g"
  show "sg_get_weight g u v = dsts_weight (sg_row g u) v" using g u v by (rule W)
  assume w: "w < 2 ^ 32"
  show ok: "sg_ok (sg_put_weight g u v w)" using g u v w by (rule sg_put_ok)
  assume ab: "a < sg_nodes g" "b < sg_nodes g"
  have n: "sg_nodes (sg_put_weight g u v w) = sg_nodes g"
    by (simp add: sg_put_weight_def sg_nodes_def Let_def)
  from sg_row_ok[OF g u] have "om_ok (sg_row g u)" by (simp add: row_ok_def)
  with g u ab ok n show "sg_get_weight (sg_put_weight g u v w) a b =
      (if a = u \<and> b = v then w else sg_get_weight g a b)"
    by (simp add: W sg_put_row dsts_weight_def)
qed (simp add: sg_put_weight_def sg_nodes_def Let_def)

interpretation sized: sized_graph sg_nodes sg_row sg_get_weight sg_ok sg_put_weight N for N
  by unfold_locales

lemma view_ok_sg: "sg_ok g \<Longrightarrow> view_ok (sg g)"
  by (auto simp: view_ok_def sg_def scoped.row_ok scoped.weight_row)

text \<open>The edges of a graph.\<close>

definition g_edges :: "graph \<Rightarrow> (nat \<times> nat) set" where
  "g_edges g = {(u, v). u < g_nodes g \<and> v \<in> fst ` set (g_row g u)}"

lemma g_edges_weight:
  assumes "view_ok g"
  shows "(u, v) \<in> g_edges g \<longleftrightarrow> u < g_nodes g \<and> v < g_nodes g \<and> 0 < g_weight g u v"
proof -
  have "v < g_nodes g" if "u < g_nodes g" "v \<in> fst ` set (g_row g u)"
    using that view.row_weight[OF assms] by auto
  with view.weight_iff_edge[OF assms] show ?thesis by (auto simp: g_edges_def)
qed

end
