(* ===== verification/Worklist.thy ===== *)
theory Worklist
  imports Prelude
begin

text \<open>
  The stack-driven graph searches of the code. They come in two shapes:
  \<^item> \<open>dfs_push\<close> marks a node when it is pushed and does not mark the starting nodes; it finds
    what is reachable in at least one step, and records the node each one was first
    reached from (\<open>find_st_path_multi\<close>, \<open>checkCutST\<close>, the st-list optimisations);
  \<^item> \<open>dfs_pop\<close> marks a node when it is popped; it finds what is reachable in any number of
    steps (\<open>find_reachable_multi\<close>, the instruction worklists of the passes).
  A stack is a list whose head is the top. \<open>U\<close> lists the valid nodes: the indices of the
  \<open>BitVector\<close>, or the instructions of the function; leaving it is the error \<open>e\<close>.
\<close>

fun push_succs :: "error \<Rightarrow> 'n list \<Rightarrow> 'n \<Rightarrow> 'n list \<Rightarrow> 'n list \<Rightarrow> 'n set \<Rightarrow> ('n \<rightharpoonup> 'n) \<Rightarrow>
    ('n list \<times> 'n set \<times> ('n \<rightharpoonup> 'n)) res" where
  "push_succs e U u [] todo reach parent = Inr (todo, reach, parent)"
| "push_succs e U u (v # vs) todo reach parent =
     (if v \<notin> set U then Inl e
      else if v \<in> reach then push_succs e U u vs todo reach parent
      else push_succs e U u vs (v # todo) (insert v reach) (parent(v \<mapsto> u)))"

lemma push_succs_measure:
  "push_succs e U u vs todo reach parent = Inr (todo', reach', parent') \<Longrightarrow>
     2 * card (set U - reach') + length todo' \<le> 2 * card (set U - reach) + length todo"
proof (induction vs arbitrary: todo reach parent)
  case (Cons v vs)
  show ?case
  proof (cases "v \<in> set U \<and> v \<notin> reach")
    case True
    then have "card (set U - insert v reach) = card (set U - reach) - 1"
      and "card (set U - reach) > 0"
      by (auto simp: card_Diff_insert card_gt_0_iff)
    moreover from Cons.prems True
    have "push_succs e U u vs (v # todo) (insert v reach) (parent(v \<mapsto> u)) =
        Inr (todo', reach', parent')" by simp
    note Cons.IH[OF this]
    ultimately show ?thesis by auto
  next
    case False
    with Cons show ?thesis by (auto split: if_splits)
  qed
qed auto

function (sequential) dfs_push :: "error \<Rightarrow> 'n list \<Rightarrow> ('n \<Rightarrow> 'n list) \<Rightarrow> 'n list \<Rightarrow> 'n set \<Rightarrow>
    ('n \<rightharpoonup> 'n) \<Rightarrow> ('n set \<times> ('n \<rightharpoonup> 'n)) res" where
  "dfs_push e U succs [] reach parent = Inr (reach, parent)"
| "dfs_push e U succs (u # todo) reach parent =
     (if u \<notin> set U then Inl e
      else case push_succs e U u (succs u) todo reach parent of
        Inl e' \<Rightarrow> Inl e'
      | Inr (todo', reach', parent') \<Rightarrow> dfs_push e U succs todo' reach' parent')"
  by pat_completeness auto
termination
  by (relation "measure (\<lambda>(e, U, succs, todo, reach, parent).
        2 * card (set U - reach) + length todo)")
     (auto dest!: push_succs_measure)

text \<open>The relation a successor function describes.\<close>

definition srel :: "('n \<Rightarrow> 'n list) \<Rightarrow> ('n \<times> 'n) set" where
  "srel succs = {(u, v). v \<in> set (succs u)}"

lemma in_srel [simp]: "(u, v) \<in> srel succs \<longleftrightarrow> v \<in> set (succs u)"
  by (simp add: srel_def)

text \<open>
  What the search keeps: \<open>L\<close> is the marked nodes in the order they were marked; each one has
  a parent that is a starting node or was marked before it.
\<close>

definition dfs_order :: "('n \<Rightarrow> 'n list) \<Rightarrow> 'n set \<Rightarrow> 'n list \<Rightarrow> 'n set \<Rightarrow> ('n \<rightharpoonup> 'n) \<Rightarrow> bool" where
  "dfs_order succs S L reach parent \<longleftrightarrow>
     distinct L \<and> set L = reach \<and> dom parent = reach \<and>
     (\<forall>i < length L. \<exists>u. parent (L ! i) = Some u \<and> L ! i \<in> set (succs u) \<and>
        u \<in> S \<union> set (take i L))"

lemma dfs_order_snoc:
  assumes "dfs_order succs S L reach parent" "v \<notin> reach" "v \<in> set (succs u)" "u \<in> S \<union> reach"
  shows "dfs_order succs S (L @ [v]) (insert v reach) (parent(v \<mapsto> u))"
  using assms by (auto simp: dfs_order_def nth_append less_Suc_eq)

lemma push_succs_ok:
  assumes "dfs_order succs S L reach parent" "u \<in> S \<union> reach" "set todo \<subseteq> S \<union> reach"
    "set vs \<subseteq> set (succs u)"
    "push_succs e U u vs todo reach parent = Inr (todo', reach', parent')"
  shows "\<exists>L'. dfs_order succs S L' reach' parent' \<and> set todo' \<subseteq> S \<union> reach' \<and>
     reach' = reach \<union> set vs \<and> set todo \<subseteq> set todo' \<and> reach' - reach \<subseteq> set todo' \<and> set vs \<subseteq> set U"
  using assms
proof (induction vs arbitrary: todo reach parent L)
  case (Cons v vs)
  show ?case
  proof (cases "v \<in> reach")
    case True
    with Cons.prems obtain L' where "dfs_order succs S L' reach' parent'"
      "set todo' \<subseteq> S \<union> reach'" "reach' = reach \<union> set vs" "set todo \<subseteq> set todo'"
      "reach' - reach \<subseteq> set todo'" "set vs \<subseteq> set U"
      using Cons.IH[of L reach parent todo] by (auto split: if_splits)
    with True Cons.prems(5) show ?thesis by (intro exI[of _ L']) (auto split: if_splits)
  next
    case False
    have ord: "dfs_order succs S (L @ [v]) (insert v reach) (parent(v \<mapsto> u))"
      using Cons.prems False by (intro dfs_order_snoc) auto
    have v: "v \<in> set U" and eq: "push_succs e U u vs (v # todo) (insert v reach) (parent(v \<mapsto> u)) =
        Inr (todo', reach', parent')"
      using Cons.prems False by (auto split: if_splits)
    from Cons.prems have "u \<in> S \<union> insert v reach" "set (v # todo) \<subseteq> S \<union> insert v reach"
      "set vs \<subseteq> set (succs u)" by auto
    from Cons.IH[OF ord this eq] obtain L' where L': "dfs_order succs S L' reach' parent'"
      "set todo' \<subseteq> S \<union> reach'" "reach' = insert v reach \<union> set vs" "set (v # todo) \<subseteq> set todo'"
      "reach' - insert v reach \<subseteq> set todo'" "set vs \<subseteq> set U"
      by blast
    have "reach' - reach \<subseteq> set todo'" using L'(4,5) by auto
    with L' v show ?thesis by (intro exI[of _ L']) auto
  qed
qed auto

lemma dfs_push_ok:
  assumes "dfs_order succs S L reach parent" "set todo \<subseteq> S \<union> reach"
    "\<forall>u \<in> S \<union> reach. u \<in> set todo \<or> set (succs u) \<subseteq> reach"
    "dfs_push e U succs todo reach parent = Inr (reach', parent')"
  shows "\<exists>L'. dfs_order succs S L' reach' parent' \<and>
     (\<forall>u \<in> S \<union> reach'. set (succs u) \<subseteq> reach')"
  using assms
proof (induction e U succs todo reach parent arbitrary: L rule: dfs_push.induct)
  case (2 e U succs u todo reach parent)
  from "2.prems" obtain todo1 reach1 parent1 where
    p: "u \<in> set U" "push_succs e U u (succs u) todo reach parent = Inr (todo1, reach1, parent1)"
    and r: "dfs_push e U succs todo1 reach1 parent1 = Inr (reach', parent')"
    by (auto split: if_splits sum.splits)
  from push_succs_ok[OF "2.prems"(1) _ _ subset_refl p(2)] "2.prems"(2)
  obtain L1 where L1: "dfs_order succs S L1 reach1 parent1" "set todo1 \<subseteq> S \<union> reach1"
    "reach1 = reach \<union> set (succs u)" "set todo \<subseteq> set todo1" "reach1 - reach \<subseteq> set todo1"
    by auto
  have "w \<in> set todo1 \<or> set (succs w) \<subseteq> reach1" if "w \<in> S \<union> reach1" for w
  proof (cases "w \<in> S \<union> reach \<and> w \<notin> set todo")
    case True
    with "2.prems"(3) L1(3) show ?thesis by (cases "w = u") auto
  next
    case False
    with that L1(4,5) show ?thesis by auto
  qed
  with "2.IH"[OF _ p(2) refl refl L1(1,2) _ r] p(1) show ?case by simp
qed auto

lemma dfs_push_start:
  assumes "dfs_push e U succs todo {} Map.empty = Inr (reach, parent)"
  obtains L where "dfs_order succs (set todo) L reach parent"
    and "\<And>u. u \<in> set todo \<union> reach \<Longrightarrow> set (succs u) \<subseteq> reach"
proof -
  have "dfs_order succs (set todo) [] {} Map.empty" by (simp add: dfs_order_def)
  from dfs_push_ok[OF this _ _ assms] that show ?thesis by auto
qed

lemma dfs_order_reach:
  assumes "dfs_order succs S L reach parent"
  shows "reach \<subseteq> (srel succs)\<^sup>+ `` S"
proof -
  have "i < length L \<Longrightarrow> L ! i \<in> (srel succs)\<^sup>+ `` S" for i
  proof (induction i rule: less_induct)
    case (less i)
    with assms obtain u where u: "L ! i \<in> set (succs u)" "u \<in> S \<union> set (take i L)"
      by (auto simp: dfs_order_def)
    from u(1) have step: "(u, L ! i) \<in> srel succs" by simp
    from u(2) consider "u \<in> S" | j where "j < i" "u = L ! j"
      using less.prems by (auto simp: in_set_conv_nth)
    then show ?case
    proof cases
      case 1
      with step show ?thesis by blast
    next
      case 2
      with less have "L ! j \<in> (srel succs)\<^sup>+ `` S" by simp
      with step 2 show ?thesis by (blast intro: trancl_into_trancl)
    qed
  qed
  with assms show ?thesis by (auto simp: dfs_order_def in_set_conv_nth)
qed

theorem dfs_push_reach:
  assumes "dfs_push e U succs todo {} Map.empty = Inr (reach, parent)"
  shows "reach = (srel succs)\<^sup>+ `` set todo"
proof
  from assms show "reach \<subseteq> (srel succs)\<^sup>+ `` set todo"
    by (auto elim!: dfs_push_start dest: dfs_order_reach)
  show "(srel succs)\<^sup>+ `` set todo \<subseteq> reach"
  proof
    fix y assume "y \<in> (srel succs)\<^sup>+ `` set todo"
    then obtain x where "(x, y) \<in> (srel succs)\<^sup>+" "x \<in> set todo" by auto
    from dfs_push_start[OF assms]
    have "v \<in> reach" if "u \<in> reach \<union> set todo" "(u, v) \<in> srel succs" for u v
      using that by (metis Un_commute in_srel subsetD)
    with \<open>(x, y) \<in> (srel succs)\<^sup>+\<close> \<open>x \<in> set todo\<close> show "y \<in> reach"
      by (rule trancl_closed)
  qed
qed

text \<open>The search does not fail when the graph stays inside its nodes.\<close>

lemma push_succs_total:
  assumes "set vs \<subseteq> set U"
  shows "\<exists>r. push_succs e U u vs todo reach parent = Inr r"
  using assms by (induction vs arbitrary: todo reach parent) auto

lemma push_succs_todo:
  assumes "push_succs e U u vs todo reach parent = Inr (todo', reach', parent')"
  shows "set todo' \<subseteq> set todo \<union> set U"
  using assms by (induction vs arbitrary: todo reach parent) (force split: if_splits)+

lemma dfs_push_total:
  assumes "set todo \<subseteq> set U" "\<And>u. u \<in> set U \<Longrightarrow> set (succs u) \<subseteq> set U"
  shows "\<exists>r. dfs_push e U succs todo reach parent = Inr r"
  using assms
proof (induction e U succs todo reach parent rule: dfs_push.induct)
  case (2 e U succs u todo reach parent)
  then have u: "u \<in> set U" "set todo \<subseteq> set U" by auto
  with "2.prems"(2) obtain t r p where
    eq: "push_succs e U u (succs u) todo reach parent = Inr (t, r, p)"
    using push_succs_total[of "succs u" U e u todo reach parent] by (metis prod_cases3)
  with push_succs_todo[OF eq] u have "set t \<subseteq> set U" by auto
  with "2.IH"[OF _ eq refl refl] "2.prems"(2) u eq show ?case by simp
qed auto

text \<open>
  Marking on pop. \<open>put\<close> says where new nodes go: on top of a \<open>std::stack\<close>, or at the end of a
  \<open>std::queue\<close>.
\<close>

definition stack_push :: "'n list \<Rightarrow> 'n list \<Rightarrow> 'n list" where
  "stack_push vs todo = rev vs @ todo"

definition queue_push :: "'n list \<Rightarrow> 'n list \<Rightarrow> 'n list" where
  "queue_push vs todo = todo @ vs"

lemma set_stack_push [simp]: "set (stack_push vs todo) = set vs \<union> set todo"
  by (simp add: stack_push_def)

lemma set_queue_push [simp]: "set (queue_push vs todo) = set vs \<union> set todo"
  by (auto simp: queue_push_def)

lemma card_unseen_less:
  "u \<in> set U \<Longrightarrow> u \<notin> seen \<Longrightarrow> card (set U - insert u seen) < card (set U - seen)"
  by (rule psubset_card_mono) auto

function (sequential) wl_pop :: "error \<Rightarrow> 'n list \<Rightarrow> ('n list \<Rightarrow> 'n list \<Rightarrow> 'n list) \<Rightarrow>
    ('n \<Rightarrow> 'n list) \<Rightarrow> 'n list \<Rightarrow> 'n set \<Rightarrow> 'n set res" where
  "wl_pop e U put succs [] seen = Inr seen"
| "wl_pop e U put succs (u # todo) seen =
     (if u \<in> seen then wl_pop e U put succs todo seen
      else if u \<notin> set U then Inl e
      else wl_pop e U put succs (put (succs u) todo) (insert u seen))"
  by pat_completeness auto
termination
  by (relation "measures [\<lambda>(e, U, put, succs, todo, seen). card (set U - seen),
        \<lambda>(e, U, put, succs, todo, seen). length todo]")
     (auto simp: card_unseen_less simp del: card_Diff_insert)

text \<open>The same loop with an early \<open>return\<close> at the first node that is a hit.\<close>

function (sequential) wl_find :: "error \<Rightarrow> 'n list \<Rightarrow> ('n list \<Rightarrow> 'n list \<Rightarrow> 'n list) \<Rightarrow>
    ('n \<Rightarrow> 'n list) \<Rightarrow> ('n \<Rightarrow> bool) \<Rightarrow> 'n list \<Rightarrow> 'n set \<Rightarrow> 'n option res" where
  "wl_find e U put succs hit [] seen = Inr None"
| "wl_find e U put succs hit (u # todo) seen =
     (if u \<in> seen then wl_find e U put succs hit todo seen
      else if u \<notin> set U then Inl e
      else if hit u then Inr (Some u)
      else wl_find e U put succs hit (put (succs u) todo) (insert u seen))"
  by pat_completeness auto
termination
  by (relation "measures [\<lambda>(e, U, put, succs, hit, todo, seen). card (set U - seen),
        \<lambda>(e, U, put, succs, hit, todo, seen). length todo]")
     (auto simp: card_unseen_less simp del: card_Diff_insert)

lemma srel_step: "u \<in> (srel succs)\<^sup>* `` S \<Longrightarrow> v \<in> set (succs u) \<Longrightarrow> v \<in> (srel succs)\<^sup>* `` S"
  by (auto intro: rtrancl_into_rtrancl simp: srel_def)

lemma wl_pop_mono: "wl_pop e U put succs todo seen = Inr R \<Longrightarrow> seen \<subseteq> R"
  by (induction e U put succs todo seen rule: wl_pop.induct) (auto split: if_splits)

lemma wl_pop_sound:
  assumes "wl_pop e U put succs todo seen = Inr R" "\<And>vs todo. set (put vs todo) = set vs \<union> set todo"
    "set todo \<union> seen \<subseteq> (srel succs)\<^sup>* `` S"
  shows "R \<subseteq> (srel succs)\<^sup>* `` S"
  using assms
proof (induction e U put succs todo seen rule: wl_pop.induct)
  case (2 e U put succs u todo seen)
  show ?case
  proof (cases "u \<in> seen")
    case False
    have "set (succs u) \<subseteq> (srel succs)\<^sup>* `` S"
      using "2.prems"(3) by (auto intro: srel_step simp del: Image_iff)
    with False "2.prems" "2.IH"(2) show ?thesis by (auto split: if_splits)
  qed (use 2 in auto)
qed auto

lemma wl_pop_closed:
  assumes "wl_pop e U put succs todo seen = Inr R" "\<And>vs todo. set (put vs todo) = set vs \<union> set todo"
    "\<forall>u \<in> seen. set (succs u) \<subseteq> seen \<union> set todo"
  shows "set todo \<subseteq> R \<and> (\<forall>u \<in> R. set (succs u) \<subseteq> R)"
  using assms
proof (induction e U put succs todo seen rule: wl_pop.induct)
  case (2 e U put succs u todo seen)
  show ?case
  proof (cases "u \<in> seen")
    case True
    with "2.prems" have "wl_pop e U put succs todo seen = Inr R"
      "\<forall>u \<in> seen. set (succs u) \<subseteq> seen \<union> set todo" by auto
    with "2.IH"(1)[OF True this(1) "2.prems"(2)] wl_pop_mono[OF this(1)] True show ?thesis by auto
  next
    case False
    with "2.prems" have U: "\<not> u \<notin> set U"
      and eq: "wl_pop e U put succs (put (succs u) todo) (insert u seen) = Inr R"
      by (auto split: if_splits)
    have "\<forall>w \<in> insert u seen. set (succs w) \<subseteq> insert u seen \<union> set (put (succs u) todo)"
      using "2.prems"(2,3) by auto
    from "2.IH"(2)[OF False U eq "2.prems"(2) this] wl_pop_mono[OF eq] "2.prems"(2)
    show ?thesis by auto
  qed
qed auto

theorem wl_pop_reach:
  assumes "wl_pop e U put succs todo {} = Inr R" "\<And>vs todo. set (put vs todo) = set vs \<union> set todo"
  shows "R = (srel succs)\<^sup>* `` set todo"
proof
  show "R \<subseteq> (srel succs)\<^sup>* `` set todo" using wl_pop_sound[OF assms] by auto
  from wl_pop_closed[OF assms] have c: "set todo \<subseteq> R" "\<And>u v. u \<in> R \<Longrightarrow> (u, v) \<in> srel succs \<Longrightarrow> v \<in> R"
    by auto
  then show "(srel succs)\<^sup>* `` set todo \<subseteq> R" by (auto elim: rtrancl_closed)
qed

lemma wl_pop_total:
  assumes "set todo \<subseteq> set U" "\<And>u. u \<in> set U \<Longrightarrow> set (succs u) \<subseteq> set U"
    "\<And>vs todo. set (put vs todo) = set vs \<union> set todo"
  shows "\<exists>R. wl_pop e U put succs todo seen = Inr R"
  using assms by (induction e U put succs todo seen rule: wl_pop.induct) auto

lemma wl_find_Some:
  assumes "wl_find e U put succs hit todo seen = Inr (Some u)"
    "\<And>vs todo. set (put vs todo) = set vs \<union> set todo" "set todo \<subseteq> (srel succs)\<^sup>* `` S"
  shows "hit u \<and> u \<in> (srel succs)\<^sup>* `` S \<and> u \<in> set U"
  using assms
proof (induction e U put succs hit todo seen rule: wl_find.induct)
  case (2 e U put succs hit w todo seen)
  have "set (succs w) \<subseteq> (srel succs)\<^sup>* `` S"
    using "2.prems"(3) by (auto intro: srel_step simp del: Image_iff)
  with 2 show ?case by (auto split: if_splits)
qed auto

lemma wl_find_None_pop:
  assumes "wl_find e U put succs hit todo seen = Inr None" "\<forall>u \<in> seen. \<not> hit u"
  shows "\<exists>R. wl_pop e U put succs todo seen = Inr R \<and> (\<forall>u \<in> R. \<not> hit u)"
  using assms
  by (induction e U put succs hit todo seen rule: wl_find.induct) (auto split: if_splits)

theorem wl_find_None:
  assumes "wl_find e U put succs hit todo {} = Inr None"
    "\<And>vs todo. set (put vs todo) = set vs \<union> set todo"
  shows "\<forall>u \<in> (srel succs)\<^sup>* `` set todo. \<not> hit u"
  using wl_find_None_pop[OF assms(1)] wl_pop_reach[OF _ assms(2)] by (metis empty_iff)

lemma wl_find_total:
  assumes "set todo \<subseteq> set U" "\<And>u. u \<in> set U \<Longrightarrow> set (succs u) \<subseteq> set U"
    "\<And>vs todo. set (put vs todo) = set vs \<union> set todo"
  shows "\<exists>r. wl_find e U put succs hit todo seen = Inr r"
  using assms by (induction e U put succs hit todo seen rule: wl_find.induct) auto

end
