(* ===== verification/AugmentingPath.thy ===== *)
theory AugmentingPath
  imports GraphViews Worklist
begin

text \<open>
  \<open>find_st_path_multi\<close> of \<open>src/FordFulkerson.cc\<close>: look for a walk that goes from the first
  waypoint set through all the others in order. One search per waypoint set finds which of
  its members are reached; the parent tables are then followed backwards from the last set.
\<close>

text \<open>Rows are only read for nodes in range: the searches fail before they read another.\<close>

definition row_nodes :: "graph \<Rightarrow> nat \<Rightarrow> nat list" where
  "row_nodes G u = (if u < g_nodes G then map fst (g_row G u) else [])"

lemma srel_row_nodes: "srel (row_nodes G) = g_edges G"
  by (auto simp: srel_def row_nodes_def g_edges_def)

definition copy_reached :: "nat \<Rightarrow> nat list \<Rightarrow> nat set \<Rightarrow> nat list res" where
  "copy_reached n T visited =
     (if \<forall>t \<in> set T. t < n then Inr (filter (\<lambda>t. t \<in> visited) T) else Inl Bad_index)"

text \<open>Result: the parent table of each search and the members of each set that were reached.\<close>

fun search_waypoints :: "graph \<Rightarrow> nat list \<Rightarrow> nat list list \<Rightarrow>
    ((nat \<rightharpoonup> nat) list \<times> nat list list) res" where
  "search_waypoints G S [] = Inr ([], [S])"
| "search_waypoints G S (T # Ts) =
     bindr (dfs_push Bad_index [0..<g_nodes G] (row_nodes G) (rev S) {} Map.empty) (\<lambda>(visited, parent).
     bindr (copy_reached (g_nodes G) T visited) (\<lambda>S'.
     bindr (search_waypoints G S' Ts) (\<lambda>(parents, reached).
     Inr (parent # parents, S # reached))))"

partial_function (option) trace_parents :: "(nat \<rightharpoonup> nat) \<Rightarrow> nat list \<Rightarrow> nat \<Rightarrow> nat list \<Rightarrow>
    (nat list \<times> nat) run" where
  "trace_parents parent waypoint_set v path =
     (case parent v of
        None \<Rightarrow> Some (Inl Assertion)
      | Some u \<Rightarrow> if u \<in> set waypoint_set then Some (Inr (path @ [v], u))
                  else trace_parents parent waypoint_set u (path @ [v]))"

declare trace_parents.simps [code]

fun trace_all :: "((nat \<rightharpoonup> nat) \<times> nat list) list \<Rightarrow> nat \<Rightarrow> nat list \<Rightarrow> (nat list \<times> nat) run" where
  "trace_all [] t path = Some (Inr (path, t))"
| "trace_all ((parent, waypoint_set) # rest) t path =
     bindo (trace_parents parent waypoint_set t path) (\<lambda>(path', t'). trace_all rest t' path')"

definition find_st_path_multi :: "graph \<Rightarrow> nat list list \<Rightarrow> nat list \<Rightarrow> nat list option run" where
  "find_st_path_multi G waypoint_sets path =
     (if length waypoint_sets < 2 \<or> path \<noteq> [] then Some (Inl Assertion)
      else bindo (Some (search_waypoints G (hd waypoint_sets) (tl waypoint_sets)))
        (\<lambda>(parents, waypoints_reached).
           if last waypoints_reached = [] then Some (Inr None)
           else bindo (trace_all (rev (zip parents (butlast waypoints_reached)))
                         (hd (last waypoints_reached)) path)
                  (\<lambda>(path', t). Some (Inr (Some (rev (path' @ [t])))))))"

subsection \<open>What the search finds\<close>

text \<open>The members of the last set reached by passing through all of them in order.\<close>

fun reach_through :: "('n \<times> 'n) set \<Rightarrow> 'n set \<Rightarrow> 'n set list \<Rightarrow> 'n set" where
  "reach_through E S [] = S"
| "reach_through E S (T # Ts) = reach_through E (T \<inter> E\<^sup>+ `` S) Ts"

lemma copy_reached_InrD:
  "copy_reached n T visited = Inr S \<Longrightarrow> set S = set T \<inter> visited \<and> S = filter (\<lambda>t. t \<in> visited) T"
  by (auto simp: copy_reached_def split: if_splits)

lemma search_waypoints_reach:
  assumes "search_waypoints G S Ts = Inr (parents, reached)"
  shows "set (last reached) = reach_through (srel (row_nodes G)) (set S) (map set Ts) \<and>
     reached \<noteq> [] \<and> hd reached = S \<and> length parents = length Ts \<and> length reached = Suc (length Ts)"
  using assms
proof (induction G S Ts arbitrary: parents reached rule: search_waypoints.induct)
  case (2 G S T Ts)
  from "2.prems" obtain visited parent S' ps ws where
    d: "dfs_push Bad_index [0..<g_nodes G] (row_nodes G) (rev S) {} Map.empty = Inr (visited, parent)"
    and c: "copy_reached (g_nodes G) T visited = Inr S'"
    and r: "search_waypoints G S' Ts = Inr (ps, ws)"
    and eq: "parents = parent # ps" "reached = S # ws"
    by (auto simp: bindr_eq_Inr)
  from dfs_push_reach[OF d] copy_reached_InrD[OF c]
  have "set S' = set T \<inter> (srel (row_nodes G))\<^sup>+ `` set S" by auto
  with "2.IH"[OF r] eq show ?case by auto
qed auto

lemma search_waypoints_total:
  assumes "view_ok G" "set S \<subseteq> {..<g_nodes G}" "\<forall>T \<in> set Ts. set T \<subseteq> {..<g_nodes G}"
  shows "\<exists>r. search_waypoints G S Ts = Inr r"
  using assms(2,3)
proof (induction Ts arbitrary: S)
  case (Cons T Ts)
  have "set (row_nodes G u) \<subseteq> set [0..<g_nodes G]" if "u \<in> set [0..<g_nodes G]" for u
    using assms(1) that view.row_weight by (fastforce simp: row_nodes_def)
  moreover have "set (rev S) \<subseteq> set [0..<g_nodes G]" using Cons.prems by auto
  ultimately obtain visited parent where
    d: "dfs_push Bad_index [0..<g_nodes G] (row_nodes G) (rev S) {} Map.empty = Inr (visited, parent)"
    using dfs_push_total by (metis surj_pair)
  have c: "copy_reached (g_nodes G) T visited = Inr (filter (\<lambda>t. t \<in> visited) T)"
    using Cons.prems by (auto simp: copy_reached_def)
  have "set (filter (\<lambda>t. t \<in> visited) T) \<subseteq> {..<g_nodes G}" using Cons.prems by auto
  with Cons.IH[of "filter (\<lambda>t. t \<in> visited) T"] Cons.prems(2)
  obtain r where "search_waypoints G (filter (\<lambda>t. t \<in> visited) T) Ts = Inr r"
    by (metis list.set_intros(2))
  with d c show ?case by (simp add: split_beta)
qed simp

subsection \<open>Following the parents back\<close>

text \<open>\<open>back_path E vs u\<close>: from \<open>u\<close>, the list \<open>vs\<close> read backwards is a walk along \<open>E\<close>.\<close>

fun back_path :: "('n \<times> 'n) set \<Rightarrow> 'n list \<Rightarrow> 'n \<Rightarrow> bool" where
  "back_path E [] u = True"
| "back_path E [v] u = ((u, v) \<in> E)"
| "back_path E (v # w # vs) u = ((w, v) \<in> E \<and> back_path E (w # vs) u)"

lemma back_path_Cons: "back_path E (v # vs) u \<longleftrightarrow> ((case vs of [] \<Rightarrow> u | w # _ \<Rightarrow> w), v) \<in> E \<and> back_path E vs u"
  by (cases vs) auto

lemma back_path_append:
  "ws \<noteq> [] \<Longrightarrow> back_path E (vs @ ws) u \<longleftrightarrow> back_path E vs (hd ws) \<and> back_path E ws u"
proof (induction vs)
  case (Cons v vs)
  then show ?case by (cases vs; cases ws) (auto simp: back_path_Cons)
qed simp

lemma trace_parents_ok:
  assumes ord: "dfs_order succs (set W) L reach parent" and i: "i < length L"
  shows "\<exists>vs u. trace_parents parent W (L ! i) path = Some (Inr (path @ L ! i # vs, u)) \<and>
     u \<in> set W \<and> set vs \<inter> set W = {} \<and> set vs \<subseteq> reach \<and> back_path (srel succs) (L ! i # vs) u"
  using i
proof (induction i arbitrary: path rule: less_induct)
  case (less i)
  with ord obtain u where u: "parent (L ! i) = Some u" "L ! i \<in> set (succs u)"
    "u \<in> set W \<union> set (take i L)" by (auto simp: dfs_order_def)
  show ?case
  proof (cases "u \<in> set W")
    case True
    with u show ?thesis
      by (intro exI[of _ "[]"] exI[of _ u]) (simp add: trace_parents.simps)
  next
    case False
    with u(3) less.prems obtain j where j: "j < i" "u = L ! j" by (auto simp: in_set_conv_nth)
    with less.prems have "u \<in> reach" using ord by (auto simp: dfs_order_def)
    from less.IH[OF j(1), of "path @ [L ! i]"] j less.prems obtain vs t where
      "trace_parents parent W u (path @ [L ! i]) = Some (Inr ((path @ [L ! i]) @ u # vs, t))"
      "t \<in> set W" "set vs \<inter> set W = {}" "set vs \<subseteq> reach" "back_path (srel succs) (u # vs) t"
      by auto
    with False u \<open>u \<in> reach\<close> show ?thesis
      by (intro exI[of _ "u # vs"] exI[of _ t]) (simp add: trace_parents.simps[of _ _ "L ! i"])
  qed
qed

lemma trace_all_append:
  "trace_all (xs @ ys) t path = bindo (trace_all xs t path) (\<lambda>(p, u). trace_all ys u p)"
proof (induction xs t path rule: trace_all.induct)
  case (2 parent W rest t path)
  then show ?case
    by (cases "trace_parents parent W t path") (auto simp: bindo_def split: sum.splits option.splits)
qed simp

subsection \<open>Layered graphs\<close>

text \<open>
  The graph the code searches has levels: an edge goes up by at most one level, and it goes
  up only into the waypoint set of the level it enters. This is what makes the walk that is
  found leave the source set at once and never come back to it.
\<close>

definition layered :: "('n \<times> 'n) set \<Rightarrow> ('n \<Rightarrow> nat) \<Rightarrow> (nat \<Rightarrow> 'n set) \<Rightarrow> bool" where
  "layered E lev W \<longleftrightarrow> (\<forall>i. \<forall>x \<in> W i. lev x = i) \<and>
     (\<forall>a b. (a, b) \<in> E \<longrightarrow> lev b \<le> Suc (lev a) \<and> (lev b = Suc (lev a) \<longrightarrow> b \<in> W (lev b)))"

lemma segment_level:
  assumes "layered E lev W" "back_path E vs u" "vs \<noteq> []" "l \<le> lev (hd vs)" "0 < l"
    "\<forall>x \<in> set vs. x \<notin> W l"
  shows "\<forall>x \<in> insert u (set vs). l \<le> lev x"
  using assms(2-4,6)
proof (induction vs)
  case (Cons v vs)
  let ?y = "case vs of [] \<Rightarrow> u | w # _ \<Rightarrow> w"
  from Cons.prems have e: "(?y, v) \<in> E" "back_path E vs u" by (auto simp: back_path_Cons)
  have "l \<le> lev ?y"
  proof (rule ccontr)
    assume "\<not> l \<le> lev ?y"
    moreover have "lev v \<le> Suc (lev ?y)" using e assms(1) by (auto simp: layered_def)
    ultimately have "lev v = l \<and> lev v = Suc (lev ?y)" using Cons.prems by simp
    with e(1) assms(1) have "v \<in> W l" unfolding layered_def by blast
    with Cons.prems show False by simp
  qed
  show ?case
  proof (cases vs)
    case Nil
    with \<open>l \<le> lev ?y\<close> Cons.prems(3) show ?thesis by simp
  next
    case (Cons w ws)
    with \<open>l \<le> lev ?y\<close> e(2) Cons.prems(3,4) Cons.IH show ?thesis by simp
  qed
qed simp

lemma trace_waypoints:
  assumes lay: "layered (srel (row_nodes G)) lev W"
    and s: "search_waypoints G S Ts = Inr (parents, reached)"
    and t: "t \<in> set (last reached)"
    and S: "set S \<subseteq> W l" and Ts: "\<forall>i < length Ts. set (Ts ! i) = W (Suc l + i)"
    and closed: "0 < l \<longrightarrow> (srel (row_nodes G))\<^sup>+ `` set S \<inter> W l \<subseteq> set S"
  shows "\<exists>vs u. trace_all (rev (zip parents (butlast reached))) t path = Some (Inr (path @ vs, u)) \<and>
     u \<in> set S \<and> back_path (srel (row_nodes G)) vs u \<and> (vs = [] \<longrightarrow> u = t) \<and>
     (vs \<noteq> [] \<longrightarrow> hd vs = t) \<and> (Ts \<noteq> [] \<longrightarrow> vs \<noteq> []) \<and>
     (\<forall>x \<in> set vs. l \<le> lev x \<and> (l = 0 \<longrightarrow> x \<notin> set S))"
  using s t S Ts closed
proof (induction Ts arbitrary: S l parents reached)
  case (Cons T Ts)
  let ?E = "srel (row_nodes G)"
  from Cons.prems(1) obtain visited parent S' ps ws where
    d: "dfs_push Bad_index [0..<g_nodes G] (row_nodes G) (rev S) {} Map.empty = Inr (visited, parent)"
    and c: "copy_reached (g_nodes G) T visited = Inr S'"
    and r: "search_waypoints G S' Ts = Inr (ps, ws)"
    and eq: "parents = parent # ps" "reached = S # ws"
    by (auto simp: bindr_eq_Inr)
  note ws = search_waypoints_reach[OF r]
  have vis: "visited = ?E\<^sup>+ `` set S" using dfs_push_reach[OF d] by simp
  have T: "set T = W (Suc l)" using Cons.prems(4) by force
  have S': "set S' = W (Suc l) \<inter> ?E\<^sup>+ `` set S" using copy_reached_InrD[OF c] T vis by auto
  have sub: "?E\<^sup>+ `` set S' \<subseteq> ?E\<^sup>+ `` set S" using S' by (auto intro: trancl_trans)
  have "\<forall>i < length Ts. set (Ts ! i) = W (Suc (Suc l) + i)"
    using Cons.prems(4) by (metis (no_types, lifting) Suc_less_eq add_Suc_right add_Suc length_Cons nth_Cons_Suc)
  moreover have "t \<in> set (last ws)" using Cons.prems(2) eq ws by simp
  moreover have "?E\<^sup>+ `` set S' \<inter> W (Suc l) \<subseteq> set S'" unfolding S' using sub S' by blast
  moreover have "set S' \<subseteq> W (Suc l)" using S' by blast
  ultimately obtain vs u where in1:
    "trace_all (rev (zip ps (butlast ws))) t path = Some (Inr (path @ vs, u))"
    "u \<in> set S'" "back_path ?E vs u" "vs = [] \<longrightarrow> u = t" "vs \<noteq> [] \<longrightarrow> hd vs = t"
    "\<forall>x \<in> set vs. Suc l \<le> lev x"
    using Cons.IH[OF r, of "Suc l"] by blast
  from in1(2) S' vis have "u \<in> visited" "lev u = Suc l" using lay by (auto simp: layered_def)
  from d obtain L where L: "dfs_order (row_nodes G) (set S) L visited parent"
    by (metis dfs_push_start set_rev)
  with \<open>u \<in> visited\<close> obtain i where "i < length L" "L ! i = u"
    by (metis dfs_order_def in_set_conv_nth)
  with trace_parents_ok[OF L] obtain vs2 w where in2:
    "trace_parents parent S u (path @ vs) = Some (Inr ((path @ vs) @ u # vs2, w))"
    "w \<in> set S" "set vs2 \<inter> set S = {}" "set vs2 \<subseteq> visited" "back_path ?E (u # vs2) w"
    by metis
  have lev2: "\<forall>x \<in> set (u # vs2). l \<le> lev x \<and> (l = 0 \<longrightarrow> x \<notin> set S)"
  proof (cases "l = 0")
    case True
    with in2(3) Cons.prems(3) \<open>lev u = Suc l\<close> lay show ?thesis by (auto simp: layered_def)
  next
    case False
    have "x \<notin> W l" if "x \<in> set (u # vs2)" for x
    proof
      assume x: "x \<in> W l"
      with \<open>lev u = Suc l\<close> lay have "x \<noteq> u" by (auto simp: layered_def)
      with that in2(3,4) x vis Cons.prems(5) False show False by auto
    qed
    with segment_level[OF lay in2(5), of l] \<open>lev u = Suc l\<close> False show ?thesis by auto
  qed
  have "trace_all (rev (zip parents (butlast reached))) t path = Some (Inr (path @ vs @ u # vs2, w))"
    using eq ws in1(1) in2(1) by (simp add: trace_all_append)
  moreover have "back_path ?E (vs @ u # vs2) w"
    using in1(3) in2(5) by (simp add: back_path_append)
  moreover have "hd (vs @ u # vs2) = t" using in1(4,5) by (cases vs) auto
  moreover have "\<forall>x \<in> set (vs @ u # vs2). l \<le> lev x \<and> (l = 0 \<longrightarrow> x \<notin> set S)"
  proof -
    have "x \<notin> set S" if "l = 0" "x \<in> set vs" for x
      using that in1(6) Cons.prems(3) lay by (fastforce simp: layered_def)
    with in1(6) lev2 show ?thesis by (auto dest: Suc_leD)
  qed
  ultimately show ?case using in2(2)
    by (intro exI[of _ "vs @ u # vs2"] exI[of _ w]) simp
qed auto

text \<open>When no walk is found, the last level is out of reach altogether.\<close>

lemma reach_through_layer:
  assumes lay: "layered E lev W" and x: "x \<in> E\<^sup>* `` S" "S \<subseteq> W l" "0 < l \<longrightarrow> E\<^sup>+ `` S \<inter> W l \<subseteq> S"
    and lev: "lev x = l + length Ts" and Ts: "\<forall>i < length Ts. Ts ! i = W (Suc l + i)"
  shows "x \<in> E\<^sup>* `` reach_through E S Ts"
  using x Ts lev
proof (induction Ts arbitrary: S l)
  case (Cons T Ts)
  let ?S' = "T \<inter> E\<^sup>+ `` S"
  have T: "T = W (Suc l)" using Cons.prems(4) by force
  have sub: "E\<^sup>+ `` ?S' \<subseteq> E\<^sup>+ `` S" by (auto intro: trancl_trans)
  from Cons.prems(1) obtain s where s: "s \<in> S" "(s, x) \<in> E\<^sup>*" by auto
  from s(2) have "lev x \<le> l \<or> x \<in> E\<^sup>* `` ?S'"
  proof (induction rule: rtrancl_induct)
    case base
    with s(1) Cons.prems(2) lay show ?case by (auto simp: layered_def)
  next
    case (step y z)
    show ?case
    proof (cases "lev y \<le> l \<and> \<not> lev z \<le> l")
      case True
      with step(2) lay have "lev z = Suc l" "z \<in> W (Suc l)"
        by (auto simp: layered_def) (metis le_Suc_eq le_trans Suc_le_mono)+
      with T s(1) step(1,2) have "z \<in> ?S'" by (auto intro: rtrancl_into_trancl1)
      then show ?thesis by blast
    next
      case False
      with step show ?thesis by (auto intro: rtrancl_into_rtrancl)
    qed
  qed
  with Cons.prems(5) have x': "x \<in> E\<^sup>* `` ?S'" by auto
  have "\<forall>i < length Ts. Ts ! i = W (Suc (Suc l) + i)"
    using Cons.prems(4) by (metis (no_types, lifting) Suc_less_eq add_Suc_right add_Suc length_Cons nth_Cons_Suc)
  moreover have "E\<^sup>+ `` ?S' \<inter> W (Suc l) \<subseteq> ?S'" using sub T by blast
  ultimately show ?case using Cons.IH[OF x', of "Suc l"] Cons.prems(5) T by auto
qed auto

subsection \<open>The contract of \<open>find_st_path_multi\<close>\<close>

lemma back_path_rev:
  "back_path E vs u \<Longrightarrow> (a, b) \<in> set (path_pairs (u # rev vs)) \<Longrightarrow> (a, b) \<in> E"
proof (induction vs)
  case (Cons v vs)
  then show ?case
    by (cases vs) (auto simp: back_path_Cons path_pairs_append[of "u # rev _" _ "[_]", simplified])
qed simp

theorem find_st_path_multi_cases:
  assumes lay: "layered (srel (row_nodes G)) lev W"
    and G: "view_ok G" and wps: "2 \<le> length wps" "\<forall>i < length wps. set (wps ! i) = W i"
    "\<forall>T \<in> set wps. set T \<subseteq> {..<g_nodes G}"
  shows "(find_st_path_multi G wps [] = Some (Inr None) \<and>
        reach_through (srel (row_nodes G)) (set (hd wps)) (map set (tl wps)) = {}) \<or>
     (\<exists>s xs. find_st_path_multi G wps [] = Some (Inr (Some (s # xs))) \<and> xs \<noteq> [] \<and>
        s \<in> set (hd wps) \<and> set xs \<inter> set (hd wps) = {} \<and>
        set (path_pairs (s # xs)) \<subseteq> srel (row_nodes G) \<and>
        reach_through (srel (row_nodes G)) (set (hd wps)) (map set (tl wps)) \<noteq> {})"
proof -
  obtain S Ts where w: "wps = S # Ts" "Ts \<noteq> []" using wps(1) by (cases wps; cases "tl wps") auto
  obtain ps ws where sw: "search_waypoints G S Ts = Inr (ps, ws)"
    using search_waypoints_total[OF G, of S Ts] wps(3) w by auto
  note r = search_waypoints_reach[OF sw]
  show ?thesis
  proof (cases "last ws = []")
    case True
    with sw r w wps(1) show ?thesis by (auto simp: find_st_path_multi_def)
  next
    case False
    have "\<forall>i < length Ts. set (Ts ! i) = W (Suc 0 + i)" "set S \<subseteq> W 0"
      using wps(2) w by force+
    with trace_waypoints[OF lay sw list.set_sel(1)[OF False], of 0 "[]"] w(2)
    obtain vs u where v: "trace_all (rev (zip ps (butlast ws))) (hd (last ws)) [] = Some (Inr (vs, u))"
      "u \<in> set S" "back_path (srel (row_nodes G)) vs u" "vs \<noteq> []" "\<forall>x \<in> set vs. x \<notin> set S"
      by auto
    then have "find_st_path_multi G wps [] = Some (Inr (Some (u # rev vs)))"
      using False sw w wps(1) by (simp add: find_st_path_multi_def)
    moreover have "reach_through (srel (row_nodes G)) (set S) (map set Ts) \<noteq> {}" using r False by auto
    ultimately show ?thesis using v w back_path_rev[OF v(3)] by auto
  qed
qed

end
