(* ===== verification/FordFulkerson.thy ===== *)
theory FordFulkerson
  imports AugmentingPath "HOL-Library.Product_Lexorder"
begin

text \<open>
  \<open>ford_fulkerson_multi\<close> of \<open>src/FordFulkerson.cc\<close> and its parts: the reachability searches,
  the augmentation along a path with \<open>unsigned\<close> arithmetic, the residual loop, the layered
  graph built from the waypoint sets, and the extraction of the cut. The main results are
  that the routine always returns on well-formed input, with none of its assertions failing,
  and that the edges it returns separate the waypoint sets in the input graph.
\<close>

subsection \<open>Reachability\<close>

text \<open>\<open>find_reachable(n, G, s)\<close> skips edges of weight 0, \<open>find_reachable(G, s)\<close> does not.\<close>

definition find_reachable_n :: "nat \<Rightarrow> graph \<Rightarrow> nat \<Rightarrow> nat set res" where
  "find_reachable_n n G s =
     wl_pop Bad_index [0..<n] stack_push (\<lambda>u. map fst (filter (\<lambda>(v, w). w > 0) (g_row G u))) [s] {}"

definition find_reachable :: "graph \<Rightarrow> nat \<Rightarrow> nat set res" where
  "find_reachable G s = wl_pop Bad_index [0..<g_nodes G] stack_push (row_nodes G) [s] {}"

text \<open>The \<open>assert(w > 0)\<close> of the loop body is checked for every row that was visited.\<close>

definition find_reachable_multi :: "graph \<Rightarrow> nat list \<Rightarrow> nat set res" where
  "find_reachable_multi G S =
     bindr (wl_pop Bad_index [0..<g_nodes G] stack_push (row_nodes G) (rev S) {}) (\<lambda>reach.
       assertr (\<forall>u \<in> reach. \<forall>(v, w) \<in> set (g_row G u). w > 0) (Inr reach))"

subsection \<open>The residual loop\<close>

definition MAX_WEIGHT :: nat where
  "MAX_WEIGHT = 2 ^ 32 - 1"

definition path_flow :: "scoped_graph \<Rightarrow> nat list \<Rightarrow> nat" where
  "path_flow ResG path =
     foldl min MAX_WEIGHT (map (\<lambda>(u, v). sg_get_weight ResG u v) (path_pairs path))"

definition augment_edge :: "nat \<Rightarrow> nat \<times> nat \<Rightarrow> scoped_graph \<Rightarrow> scoped_graph" where
  "augment_edge flow e ResG =
     (let u = fst e; v = snd e;
          ResG1 = sg_put_weight ResG u v (u32 (sg_get_weight ResG u v + (2 ^ 32 - flow)))
      in sg_put_weight ResG1 v u (u32 (sg_get_weight ResG1 v u + flow)))"

definition augment :: "scoped_graph \<Rightarrow> nat list \<Rightarrow> scoped_graph res" where
  "augment ResG path =
     assertr (length path \<ge> 2)
       (let flow = path_flow ResG path
        in assertr (flow > 0 \<and> flow < MAX_WEIGHT)
             (Inr (fold (augment_edge flow) (path_pairs path) ResG)))"

partial_function (option) residual_loop :: "scoped_graph \<Rightarrow> nat list list \<Rightarrow> scoped_graph run" where
  "residual_loop ResG waypoint_sets =
     bindo (find_st_path_multi (sg ResG) waypoint_sets []) (\<lambda>r.
       case r of
         None \<Rightarrow> Some (Inr ResG)
       | Some path \<Rightarrow>
           (case augment ResG path of
              Inl e \<Rightarrow> Some (Inl e)
            | Inr ResG' \<Rightarrow> residual_loop ResG' waypoint_sets))"

declare residual_loop.simps [code]

definition cut_of_reach :: "graph \<Rightarrow> nat set \<Rightarrow> (nat \<times> nat) list" where
  "cut_of_reach G reach =
     concat (map (\<lambda>u. map (\<lambda>(v, w). (u, v)) (filter (\<lambda>(v, w). v \<notin> reach) (g_row G u)))
              (filter (\<lambda>u. u \<in> reach) [0..<g_nodes G]))"

definition ford_fulkerson_multi_impl :: "graph \<Rightarrow> nat list list \<Rightarrow> (nat \<times> nat) list run" where
  "ford_fulkerson_multi_impl G waypoint_sets =
     (if length waypoint_sets < 2 then Some (Inl Assertion)
      else if g_nodes G = 0 then Some (Inr [])
      else bindo (residual_loop (mk_scoped G) waypoint_sets) (\<lambda>ResG.
           bindo (Some (find_reachable_multi (sg ResG) (hd waypoint_sets))) (\<lambda>reach.
           Some (Inr (cut_of_reach G reach)))))"

subsection \<open>The layered graph\<close>

definition mod_edge :: "dup_graph \<Rightarrow> nat list \<Rightarrow> nat \<Rightarrow> nat \<Rightarrow> nat \<times> nat \<Rightarrow> scoped_graph \<Rightarrow>
    scoped_graph res" where
  "mod_edge DupG inn i u p ModG =
     (let v = fst p; w = snd p
      in if v \<in> set inn
         then bindr (get_node_for_level DupG u (i - 1)) (\<lambda>a.
              bindr (get_node_for_level DupG v i) (\<lambda>b.
              bindr (get_node_for_level DupG v (i - 1)) (\<lambda>b'.
              Inr (sg_put_weight (sg_put_weight ModG a b w) a b' 0))))
         else Inr ModG)"

fun mod_levels :: "dup_graph \<Rightarrow> nat list list \<Rightarrow> nat \<Rightarrow> scoped_graph \<Rightarrow>
    (nat list list \<times> scoped_graph) res" where
  "mod_levels DupG [] i ModG = Inr ([], ModG)"
| "mod_levels DupG (inn # ins) i ModG =
     bindr (map_res (\<lambda>u. get_node_for_level DupG u i) inn) (\<lambda>out.
     bindr (if i > 0
            then foldr_res (\<lambda>u. foldr_res (mod_edge DupG inn i u) (g_row (dup_orig DupG) u))
                   [0..<g_nodes (dup_orig DupG)] ModG
            else Inr ModG) (\<lambda>ModG'.
     bindr (mod_levels DupG ins (i + 1) ModG') (\<lambda>(outs, ModG'').
     Inr (os_of out # outs, ModG''))))"

definition ford_fulkerson_multi :: "dsts list \<Rightarrow> nat list list \<Rightarrow> (nat \<times> nat) list run" where
  "ford_fulkerson_multi G waypoint_sets =
     bindo (Some (mk_dup (ivg G) (length waypoint_sets))) (\<lambda>DupG.
     bindo (Some (mod_levels DupG waypoint_sets 0 (mk_scoped (dup DupG)))) (\<lambda>(waypoints_mod, ModG).
     bindo (ford_fulkerson_multi_impl (sg ModG) waypoints_mod) (\<lambda>results.
     Some (Inr (os_of (map (\<lambda>(u, v). (get_first_level_node DupG u, get_first_level_node DupG v))
        results))))))"

subsection \<open>The residual loop stops\<close>

text \<open>
  What the loop keeps: an edge of the residual graph lies along an edge of the graph, in one
  direction or the other, and the rows of the sources never grow. The second part is what
  makes the loop stop and keeps \<open>path_flow\<close> below the largest \<open>unsigned\<close>, also when the
  walk that was found uses an edge twice and the subtraction wraps around.
\<close>

definition res_inv :: "graph \<Rightarrow> nat set \<Rightarrow> scoped_graph \<Rightarrow> bool" where
  "res_inv G S R \<longleftrightarrow> sg_ok R \<and> sg_nodes R = g_nodes G \<and>
     (\<forall>a < g_nodes G. \<forall>b < g_nodes G. 0 < sg_get_weight R a b \<longrightarrow> 0 < g_weight G a b \<or> 0 < g_weight G b a) \<and>
     (\<forall>s \<in> S. \<forall>b < g_nodes G. sg_get_weight R s b \<le> g_weight G s b)"

lemma in_set_tl: "x \<in> set (tl xs) \<Longrightarrow> x \<in> set xs"
  by (cases xs) auto

lemma foldl_min_le: "foldl min m xs \<le> (m::nat) \<and> (\<forall>x \<in> set xs. foldl min m xs \<le> x)"
proof (induction xs arbitrary: m)
  case (Cons x xs)
  from Cons[of "min m x"] show ?case by auto
qed simp

lemma foldl_min_in: "foldl min m xs \<in> insert (m::nat) (set xs)"
proof (induction xs arbitrary: m)
  case (Cons x xs)
  from Cons[of "min m x"] show ?case by (auto simp: min_def split: if_splits)
qed simp

lemma sg_weight_bound: "sg_ok R \<Longrightarrow> a < sg_nodes R \<Longrightarrow> b < sg_nodes R \<Longrightarrow> sg_get_weight R a b < 2 ^ 32"
  by (rule scoped.weight_bound)

lemma put_u32:
  assumes "sg_ok R" "u < sg_nodes R" "v < sg_nodes R"
  shows "sg_ok (sg_put_weight R u v (u32 w))" "sg_nodes (sg_put_weight R u v (u32 w)) = sg_nodes R"
    "a < sg_nodes R \<Longrightarrow> b < sg_nodes R \<Longrightarrow> sg_get_weight (sg_put_weight R u v (u32 w)) a b =
       (if a = u \<and> b = v then u32 w else sg_get_weight R a b)"
  by (rule scoped.put_valid[OF assms u32_less], rule scoped.put_nodes,
      rule scoped.weight_put[OF assms u32_less])

lemma augment_edge_puts:
  obtains w where "augment_edge flow (u, v) R =
    sg_put_weight (sg_put_weight R u v (u32 (sg_get_weight R u v + (2 ^ 32 - flow)))) v u (u32 w)"
  unfolding augment_edge_def Let_def fst_conv snd_conv by blast

lemma augment_edge_ok:
  assumes "sg_ok R" "u < sg_nodes R" "v < sg_nodes R"
  shows "sg_ok (augment_edge flow (u, v) R)" "sg_nodes (augment_edge flow (u, v) R) = sg_nodes R"
proof -
  obtain w w' where eq: "augment_edge flow (u, v) R = sg_put_weight (sg_put_weight R u v (u32 w')) v u (u32 w)"
    by (metis augment_edge_puts)
  show "sg_ok (augment_edge flow (u, v) R)" "sg_nodes (augment_edge flow (u, v) R) = sg_nodes R"
    unfolding eq using assms by (simp_all add: put_u32)
qed

lemma augment_edge_frame:
  assumes "sg_ok R" "u < sg_nodes R" "v < sg_nodes R" "a < sg_nodes R" "b < sg_nodes R"
    "(a, b) \<noteq> (u, v)" "(a, b) \<noteq> (v, u)"
  shows "sg_get_weight (augment_edge flow (u, v) R) a b = sg_get_weight R a b"
proof -
  obtain w w' where eq: "augment_edge flow (u, v) R = sg_put_weight (sg_put_weight R u v (u32 w')) v u (u32 w)"
    by (metis augment_edge_puts)
  let ?R = "sg_put_weight R u v (u32 w')"
  have "sg_get_weight ?R a b = sg_get_weight R a b"
    using put_u32(3)[OF assms(1-5)] assms(6) by presburger
  moreover have "sg_get_weight (sg_put_weight ?R v u (u32 w)) a b = sg_get_weight ?R a b"
    using put_u32(3)[of ?R v u a b w] put_u32(1,2)[OF assms(1-3)] assms(2-5,7) by presburger
  ultimately show ?thesis unfolding eq by (rule trans[rotated])
qed

lemma augment_edge_dec:
  assumes "sg_ok R" "u < sg_nodes R" "v < sg_nodes R" "u \<noteq> v" "flow \<le> sg_get_weight R u v"
  shows "sg_get_weight (augment_edge flow (u, v) R) u v = sg_get_weight R u v - flow"
proof -
  have b: "sg_get_weight R u v < 2 ^ 32" using assms(1-3) by (rule sg_weight_bound)
  have "sg_get_weight R u v + (2 ^ 32 - flow) = (sg_get_weight R u v - flow) + 2 ^ 32"
    using assms(5) b by simp
  then have val: "u32 (sg_get_weight R u v + (2 ^ 32 - flow)) = sg_get_weight R u v - flow"
    using b by (simp only: u32_def mod_add_self2) simp
  obtain w where eq: "augment_edge flow (u, v) R =
      sg_put_weight (sg_put_weight R u v (u32 (sg_get_weight R u v + (2 ^ 32 - flow)))) v u (u32 w)"
    by (rule augment_edge_puts)
  obtain w' where w': "sg_get_weight R u v + (2 ^ 32 - flow) = w'" by simp
  have "sg_get_weight (augment_edge flow (u, v) R) u v = u32 w'"
    unfolding eq w' using assms(1-4) by (simp add: put_u32)
  with val w' show ?thesis by simp
qed

lemma augment_edges_frame:
  assumes "sg_ok R" "\<forall>(u, v) \<in> set es. u < sg_nodes R \<and> v < sg_nodes R"
  shows "sg_ok (fold (augment_edge flow) es R) \<and> sg_nodes (fold (augment_edge flow) es R) = sg_nodes R \<and>
    (\<forall>a < sg_nodes R. \<forall>b < sg_nodes R. (a, b) \<notin> set es \<longrightarrow> (b, a) \<notin> set es \<longrightarrow>
       sg_get_weight (fold (augment_edge flow) es R) a b = sg_get_weight R a b)"
  using assms
proof (induction es arbitrary: R)
  case (Cons e es)
  obtain u v where e: "e = (u, v)" by (cases e)
  let ?R = "augment_edge flow (u, v) R"
  from Cons.prems e have ok: "sg_ok ?R" "sg_nodes ?R = sg_nodes R" by (auto simp: augment_edge_ok)
  with Cons.prems Cons.IH[of ?R] e have
    "sg_ok (fold (augment_edge flow) es ?R)" "sg_nodes (fold (augment_edge flow) es ?R) = sg_nodes R"
    "\<forall>a < sg_nodes R. \<forall>b < sg_nodes R. (a, b) \<notin> set es \<longrightarrow> (b, a) \<notin> set es \<longrightarrow>
       sg_get_weight (fold (augment_edge flow) es ?R) a b = sg_get_weight ?R a b"
    by auto
  with Cons.prems e show ?case by (auto simp: augment_edge_frame)
qed auto

definition source_weight :: "graph \<Rightarrow> nat set \<Rightarrow> scoped_graph \<Rightarrow> nat" where
  "source_weight G S R = (\<Sum>e \<in> S \<times> {..<g_nodes G}. sg_get_weight R (fst e) (snd e))"

lemma sum_dec_one:
  fixes f g :: "'a \<Rightarrow> nat"
  assumes "finite A" "x \<in> A" "g x < f x" "\<And>y. y \<in> A \<Longrightarrow> y \<noteq> x \<Longrightarrow> g y = f y"
  shows "sum g A < sum f A"
  using assms by (intro sum_strict_mono_ex1) (auto simp: less_imp_le le_less)

lemma augment_ok:
  assumes G: "view_ok G" and inv: "res_inv G S R" and small: "\<forall>s \<in> S. \<forall>b < g_nodes G. g_weight G s b < MAX_WEIGHT"
    and S: "S \<subseteq> {..<g_nodes G}"
    and p: "s \<in> S" "xs \<noteq> []" "set xs \<inter> S = {}" "set (path_pairs (s # xs)) \<subseteq> g_edges (sg R)"
  shows "\<exists>R'. augment R (s # xs) = Inr R' \<and> res_inv G S R' \<and> source_weight G S R' < source_weight G S R"
proof -
  let ?N = "g_nodes G" and ?f = "path_flow R (s # xs)"
  obtain x ys where xs: "xs = x # ys" using p(2) by (cases xs) auto
  from inv have R: "sg_ok R" "sg_nodes R = ?N" by (auto simp: res_inv_def)
  have edge: "u < ?N \<and> v < ?N \<and> 0 < sg_get_weight R u v" if "(u, v) \<in> set (path_pairs (s # xs))" for u v
    using p(4) that g_edges_weight[OF view_ok_sg[OF R(1)]] R(2) by (auto simp: sg_def)
  have first: "(s, x) \<in> set (path_pairs (s # xs))" using xs by simp
  have f_le: "?f \<le> sg_get_weight R s x"
    using foldl_min_le[of MAX_WEIGHT "map (\<lambda>(u, v). sg_get_weight R u v) (path_pairs (s # xs))"] xs
    unfolding path_flow_def by simp
  have "sg_get_weight R s x \<le> g_weight G s x" "g_weight G s x < MAX_WEIGHT"
    using edge[OF first] inv small p(1) by (auto simp: res_inv_def)
  with f_le have f_max: "?f < MAX_WEIGHT" by simp
  have f_pos: "0 < ?f"
    using foldl_min_in[of MAX_WEIGHT "map (\<lambda>(u, v). sg_get_weight R u v) (path_pairs (s # xs))"] edge
    by (auto simp: path_flow_def MAX_WEIGHT_def)
  let ?R1 = "augment_edge ?f (s, x) R" and ?R' = "fold (augment_edge ?f) (path_pairs (s # xs)) R"
  have eq: "?R' = fold (augment_edge ?f) (path_pairs xs) ?R1" using xs by simp
  have frame: "sg_ok ?R' \<and> sg_nodes ?R' = ?N \<and> (\<forall>a < ?N. \<forall>b < ?N. (a, b) \<notin> set (path_pairs (s # xs)) \<longrightarrow>
     (b, a) \<notin> set (path_pairs (s # xs)) \<longrightarrow> sg_get_weight ?R' a b = sg_get_weight R a b)"
    using augment_edges_frame[OF R(1), of "path_pairs (s # xs)"] edge R(2) by auto
  have sx: "s < ?N" "x < ?N" "s \<noteq> x" using edge[OF first] p(1,3) xs by auto
  with R have R1: "sg_ok ?R1" "sg_nodes ?R1 = ?N" by (auto simp: augment_edge_ok)
  have row: "sg_get_weight ?R' a b = sg_get_weight R a b - (if a = s \<and> b = x then ?f else 0)"
    if ab: "a \<in> S" "b < ?N" for a b
  proof -
    have a: "a < ?N" "a \<notin> set xs" using ab S p(3) by auto
    have "u < sg_nodes ?R1 \<and> v < sg_nodes ?R1" if "(u, v) \<in> set (path_pairs xs)" for u v
      using edge[of u v] that xs R1(2) by simp
    then have rest: "\<forall>(u, v) \<in> set (path_pairs xs). u < sg_nodes ?R1 \<and> v < sg_nodes ?R1" by blast
    have "(a, b) \<notin> set (path_pairs xs)" "(b, a) \<notin> set (path_pairs xs)"
      using a(2) path_pairs_set[of _ _ xs] by (metis in_set_tl)+
    with augment_edges_frame[OF R1(1) rest, THEN conjunct2, THEN conjunct2, rule_format, of a b] a ab R1(2)
    have "sg_get_weight ?R' a b = sg_get_weight ?R1 a b" unfolding eq by simp
    also have "\<dots> = sg_get_weight R a b - (if a = s \<and> b = x then ?f else 0)"
    proof (cases "a = s \<and> b = x")
      case True
      with R sx f_le show ?thesis by (simp add: augment_edge_dec)
    next
      case False
      moreover have "a \<noteq> x" using a xs by auto
      ultimately have "(a, b) \<noteq> (s, x)" "(a, b) \<noteq> (x, s)" by auto
      with R sx a ab have "sg_get_weight ?R1 a b = sg_get_weight R a b"
        by (simp add: augment_edge_frame del: prod.inject)
      with False show ?thesis by auto
    qed
    finally show ?thesis .
  qed
  have "0 < g_weight G a b \<or> 0 < g_weight G b a" if "a < ?N" "b < ?N" "0 < sg_get_weight ?R' a b" for a b
    using that frame edge inv by (metis res_inv_def)
  moreover have "sg_get_weight ?R' a b \<le> g_weight G a b" if "a \<in> S" "b < ?N" for a b
    using row[OF that] inv that by (auto simp: res_inv_def intro: le_trans[OF diff_le_self])
  ultimately have inv': "res_inv G S ?R'" using frame by (auto simp: res_inv_def)
  have "source_weight G S ?R' < source_weight G S R" unfolding source_weight_def
  proof (rule sum_dec_one[of _ "(s, x)"])
    show "finite (S \<times> {..<?N})" using finite_subset[OF S] by simp
    show "sg_get_weight ?R' (fst (s, x)) (snd (s, x)) < sg_get_weight R (fst (s, x)) (snd (s, x))"
      using row[OF p(1) sx(2)] f_pos f_le by simp
  next
    fix y assume "y \<in> S \<times> {..<?N}" "y \<noteq> (s, x)"
    then show "sg_get_weight ?R' (fst y) (snd y) = sg_get_weight R (fst y) (snd y)"
      using row[of "fst y" "snd y"] by (cases y) (simp del: fold_simps, blast)
  qed (use p(1) sx in simp)
  with inv' f_pos f_max xs show ?thesis by (simp add: augment_def Let_def)
qed

lemma layered_residual:
  assumes lay: "layered (g_edges G) lev W" and up: "\<forall>(a, b) \<in> g_edges G. lev a \<le> lev b"
    and G: "view_ok G" and inv: "res_inv G S R"
  shows "layered (g_edges (sg R)) lev W"
proof -
  from inv have R: "sg_ok R" "sg_nodes R = g_nodes G" by (auto simp: res_inv_def)
  have "(a, b) \<in> g_edges G \<or> (b, a) \<in> g_edges G" if "(a, b) \<in> g_edges (sg R)" for a b
    using that inv g_edges_weight[OF view_ok_sg[OF R(1)]] R(2)
    unfolding g_edges_weight[OF G] res_inv_def by (simp add: sg_def)
  moreover have "lev b \<le> Suc (lev a)" "lev b = Suc (lev a) \<longrightarrow> b \<in> W (lev b)"
    if "(a, b) \<in> g_edges G \<or> (b, a) \<in> g_edges G" for a b
  proof -
    have "(a, b) \<in> g_edges G \<or> lev b \<le> lev a" using that up by blast
    with lay show "lev b \<le> Suc (lev a)" "lev b = Suc (lev a) \<longrightarrow> b \<in> W (lev b)"
      unfolding layered_def by (metis le_SucI, metis Suc_n_not_le_n)
  qed
  ultimately show ?thesis using lay unfolding layered_def by blast
qed

theorem residual_loop_returns:
  assumes lay: "layered (g_edges G) lev W" and up: "\<forall>(a, b) \<in> g_edges G. lev a \<le> lev b"
    and G: "view_ok G"
    and wps: "2 \<le> length wps" "\<forall>i < length wps. set (wps ! i) = W i"
    "\<forall>T \<in> set wps. set T \<subseteq> {..<g_nodes G}"
    and small: "\<forall>s \<in> set (hd wps). \<forall>b < g_nodes G. g_weight G s b < MAX_WEIGHT"
    and inv: "res_inv G (set (hd wps)) R"
  shows "\<exists>R'. residual_loop R wps = Some (Inr R') \<and> res_inv G (set (hd wps)) R' \<and>
     reach_through (g_edges (sg R')) (set (hd wps)) (map set (tl wps)) = {}"
  using inv
proof (induction "source_weight G (set (hd wps)) R" arbitrary: R rule: less_induct)
  case less
  let ?S = "set (hd wps)"
  from less.prems have R: "sg_ok R" "sg_nodes R = g_nodes G" by (auto simp: res_inv_def)
  have S: "?S \<subseteq> {..<g_nodes G}" using wps(1,3) by (cases wps) auto
  have "\<forall>T \<in> set wps. set T \<subseteq> {..<g_nodes (sg R)}" using wps(3) R by (simp add: sg_def)
  from find_st_path_multi_cases[OF _ view_ok_sg[OF R(1)] wps(1,2) this, of lev]
    layered_residual[OF lay up G less.prems]
  consider "find_st_path_multi (sg R) wps [] = Some (Inr None)"
      "reach_through (g_edges (sg R)) ?S (map set (tl wps)) = {}"
    | s xs where "find_st_path_multi (sg R) wps [] = Some (Inr (Some (s # xs)))" "xs \<noteq> []"
      "s \<in> ?S" "set xs \<inter> ?S = {}" "set (path_pairs (s # xs)) \<subseteq> g_edges (sg R)"
    unfolding srel_row_nodes by auto
  then show ?case
  proof cases
    case 1
    with less.prems show ?thesis by (simp add: residual_loop.simps)
  next
    case 2
    from augment_ok[OF G less.prems small S 2(3,2,4,5)] obtain R' where
      R': "augment R (s # xs) = Inr R'" "res_inv G ?S R'" "source_weight G ?S R' < source_weight G ?S R"
      by auto
    from less.hyps[OF R'(3,2)] R'(1) 2(1) show ?thesis by (simp add: residual_loop.simps[of R])
  qed
qed

end
