(* ===== verification/WaypointCut.thy ===== *)
theory WaypointCut
  imports FordFulkerson
begin

text \<open>
  What \<open>ford_fulkerson_multi\<close> of \<open>src/FordFulkerson.cc\<close> delivers: it always returns on
  well-formed input, and the edges it returns are edges of the graph that separate the
  waypoint sets: without them no walk goes from the first set through all the others in
  order. The specification \<open>st_walk\<close> says what such a walk is.
\<close>

subsection \<open>The specification\<close>

text \<open>\<open>st_walk E Ws x\<close>: from \<open>x\<close> there is a walk through the sets \<open>Ws\<close> in order, with at least
  one step before each of them.\<close>

fun st_walk :: "('n \<times> 'n) set \<Rightarrow> 'n set list \<Rightarrow> 'n \<Rightarrow> bool" where
  "st_walk E [] x = True"
| "st_walk E (W # Ws) x = (\<exists>y \<in> W. (x, y) \<in> E\<^sup>+ \<and> st_walk E Ws y)"

definition separates :: "('n \<times> 'n) set \<Rightarrow> ('n \<times> 'n) set \<Rightarrow> 'n set list \<Rightarrow> bool" where
  "separates E C Ws \<longleftrightarrow> (\<forall>x \<in> hd Ws. \<not> st_walk (E - C) (tl Ws) x)"

text \<open>The same, spelled out: a walk is a list of nodes with edges between neighbours, and there
  are increasing positions at which it meets the sets.\<close>

definition list_walk :: "('n \<times> 'n) set \<Rightarrow> 'n set list \<Rightarrow> 'n list \<Rightarrow> nat list \<Rightarrow> bool" where
  "list_walk E Ws p pos \<longleftrightarrow> set (path_pairs p) \<subseteq> E \<and> sorted_wrt (<) pos \<and> length pos = length Ws \<and>
     (\<forall>j < length Ws. pos ! j < length p \<and> p ! (pos ! j) \<in> Ws ! j)"

lemma path_pairs_nth: "Suc i < length p \<Longrightarrow> (p ! i, p ! Suc i) \<in> set (path_pairs p)"
proof (induction p arbitrary: i rule: path_pairs.induct)
  case (1 x y zs)
  then show ?case by (cases i) auto
qed auto

lemma path_trancl:
  assumes "set (path_pairs p) \<subseteq> E" "i < j" "j < length p"
  shows "(p ! i, p ! j) \<in> E\<^sup>+"
  using assms(2,3)
proof (induction j)
  case (Suc j)
  then have step: "(p ! j, p ! Suc j) \<in> E" using assms(1) path_pairs_nth by blast
  show ?case
  proof (cases "i = j")
    case False
    with Suc have "(p ! i, p ! j) \<in> E\<^sup>+" by simp
    with step show ?thesis by (rule trancl_into_trancl[rotated -1])
  qed (use step in auto)
qed simp

lemma list_walk_st_walk:
  assumes "list_walk E (W # Ws) p pos"
  shows "\<exists>x \<in> W. st_walk E Ws x"
proof -
  from assms obtain i pos' where pos: "pos = i # pos'" "length pos' = length Ws"
    by (cases pos) (auto simp: list_walk_def)
  with assms have p: "set (path_pairs p) \<subseteq> E" "i < length p" "p ! i \<in> W" "sorted_wrt (<) (i # pos')"
    "\<forall>j < length Ws. pos' ! j < length p \<and> p ! (pos' ! j) \<in> Ws ! j"
    by (auto simp: list_walk_def nth_Cons' split: if_splits)
  have "st_walk E Ws (p ! i)"
    using pos(2) p(2,4,5)
  proof (induction pos' Ws arbitrary: i rule: list_induct2)
    case (Cons k pos' W Ws)
    have k: "k < length p" "p ! k \<in> W" "i < k" using Cons.prems(3)[rule_format, of 0] Cons.prems(2) by simp_all
    have "sorted_wrt (<) (k # pos')" using Cons.prems(2) by simp
    moreover have "\<forall>j < length Ws. pos' ! j < length p \<and> p ! (pos' ! j) \<in> Ws ! j"
      using Cons.prems(3)[rule_format, of "Suc _"] by simp
    ultimately have "st_walk E Ws (p ! k)" by (rule Cons.IH[OF k(1)])
    with k(2) path_trancl[OF p(1) k(3,1)] show ?case by auto
  qed simp
  with p(3) show ?thesis by blast
qed

subsection \<open>The cut of a layered graph\<close>

lemma res_inv_start:
  assumes "view_ok G"
  shows "res_inv G S (mk_scoped G)"
proof -
  have "sg_ok (mk_scoped G)" using assms by (rule sg_ok_mk)
  then show ?thesis by (simp add: res_inv_def) (simp add: mk_scoped_def sg_nodes_def sg_get_weight_def)
qed

lemma find_reachable_multi_reach:
  assumes "view_ok G" "set S \<subseteq> {..<g_nodes G}"
  shows "find_reachable_multi G S = Inr ((g_edges G)\<^sup>* `` set S)"
proof -
  have "\<And>u. u \<in> set [0..<g_nodes G] \<Longrightarrow> set (row_nodes G u) \<subseteq> set [0..<g_nodes G]"
    using assms(1) view.row_weight by (fastforce simp: row_nodes_def)
  moreover have "set (rev S) \<subseteq> set [0..<g_nodes G]" using assms(2) by auto
  ultimately obtain R where R: "wl_pop Bad_index [0..<g_nodes G] stack_push (row_nodes G) (rev S) {} = Inr R"
    using wl_pop_total[of "rev S" "[0..<g_nodes G]" "row_nodes G" stack_push Bad_index "{}"] set_stack_push
    by blast
  from wl_pop_reach[OF R set_stack_push] have eq: "R = (g_edges G)\<^sup>* `` set S"
    by (simp add: srel_row_nodes)
  have "u < g_nodes G" if "u \<in> R" for u
  proof -
    from that eq obtain s where "(s, u) \<in> (g_edges G)\<^sup>*" "s \<in> {..<g_nodes G}" using assms(2) by auto
    then have "u \<in> {..<g_nodes G}" by (rule rtrancl_closed) (auto simp: g_edges_weight[OF assms(1)])
    then show ?thesis by simp
  qed
  then have "\<forall>u \<in> R. \<forall>(v, w) \<in> set (g_row G u). 0 < w" using view.row_weight[OF assms(1)] by blast
  with R eq show ?thesis by (simp add: find_reachable_multi_def)
qed

lemma set_cut_of_reach: "set (cut_of_reach G reach) = {(u, v) \<in> g_edges G. u \<in> reach \<and> v \<notin> reach}"
  by (auto simp: cut_of_reach_def g_edges_def) (force)+

theorem ford_fulkerson_multi_impl_cut:
  assumes lay: "layered (g_edges G) lev W" and up: "\<forall>(a, b) \<in> g_edges G. lev a \<le> lev b"
    and G: "view_ok G"
    and wps: "2 \<le> length wps" "\<forall>i < length wps. set (wps ! i) = W i"
    "\<forall>T \<in> set wps. set T \<subseteq> {..<g_nodes G}"
    and small: "\<forall>s \<in> set (hd wps). \<forall>b < g_nodes G. g_weight G s b < MAX_WEIGHT"
  shows "\<exists>reach cut. ford_fulkerson_multi_impl G wps = Some (Inr cut) \<and>
     set cut = {(u, v) \<in> g_edges G. u \<in> reach \<and> v \<notin> reach} \<and>
     set (hd wps) \<subseteq> reach \<and> set (last wps) \<inter> reach = {}"
proof (cases "g_nodes G = 0")
  case True
  with wps(3) have "\<forall>T \<in> set wps. set T = {}" by simp
  moreover have "hd wps \<in> set wps" "last wps \<in> set wps" using wps(1) by (auto intro: hd_in_set last_in_set)
  ultimately show ?thesis using True wps(1)
    by (intro exI[of _ "{}"] exI[of _ "[]"]) (simp add: ford_fulkerson_multi_impl_def)
next
  case False
  from residual_loop_returns[OF lay up G wps small res_inv_start[OF G]] obtain R where
    R: "residual_loop (mk_scoped G) wps = Some (Inr R)" "res_inv G (set (hd wps)) R"
    "reach_through (g_edges (sg R)) (set (hd wps)) (map set (tl wps)) = {}" by blast
  from R(2) have ok: "sg_ok R" "sg_nodes R = g_nodes G" by (auto simp: res_inv_def)
  obtain S Ts where w: "wps = S # Ts" "Ts \<noteq> []" using wps(1) by (cases wps; cases "tl wps") auto
  let ?reach = "(g_edges (sg R))\<^sup>* `` set S"
  have "set S \<subseteq> {..<g_nodes (sg R)}" using wps(3) w ok by (simp add: sg_def)
  then have reach: "find_reachable_multi (sg R) S = Inr ?reach"
    by (rule find_reachable_multi_reach[OF view_ok_sg[OF ok(1)]])
  have "x \<notin> ?reach" if x: "x \<in> set (last wps)" for x
  proof
    assume r: "x \<in> ?reach"
    have Ts: "\<forall>i < length Ts. map set Ts ! i = W (Suc 0 + i)" "set S \<subseteq> W 0" using wps(2) w by force+
    have "last wps = wps ! length Ts" using last_conv_nth[of wps] w(1) by (metis diff_Suc_1 length_Cons list.distinct(1))
    moreover have "set (wps ! length Ts) = W (length Ts)" using wps(2) w(1) by (metis length_Cons lessI)
    ultimately have "set (last wps) = W (length Ts)" by (simp only:)
    with x lay have "lev x = 0 + length (map set Ts)" by (auto simp: layered_def)
    from reach_through_layer[OF layered_residual[OF lay up G R(2)] r Ts(2) _ this] Ts(1) R(3) w
    show False by simp
  qed
  with False wps(1) R(1) reach w set_cut_of_reach[of G ?reach] show ?thesis
    by (intro exI[of _ ?reach] exI[of _ "cut_of_reach G ?reach"])
      (auto simp: ford_fulkerson_multi_impl_def)
qed

subsection \<open>The layered graph\<close>

text \<open>
  Node \<open>u + n * l\<close> is node \<open>u\<close> at level \<open>l\<close>. \<open>lift_weight\<close> is the graph the writes of
  \<open>ford_fulkerson_multi\<close> leave behind: an edge into a waypoint of the next level goes up to
  it, every other edge stays on its level.
\<close>

definition lift_weight :: "dsts list \<Rightarrow> nat list list \<Rightarrow> nat \<Rightarrow> nat \<Rightarrow> nat" where
  "lift_weight G wps a b =
     (let n = length G; u = a mod n; l = a div n; v = b mod n; m = b div n;
          up = (Suc l < length wps \<and> v \<in> set (wps ! Suc l))
      in if m = l then (if up then 0 else ivg_get_weight G u v)
         else if m = Suc l \<and> up then ivg_get_weight G u v else 0)"

definition edge_ops :: "nat \<Rightarrow> nat list \<Rightarrow> nat \<Rightarrow> nat \<Rightarrow> nat \<times> nat \<Rightarrow> ((nat \<times> nat) \<times> nat) list" where
  "edge_ops n T i u q =
     (if fst q \<in> set T
      then [((u + n * (i - 1), fst q + n * i), snd q), ((u + n * (i - 1), fst q + n * (i - 1)), 0)]
      else [])"

definition level_ops :: "dsts list \<Rightarrow> nat list list \<Rightarrow> nat \<Rightarrow> ((nat \<times> nat) \<times> nat) list" where
  "level_ops G wps i =
     concat (map (\<lambda>u. concat (map (edge_ops (length G) (wps ! i) i u) (G ! u))) [0..<length G])"

definition instance_ok :: "dsts list \<Rightarrow> nat list list \<Rightarrow> bool" where
  "instance_ok G wps \<longleftrightarrow> length G * length wps < 2 ^ 32 \<and> length G < 2 ^ 32 \<and> 2 \<le> length wps \<and>
     (\<forall>r \<in> set G. om_ok r \<and> (\<forall>(v, w) \<in> set r. v < length G \<and> 0 < w \<and> w < MAX_WEIGHT)) \<and>
     (\<forall>T \<in> set wps. \<forall>v \<in> set T. v < length G)"

lemma instance_ivg: "instance_ok G wps \<Longrightarrow> ivg_ok G"
  by (fastforce simp: instance_ok_def ivg_ok_def row_ok_def MAX_WEIGHT_def)

lemma wps_bound: "instance_ok G wps \<Longrightarrow> i < length wps \<Longrightarrow> u \<in> set (wps ! i) \<Longrightarrow> u < length G"
  unfolding instance_ok_def by (meson nth_mem)

lemma level_node:
  assumes "instance_ok G wps" "v < length G" "l < length wps"
  shows "v + length G * l < length G * length wps" "v + length G * l < 2 ^ 32"
    "(v + length G * l) div length G = l" "(v + length G * l) mod length G = v"
proof -
  show "v + length G * l < length G * length wps"
    using dup_node_bound[OF assms(2,3)] by (simp add: mult.commute)
  with assms(1) show "v + length G * l < 2 ^ 32" by (simp add: instance_ok_def)
  show "(v + length G * l) div length G = l" using assms(2) by (subst div_mult_self2) auto
  show "(v + length G * l) mod length G = v" using assms(2) by auto
qed

lemma get_node_level:
  assumes "instance_ok G wps" "v < length G" "l < length wps"
  shows "get_node_for_level \<lparr>dup_orig = ivg G, dup_levels = k\<rparr> v l = Inr (v + length G * l)"
proof -
  have "length G < 2 ^ 32" using assms(1) by (simp add: instance_ok_def)
  moreover have "length G * l < 2 ^ 32" using level_node(2)[OF assms] by (rule le_less_trans[rotated]) simp
  ultimately show ?thesis using assms(2) level_node(2)[OF assms]
    by (simp add: get_node_for_level_def ivg_def ivg_nodes_def)
qed

lemma mod_edge_ops:
  assumes "instance_ok G wps" "u < length G" "fst p < length G" "0 < i" "i < length wps"
  shows "mod_edge \<lparr>dup_orig = ivg G, dup_levels = k\<rparr> (wps ! i) i u p s = Inr (sized.writes.put_all
     (edge_ops (length G) (wps ! i) i u p) s)"
proof -
  obtain v w where p: "p = (v, w)" by (cases p)
  have "get_node_for_level \<lparr>dup_orig = ivg G, dup_levels = k\<rparr> u (i - 1) = Inr (u + length G * (i - 1))"
    "get_node_for_level \<lparr>dup_orig = ivg G, dup_levels = k\<rparr> v i = Inr (v + length G * i)"
    "get_node_for_level \<lparr>dup_orig = ivg G, dup_levels = k\<rparr> v (i - 1) = Inr (v + length G * (i - 1))"
    using assms p by (auto intro!: get_node_level)
  then show ?thesis unfolding mod_edge_def Let_def p by (simp add: sized.put_at_def edge_ops_def)
qed

lemma level_edges:
  assumes "instance_ok G wps" "0 < i" "i < length wps"
  shows "foldr_res (\<lambda>u. foldr_res (mod_edge \<lparr>dup_orig = ivg G, dup_levels = k\<rparr> (wps ! i) i u)
       (g_row (ivg G) u)) [0..<g_nodes (ivg G)] s = Inr (sized.writes.put_all (level_ops G wps i) s)"
proof -
  have n: "g_nodes (ivg G) = length G" using assms(1) by (simp add: instance_ok_def ivg_def ivg_nodes_def)
  show ?thesis unfolding level_ops_def n
  proof (rule sized.writes.foldr_res_put_all)
    fix u s assume u: "u \<in> set [0..<length G]"
    then have row: "g_row (ivg G) u = G ! u" by (simp add: ivg_def ivg_row_def)
    show "foldr_res (mod_edge \<lparr>dup_orig = ivg G, dup_levels = k\<rparr> (wps ! i) i u) (g_row (ivg G) u) s =
      Inr (sized.writes.put_all (concat (map (edge_ops (length G) (wps ! i) i u) (G ! u))) s)"
      unfolding row
    proof (rule sized.writes.foldr_res_put_all)
      fix p s assume "p \<in> set (G ! u)"
      with u assms(1) have "fst p < length G" by (fastforce simp: instance_ok_def)
      with assms u show "mod_edge \<lparr>dup_orig = ivg G, dup_levels = k\<rparr> (wps ! i) i u p s =
        Inr (sized.writes.put_all (edge_ops (length G) (wps ! i) i u p) s)"
        by (intro mod_edge_ops) auto
    qed
  qed
qed

definition level_set :: "dsts list \<Rightarrow> nat list list \<Rightarrow> nat \<Rightarrow> nat list" where
  "level_set G wps i = os_of (map (\<lambda>u. u + length G * i) (wps ! i))"

definition all_ops :: "dsts list \<Rightarrow> nat list list \<Rightarrow> nat \<Rightarrow> ((nat \<times> nat) \<times> nat) list" where
  "all_ops G wps i = concat (map (\<lambda>j. if 0 < j then level_ops G wps j else []) [i..<length wps])"

lemma mod_levels_ops:
  assumes "instance_ok G wps" "i \<le> length wps"
  shows "mod_levels \<lparr>dup_orig = ivg G, dup_levels = k\<rparr> (drop i wps) i s =
     Inr (map (level_set G wps) [i..<length wps], sized.writes.put_all (all_ops G wps i) s)"
  using assms(2)
proof (induction "length wps - i" arbitrary: i s)
  case 0
  then show ?case by (simp add: all_ops_def)
next
  case (Suc m)
  then have i: "i < length wps" by simp
  let ?d = "\<lparr>dup_orig = ivg G, dup_levels = k\<rparr>"
  have "get_node_for_level ?d u i = Inr (u + length G * i)" if "u \<in> set (wps ! i)" for u
    using that assms(1) i by (intro get_node_level) (auto simp: instance_ok_def)
  then have out: "map_res (\<lambda>u. get_node_for_level ?d u i) (wps ! i) = Inr (map (\<lambda>u. u + length G * i) (wps ! i))"
    by (rule map_res_total)
  let ?ops = "if 0 < i then level_ops G wps i else []"
  have ops: "(if i > 0 then foldr_res (\<lambda>u. foldr_res (mod_edge ?d (wps ! i) i u) (g_row (dup_orig ?d) u))
      [0..<g_nodes (dup_orig ?d)] s else Inr s) = Inr (sized.writes.put_all ?ops s)"
    using level_edges[OF assms(1) _ i] by simp
  from Suc.hyps(1)[of "Suc i" "sized.writes.put_all ?ops s"] Suc.hyps(2) Suc.prems i have IH:
    "mod_levels ?d (drop (Suc i) wps) (i + 1) (sized.writes.put_all ?ops s) =
      Inr (map (level_set G wps) [Suc i..<length wps],
           sized.writes.put_all (all_ops G wps (Suc i)) (sized.writes.put_all ?ops s))" by simp
  have up: "[i..<length wps] = i # [Suc i..<length wps]" using i by (simp add: upt_conv_Cons)
  have "all_ops G wps i = ?ops @ all_ops G wps (Suc i)" unfolding all_ops_def up by simp
  then show ?case using i
    by (simp only: Cons_nth_drop_Suc[symmetric] mod_levels.simps out ops IH bindr_Inr case_prod_conv
        sized.writes.put_all_simps) (simp add: up level_set_def)
qed

definition mod_graph :: "dsts list \<Rightarrow> nat list list \<Rightarrow> scoped_graph" where
  "mod_graph G wps = sized.writes.put_all (all_ops G wps 0)
     (mk_scoped (dup \<lparr>dup_orig = ivg G, dup_levels = length wps\<rparr>))"

lemma level_ops_in:
  "p \<in> set (level_ops G wps i) \<longleftrightarrow> (\<exists>u v w. u < length G \<and> (v, w) \<in> set (G ! u) \<and> v \<in> set (wps ! i) \<and>
     (p = ((u + length G * (i - 1), v + length G * i), w) \<or>
      p = ((u + length G * (i - 1), v + length G * (i - 1)), 0)))"
  unfolding level_ops_def in_concat_map edge_ops_def
  by (simp add: Bex_def del: prod.inject)

lemma all_ops_in:
  "p \<in> set (all_ops G wps 0) \<longleftrightarrow> (\<exists>l u v w. Suc l < length wps \<and> u < length G \<and> (v, w) \<in> set (G ! u) \<and>
     v \<in> set (wps ! Suc l) \<and>
     (p = ((u + length G * l, v + length G * Suc l), w) \<or> p = ((u + length G * l, v + length G * l), 0)))"
proof -
  have "p \<in> set (all_ops G wps 0) \<longleftrightarrow> (\<exists>j < length wps. 0 < j \<and> p \<in> set (level_ops G wps j))"
    by (auto simp: all_ops_def)
  also have "\<dots> \<longleftrightarrow> (\<exists>l. Suc l < length wps \<and> p \<in> set (level_ops G wps (Suc l)))"
    by (metis Suc_pred zero_less_Suc)
  finally show ?thesis unfolding level_ops_in by (simp only: diff_Suc_1) blast
qed

lemma row_weight_ivg:
  assumes "instance_ok G wps" "u < length G" "(v, w) \<in> set (G ! u)"
  shows "v < length G" "0 < w" "w < MAX_WEIGHT" "ivg_get_weight G u v = w"
proof -
  have "G ! u \<in> set G" using assms(2) by simp
  with assms(1,3) have r: "om_ok (G ! u)" "v < length G" "0 < w" "w < MAX_WEIGHT"
    by (auto simp: instance_ok_def)
  then show "v < length G" "0 < w" "w < MAX_WEIGHT" by auto
  from r(1) assms(2,3) show "ivg_get_weight G u v = w"
    by (simp add: ivg_get_weight_def ivg_row_def om_find_in[THEN iffD2])
qed

lemma mod_base:
  assumes "instance_ok G wps"
  defines "D \<equiv> \<lparr>dup_orig = ivg G, dup_levels = length wps\<rparr>"
  shows "dup_ok D" "g_nodes (dup D) = length G * length wps" "sg_ok (mk_scoped (dup D))"
    "sg_nodes (mk_scoped (dup D)) = length G * length wps"
proof -
  have n: "g_nodes (ivg G) = length G" using assms(1) by (simp add: instance_ok_def ivg_def ivg_nodes_def)
  show ok: "dup_ok D" using assms(1) view_ok_ivg[OF instance_ivg[OF assms(1)]] n
    by (simp add: D_def dup_ok_def instance_ok_def)
  show gn: "g_nodes (dup D) = length G * length wps" using assms(1) n
    by (simp add: D_def dup_def dup_nodes_def instance_ok_def)
  show "sg_ok (mk_scoped (dup D))" by (rule sg_ok_mk[OF view_ok_dup[OF ok]])
  show "sg_nodes (mk_scoped (dup D)) = length G * length wps"
    using gn by (simp add: mk_scoped_def sg_nodes_def)
qed

lemma all_ops_valid:
  assumes "instance_ok G wps" "p \<in> set (all_ops G wps 0)"
  shows "(fst (fst p) < length G * length wps \<and> snd (fst p) < length G * length wps) \<and> snd p < 2 ^ 32"
proof -
  from assms(2) obtain l u v w where p: "Suc l < length wps" "u < length G" "(v, w) \<in> set (G ! u)"
    "p = ((u + length G * l, v + length G * Suc l), w) \<or> p = ((u + length G * l, v + length G * l), 0)"
    unfolding all_ops_in by blast
  note r = row_weight_ivg[OF assms(1) p(2,3)]
  have "w < 2 ^ 32" using r(3) by (simp add: MAX_WEIGHT_def)
  moreover have "l < length wps" using p(1) by simp
  ultimately show ?thesis
    using p(4) level_node(1)[OF assms(1) p(2)] level_node(1)[OF assms(1) r(1)] p(1)
    by (elim disjE) (auto simp del: mult_Suc_right)
qed

lemma mod_graph_weight:
  assumes "instance_ok G wps" "a < length G * length wps" "b < length G * length wps"
  shows "sg_get_weight (mod_graph G wps) a b = lift_weight G wps a b"
proof -
  let ?n = "length G" and ?D = "\<lparr>dup_orig = ivg G, dup_levels = length wps\<rparr>"
  have n: "g_nodes (ivg G) = ?n" using assms(1) by (simp add: instance_ok_def ivg_def ivg_nodes_def)
  have n0: "0 < ?n" using assms(2) by (cases "?n = 0") auto
  note base = mod_base[OF assms(1)]
  have "sized.get_at (sized.writes.put_all (all_ops G wps 0) (mk_scoped (dup ?D))) (a, b) =
      (\<lambda>e. lift_weight G wps (fst e) (snd e)) (a, b)"
  proof (rule sized.writes.get_put_all_fun[where ?N = "?n * length wps"])
    show "sg_ok (mk_scoped (dup ?D)) \<and> sg_nodes (mk_scoped (dup ?D)) = ?n * length wps" using base by simp
    show "\<forall>p \<in> set (all_ops G wps 0). (fst (fst p) < ?n * length wps \<and> snd (fst p) < ?n * length wps) \<and>
        snd p < 2 ^ 32" using all_ops_valid[OF assms(1)] by blast
    show "fst (a, b) < ?n * length wps \<and> snd (a, b) < ?n * length wps" using assms by simp
  next
    fix x assume "((a, b), x) \<in> set (all_ops G wps 0)"
    then obtain l u v w where p: "Suc l < length wps" "u < ?n" "(v, w) \<in> set (G ! u)" "v \<in> set (wps ! Suc l)"
      "((a, b), x) = ((u + ?n * l, v + ?n * Suc l), w) \<or> ((a, b), x) = ((u + ?n * l, v + ?n * l), 0)"
      unfolding all_ops_in by blast
    note r = row_weight_ivg[OF assms(1) p(2,3)]
    have "l < length wps" using p(1) by simp
    with p r level_node(3,4)[OF assms(1) p(2)] level_node(3,4)[OF assms(1) r(1)]
    show "x = lift_weight G wps (fst (a, b)) (snd (a, b))"
      by (elim disjE) (auto simp: lift_weight_def Let_def simp del: mult_Suc_right)
  next
    assume no: "(a, b) \<notin> fst ` set (all_ops G wps 0)"
    have ab: "a = a mod ?n + ?n * (a div ?n)" "b = b mod ?n + ?n * (b div ?n)" by simp_all
    have lt: "a mod ?n < ?n" "b mod ?n < ?n" using n0 by auto
    have zero: "ivg_get_weight G (a mod ?n) (b mod ?n) = 0"
      if up: "Suc (a div ?n) < length wps" "b mod ?n \<in> set (wps ! Suc (a div ?n))"
        "b div ?n = a div ?n \<or> b div ?n = Suc (a div ?n)"
    proof (rule ccontr)
      assume "ivg_get_weight G (a mod ?n) (b mod ?n) \<noteq> 0"
      then obtain w where "om_find (G ! (a mod ?n)) (b mod ?n) = Some w"
        using lt by (auto simp: ivg_get_weight_def ivg_row_def split: option.splits)
      then have "(b mod ?n, w) \<in> set (G ! (a mod ?n))" by (auto simp: om_find_def dest: map_of_SomeD)
      with up lt ab have "\<exists>x. ((a, b), x) \<in> set (all_ops G wps 0)" unfolding all_ops_in by metis
      with no show False by force
    qed
    have "sg_get_weight (mk_scoped (dup ?D)) a b =
        (if a div ?n = b div ?n then ivg_get_weight G (a mod ?n) (b mod ?n) else 0)"
      by (simp add: mk_scoped_def sg_get_weight_def dup_def dup_get_weight_def get_level_def get_base_def n)
        (simp add: ivg_def)
    with zero show "sized.get_at (mk_scoped (dup ?D)) (a, b) = lift_weight G wps (fst (a, b)) (snd (a, b))"
      by (auto simp: sized.get_at_def lift_weight_def Let_def)
  qed
  then show ?thesis by (simp add: mod_graph_def sized.get_at_def)
qed

definition level_layer :: "dsts list \<Rightarrow> nat list list \<Rightarrow> nat \<Rightarrow> nat set" where
  "level_layer G wps i = (if i < length wps then (\<lambda>u. u + length G * i) ` set (wps ! i) else {})"

lemma mod_graph_ok:
  assumes "instance_ok G wps"
  shows "view_ok (sg (mod_graph G wps))" "g_nodes (sg (mod_graph G wps)) = length G * length wps"
proof -
  have "\<forall>p \<in> set (all_ops G wps 0). (fst (fst p) < length G * length wps \<and> snd (fst p) < length G * length wps) \<and>
        snd p < 2 ^ 32" using all_ops_valid[OF assms] by blast
  from sized.writes.valid_put_all[OF _ this] mod_base(3,4)[OF assms]
  have "sg_ok (mod_graph G wps)" "sg_nodes (mod_graph G wps) = length G * length wps"
    unfolding mod_graph_def by blast+
  then show "view_ok (sg (mod_graph G wps))" "g_nodes (sg (mod_graph G wps)) = length G * length wps"
    by (auto simp: view_ok_sg) (simp add: sg_def)
qed

lemma mod_edge_iff:
  assumes "instance_ok G wps"
  shows "(a, b) \<in> g_edges (sg (mod_graph G wps)) \<longleftrightarrow>
     a < length G * length wps \<and> b < length G * length wps \<and> 0 < lift_weight G wps a b"
  using mod_graph_ok[OF assms] mod_graph_weight[OF assms]
  by (auto simp: g_edges_weight) (simp_all add: sg_def)

lemma base_edge_iff:
  assumes "instance_ok G wps"
  shows "(u, v) \<in> g_edges (ivg G) \<longleftrightarrow> u < length G \<and> v < length G \<and> 0 < ivg_get_weight G u v"
proof -
  have "g_nodes (ivg G) = length G" using assms by (simp add: instance_ok_def ivg_def ivg_nodes_def)
  with g_edges_weight[OF view_ok_ivg[OF instance_ivg[OF assms]]] show ?thesis by (simp add: ivg_def)
qed

lemma mod_edge_base:
  assumes "instance_ok G wps" "(a, b) \<in> g_edges (sg (mod_graph G wps))"
  shows "(a mod length G, b mod length G) \<in> g_edges (ivg G)"
proof -
  have "length G \<noteq> 0" using assms by (auto simp: mod_edge_iff)
  with assms show ?thesis
    by (auto simp: mod_edge_iff base_edge_iff lift_weight_def Let_def split: if_splits)
qed

lemma lift_weight_pos:
  assumes "0 < lift_weight G wps a b"
  shows "b div length G = a div length G \<or> (b div length G = Suc (a div length G) \<and>
     b div length G < length wps \<and> b mod length G \<in> set (wps ! (b div length G)))"
  using assms unfolding lift_weight_def Let_def by (simp split: if_split_asm)

lemma level_layer_in:
  assumes "b div length G < length wps" "b mod length G \<in> set (wps ! (b div length G))"
  shows "b \<in> level_layer G wps (b div length G)"
proof -
  have "b = b mod length G + length G * (b div length G)" by simp
  with assms show ?thesis unfolding level_layer_def by (metis image_eqI)
qed

lemma mod_graph_layered:
  assumes "instance_ok G wps"
  shows "layered (g_edges (sg (mod_graph G wps))) (\<lambda>x. x div length G) (level_layer G wps)"
    "\<forall>(a, b) \<in> g_edges (sg (mod_graph G wps)). a div length G \<le> b div length G"
proof -
  have lev: "x div length G = i" if "x \<in> level_layer G wps i" for x i
  proof -
    from that obtain u where u: "i < length wps" "u \<in> set (wps ! i)" "x = u + length G * i"
      by (auto simp: level_layer_def split: if_splits)
    with level_node(3)[OF assms wps_bound[OF assms u(1,2)] u(1)] show ?thesis by simp
  qed
  have edge: "b div length G = a div length G \<or>
      (b div length G = Suc (a div length G) \<and> b \<in> level_layer G wps (b div length G))"
    if "(a, b) \<in> g_edges (sg (mod_graph G wps))" for a b
  proof -
    from that have "0 < lift_weight G wps a b" by (simp add: mod_edge_iff[OF assms])
    from lift_weight_pos[OF this] show ?thesis using level_layer_in by blast
  qed
  have "b div length G \<le> Suc (a div length G) \<and>
      (b div length G = Suc (a div length G) \<longrightarrow> b \<in> level_layer G wps (b div length G))"
    if "(a, b) \<in> g_edges (sg (mod_graph G wps))" for a b
    using edge[OF that] by (elim disjE conjE) (simp_all only: order_refl le_SucI simp_thms n_not_Suc_n)
  with lev show "layered (g_edges (sg (mod_graph G wps))) (\<lambda>x. x div length G) (level_layer G wps)"
    unfolding layered_def by blast
  show "\<forall>(a, b) \<in> g_edges (sg (mod_graph G wps)). a div length G \<le> b div length G"
    using edge by fastforce
qed

text \<open>Every edge of the graph can be taken from every level but the last.\<close>

lemma mod_edge_lift:
  assumes "instance_ok G wps" "(u, v) \<in> g_edges (ivg G)" "Suc l < length wps"
  shows "(u + length G * l, v + length G * (if v \<in> set (wps ! Suc l) then Suc l else l))
     \<in> g_edges (sg (mod_graph G wps))"
proof -
  from assms(1,2) have uv: "u < length G" "v < length G" "0 < ivg_get_weight G u v"
    by (auto simp: base_edge_iff)
  have l: "l < length wps" using assms(3) by simp
  note a = level_node[OF assms(1) uv(1) l]
  and b = level_node[OF assms(1) uv(2) l]
  and c = level_node[OF assms(1) uv(2) assms(3)]
  show ?thesis
    using a(1) b(1) c(1) uv assms(3)
    by (auto simp: mod_edge_iff[OF assms(1)] lift_weight_def Let_def a(3,4) b(3,4) c(3,4)
        simp del: mult_Suc_right)
qed

subsection \<open>Nothing to cut\<close>

lemma reach_through_walk: "reach_through E S Ts \<noteq> {} \<longleftrightarrow> (\<exists>x \<in> S. st_walk E Ts x)"
  by (induction Ts arbitrary: S) auto

lemma st_walk_map:
  assumes "\<And>a b. (a, b) \<in> R \<Longrightarrow> (f a, f b) \<in> Q"
  shows "st_walk R Ws x \<Longrightarrow> st_walk Q (map ((`) f) Ws) (f x)"
proof (induction Ws arbitrary: x)
  case (Cons W Ws)
  then obtain y where y: "y \<in> W" "(x, y) \<in> R\<^sup>+" "st_walk R Ws y" by auto
  from y(2) have "(f x, f y) \<in> Q\<^sup>+"
    by (induction rule: trancl_induct) (auto intro: assms trancl_into_trancl)
  with Cons.IH[OF y(3)] y(1) show ?case by auto
qed simp

text \<open>When no walk exists to begin with, the first search fails and the cut is empty.\<close>

lemma ford_fulkerson_multi_impl_none:
  assumes lay: "layered (g_edges G) lev W" and G: "view_ok G"
    and wps: "2 \<le> length wps" "\<forall>i < length wps. set (wps ! i) = W i"
    "\<forall>T \<in> set wps. set T \<subseteq> {..<g_nodes G}"
    and none: "\<forall>x \<in> set (hd wps). \<not> st_walk (g_edges G) (map set (tl wps)) x"
  shows "ford_fulkerson_multi_impl G wps = Some (Inr [])"
proof (cases "g_nodes G = 0")
  case True
  with wps(1) show ?thesis by (simp add: ford_fulkerson_multi_impl_def)
next
  case False
  let ?R = "mk_scoped G"
  have ok: "sg_ok ?R" "sg_nodes ?R = g_nodes G" using sg_ok_mk[OF G] by (simp_all add: mk_scoped_def sg_nodes_def)
  have same: "g_edges (sg ?R) = g_edges G"
    unfolding set_eq_iff split_paired_All g_edges_weight[OF G] g_edges_weight[OF view_ok_sg[OF ok(1)]]
    by (simp add: sg_def mk_scoped_def sg_nodes_def sg_get_weight_def)
  have "\<forall>T \<in> set wps. set T \<subseteq> {..<g_nodes (sg ?R)}" using wps(3) ok by (simp add: sg_def)
  moreover have "reach_through (g_edges G) (set (hd wps)) (map set (tl wps)) = {}"
    using none reach_through_walk[of "g_edges G" "set (hd wps)" "map set (tl wps)"] by blast
  ultimately have "find_st_path_multi (sg ?R) wps [] = Some (Inr None)"
    using find_st_path_multi_cases[OF _ view_ok_sg[OF ok(1)] wps(1,2), of lev] lay
    unfolding srel_row_nodes same by blast
  then have loop: "residual_loop ?R wps = Some (Inr ?R)" by (simp add: residual_loop.simps)
  obtain S Ts where w: "wps = S # Ts" using wps(1) by (cases wps) auto
  let ?reach = "(g_edges G)\<^sup>* `` set S"
  have "set S \<subseteq> {..<g_nodes (sg ?R)}" using wps(3) w ok by (simp add: sg_def)
  from find_reachable_multi_reach[OF view_ok_sg[OF ok(1)] this] have
    "find_reachable_multi (sg ?R) S = Inr ?reach" unfolding same .
  moreover have "cut_of_reach G ?reach = []"
  proof -
    have "set (cut_of_reach G ?reach) = {}"
      unfolding set_cut_of_reach by (auto intro: rtrancl_into_rtrancl)
    then show ?thesis by simp
  qed
  ultimately show ?thesis using False wps(1) loop w by (auto simp: ford_fulkerson_multi_impl_def)
qed

subsection \<open>The result\<close>

lemma mod_graph_small:
  assumes "instance_ok G wps" "a < length G * length wps" "b < length G * length wps"
  shows "g_weight (sg (mod_graph G wps)) a b < MAX_WEIGHT"
proof -
  have w: "ivg_get_weight G u v < MAX_WEIGHT" if "u < length G" for u v
  proof (cases "om_find (G ! u) v")
    case None
    then show ?thesis using that by (simp add: ivg_get_weight_def ivg_row_def MAX_WEIGHT_def)
  next
    case (Some w)
    then have "(v, w) \<in> set (G ! u)" by (auto simp: om_find_def dest: map_of_SomeD)
    from row_weight_ivg(3,4)[OF assms(1) that this] show ?thesis by simp
  qed
  have "0 < length G" using assms(2) by (cases "length G = 0") auto
  then have "lift_weight G wps a b < MAX_WEIGHT"
    using w by (simp add: lift_weight_def Let_def MAX_WEIGHT_def)
  with mod_graph_weight[OF assms] show ?thesis by (simp add: sg_def)
qed

text \<open>
  A walk that avoids the cut stays in the part of the layered graph the sources reach, and
  climbs one level at every waypoint set: it can never enter the last one.
\<close>

lemma st_walk_blocked:
  assumes step: "\<And>i u v. P i u \<Longrightarrow> (u, v) \<in> E \<Longrightarrow> P i v \<and> (v \<in> hd (drop (Suc i) Ws) \<longrightarrow> P (Suc i) v)"
    and stop: "\<And>x i. length Ws \<le> Suc i \<Longrightarrow> \<not> P i x"
    and start: "P i x"
  shows "\<not> st_walk E (drop (Suc i) Ws) x"
  using start
proof (induction "length Ws - i" arbitrary: i x rule: less_induct)
  case less
  show ?case
  proof (cases "drop (Suc i) Ws")
    case Nil
    with stop less.prems show ?thesis by simp
  next
    case (Cons T Ts)
    then have Ts: "Ts = drop (Suc (Suc i)) Ws" "i < length Ws"
      by (metis drop_Suc list.sel(3) tl_drop, metis Suc_lessD drop_eq_Nil linorder_not_less list.distinct(1))
    have "P i y \<and> (y \<in> T \<longrightarrow> P (Suc i) y)" if "(x, y) \<in> E\<^sup>+" for y
      using that
    proof (induction rule: trancl_induct)
      case (base y)
      with step[OF less.prems] Cons show ?case by simp
    next
      case (step y z)
      with assms(1)[of i y z] Cons show ?case by simp
    qed
    with less.hyps[of "Suc i"] Ts have "\<not> (\<exists>y \<in> T. (x, y) \<in> E\<^sup>+ \<and> st_walk E Ts y)" by auto
    with Cons show ?thesis by simp
  qed
qed

definition layer_sets :: "dsts list \<Rightarrow> nat list list \<Rightarrow> nat list list" where
  "layer_sets G wps = map (level_set G wps) [0..<length wps]"

lemma ford_fulkerson_multi_eq:
  assumes ok: "instance_ok G wps"
  shows "ford_fulkerson_multi G wps =
     bindo (ford_fulkerson_multi_impl (sg (mod_graph G wps)) (layer_sets G wps)) (\<lambda>C.
       Some (Inr (os_of (map (\<lambda>(u, v). (u mod length G, v mod length G)) C))))"
proof -
  let ?d = "\<lparr>dup_orig = ivg G, dup_levels = length wps\<rparr>"
  have k: "2 \<le> length wps" using ok by (simp add: instance_ok_def)
  have n: "g_nodes (ivg G) = length G" using ok by (simp add: instance_ok_def ivg_def ivg_nodes_def)
  have mk: "mk_dup (ivg G) (length wps) = Inr ?d" using k by (simp add: mk_dup_def)
  have ml: "mod_levels ?d wps 0 (mk_scoped (dup ?d)) = Inr (layer_sets G wps, mod_graph G wps)"
    using mod_levels_ops[OF ok, of 0 "length wps" "mk_scoped (dup ?d)"] by (simp add: mod_graph_def layer_sets_def)
  show ?thesis using mk ml n by (simp add: ford_fulkerson_multi_def get_first_level_node_def)
qed

lemma layer_sets_ok:
  assumes ok: "instance_ok G wps"
  shows "2 \<le> length (layer_sets G wps)" "length (layer_sets G wps) = length wps"
    "\<forall>i < length (layer_sets G wps). set (layer_sets G wps ! i) = level_layer G wps i"
    "\<forall>T \<in> set (layer_sets G wps). set T \<subseteq> {..<g_nodes (sg (mod_graph G wps))}"
    "set (hd (layer_sets G wps)) = level_layer G wps 0"
    "set (last (layer_sets G wps)) = level_layer G wps (length wps - 1)"
proof -
  let ?wm = "layer_sets G wps"
  have k: "2 \<le> length wps" using ok by (simp add: instance_ok_def)
  have layer: "set (level_set G wps i) = level_layer G wps i" if "i < length wps" for i
    using that by (simp add: level_set_def level_layer_def)
  have below: "level_layer G wps i \<subseteq> {..<length G * length wps}" for i
    using level_node(1)[OF ok wps_bound[OF ok]] by (auto simp: level_layer_def)
  show len: "length ?wm = length wps" by (simp add: layer_sets_def)
  with k show "2 \<le> length ?wm" by simp
  show "\<forall>i < length ?wm. set (?wm ! i) = level_layer G wps i" using layer by (simp add: layer_sets_def)
  show "\<forall>T \<in> set ?wm. set T \<subseteq> {..<g_nodes (sg (mod_graph G wps))}"
    using layer below mod_graph_ok(2)[OF ok] by (auto simp: layer_sets_def)
  have ne: "?wm \<noteq> []" by (rule notI) (use k len in simp)
  have lt: "0 < length wps" "length wps - 1 < length wps" using k by linarith+
  then have "hd ?wm = level_set G wps 0" "last ?wm = level_set G wps (length wps - 1)"
    using hd_conv_nth[OF ne] last_conv_nth[OF ne] by (simp_all add: layer_sets_def del: One_nat_def)
  with layer[OF lt(1)] layer[OF lt(2)] show "set (hd ?wm) = level_layer G wps 0"
    "set (last ?wm) = level_layer G wps (length wps - 1)" by simp_all
qed

lemma ford_fulkerson_multi_run:
  assumes ok: "instance_ok G wps"
  obtains reach C where "ford_fulkerson_multi G wps =
      Some (Inr (os_of (map (\<lambda>(u, v). (u mod length G, v mod length G)) C)))"
    "set C = {(a, b) \<in> g_edges (sg (mod_graph G wps)). a \<in> reach \<and> b \<notin> reach}"
    "level_layer G wps 0 \<subseteq> reach" "level_layer G wps (length wps - 1) \<inter> reach = {}"
proof -
  let ?M = "sg (mod_graph G wps)"
  note L = layer_sets_ok[OF ok]
  have "\<forall>s \<in> set (hd (layer_sets G wps)). \<forall>b < g_nodes ?M. g_weight ?M s b < MAX_WEIGHT"
  proof -
    have "hd (layer_sets G wps) \<in> set (layer_sets G wps)" using L(1) by (intro hd_in_set) auto
    with L(4) have "set (hd (layer_sets G wps)) \<subseteq> {..<g_nodes ?M}" by blast
    with mod_graph_small[OF ok] show ?thesis unfolding mod_graph_ok(2)[OF ok] by blast
  qed
  from ford_fulkerson_multi_impl_cut[OF mod_graph_layered[OF ok] mod_graph_ok(1)[OF ok] L(1,3,4) this]
  obtain reach C where C: "ford_fulkerson_multi_impl ?M (layer_sets G wps) = Some (Inr C)"
    "set C = {(u, v) \<in> g_edges ?M. u \<in> reach \<and> v \<notin> reach}"
    "level_layer G wps 0 \<subseteq> reach" "level_layer G wps (length wps - 1) \<inter> reach = {}"
    unfolding L(5,6) by blast
  from C(1) ford_fulkerson_multi_eq[OF ok] that C(2-4) show ?thesis by simp
qed

lemma ford_fulkerson_multi_nothing:
  assumes ok: "instance_ok G wps" and none: "\<forall>x \<in> set (hd wps). \<not> st_walk (g_edges (ivg G)) (map set (tl wps)) x"
  shows "ford_fulkerson_multi G wps = Some (Inr [])"
proof -
  let ?M = "sg (mod_graph G wps)" and ?wm = "layer_sets G wps"
  note L = layer_sets_ok[OF ok]
  have base: "(\<lambda>u. u mod length G) ` level_layer G wps i = set (wps ! i)" if "i < length wps" for i
  proof -
    have "(u + length G * i) mod length G = u" if "u \<in> set (wps ! i)" for u
      using level_node(4)[OF ok wps_bound[OF ok \<open>i < length wps\<close> that] \<open>i < length wps\<close>] .
    then have "(\<lambda>u. (u + length G * i) mod length G) ` set (wps ! i) = set (wps ! i)" by simp
    with \<open>i < length wps\<close> show ?thesis unfolding level_layer_def by (simp add: image_image)
  qed
  have maps: "map ((`) (\<lambda>u. u mod length G)) (map set ?wm) = map set wps"
    using L(2,3) base by (intro nth_equalityI) simp_all
  have "\<not> st_walk (g_edges ?M) (map set (tl ?wm)) x" if x: "x \<in> set (hd ?wm)" for x
  proof
    assume w: "st_walk (g_edges ?M) (map set (tl ?wm)) x"
    obtain S Ts where s: "?wm = S # Ts" using L(1) by (cases ?wm) auto
    obtain S' Ts' where s': "wps = S' # Ts'" using ok by (cases wps) (auto simp: instance_ok_def)
    from maps s s' have "(\<lambda>u. u mod length G) ` set S = set S'"
      "map ((`) (\<lambda>u. u mod length G)) (map set Ts) = map set Ts'" by simp_all
    with st_walk_map[of "g_edges ?M" "\<lambda>u. u mod length G" "g_edges (ivg G)", OF mod_edge_base[OF ok] w]
      none x s s' show False by auto
  qed
  then have "ford_fulkerson_multi_impl ?M ?wm = Some (Inr [])"
    by (intro ford_fulkerson_multi_impl_none[OF mod_graph_layered(1)[OF ok] mod_graph_ok(1)[OF ok] L(1,3,4)]) blast
  then show ?thesis by (simp add: ford_fulkerson_multi_eq[OF ok] os_of_def)
qed

theorem ford_fulkerson_multi_separates:
  assumes "instance_ok G wps"
  shows "\<exists>C. ford_fulkerson_multi G wps = Some (Inr C) \<and> os_ok C \<and> set C \<subseteq> g_edges (ivg G) \<and>
     separates (g_edges (ivg G)) (set C) (map set wps)"
proof -
  let ?E = "g_edges (ivg G)" and ?M = "sg (mod_graph G wps)" and ?n = "length G"
  from assms obtain reach C where
    C: "ford_fulkerson_multi G wps = Some (Inr (os_of (map (\<lambda>(u, v). (u mod ?n, v mod ?n)) C)))"
    "set C = {(a, b) \<in> g_edges ?M. a \<in> reach \<and> b \<notin> reach}"
    "level_layer G wps 0 \<subseteq> reach" "level_layer G wps (length wps - 1) \<inter> reach = {}" by (rule ford_fulkerson_multi_run)
  let ?C = "os_of (map (\<lambda>(u, v). (u mod ?n, v mod ?n)) C)"
  have k: "2 \<le> length wps" using assms by (simp add: instance_ok_def)
  have "set ?C \<subseteq> ?E"
  proof
    fix e assume "e \<in> set ?C"
    then obtain a b where "(a, b) \<in> set C" "e = (a mod ?n, b mod ?n)" by auto
    with C(2) mod_edge_base[OF assms] show "e \<in> ?E" by blast
  qed
  moreover have "separates ?E (set ?C) (map set wps)"
  proof -
    define P where "P i x = (\<exists>l. i \<le> l \<and> Suc l < length wps \<and> x + ?n * l \<in> reach)" for i x
    have step: "P i v \<and> (v \<in> hd (drop (Suc i) (map set wps)) \<longrightarrow> P (Suc i) v)"
      if p: "P i u" and e: "(u, v) \<in> ?E - set ?C" for i u v
    proof -
      from p obtain l where l: "i \<le> l" "Suc l < length wps" "u + ?n * l \<in> reach" by (auto simp: P_def)
      let ?up = "v \<in> set (wps ! Suc l)" and ?m = "if v \<in> set (wps ! Suc l) then Suc l else l"
      have uv: "u < ?n" "v < ?n" using e base_edge_iff[OF assms] by auto
      have m: "(u + ?n * l, v + ?n * ?m) \<in> g_edges ?M" using e mod_edge_lift[OF assms _ l(2)] by blast
      have "(u + ?n * l, v + ?n * ?m) \<notin> set C"
      proof
        assume "(u + ?n * l, v + ?n * ?m) \<in> set C"
        then have "((u + ?n * l) mod ?n, (v + ?n * ?m) mod ?n) \<in> set ?C" by force
        with e uv show False by simp
      qed
      with m l(3) C(2) have r: "v + ?n * ?m \<in> reach" by blast
      have top: "Suc ?m < length wps"
      proof (rule ccontr)
        assume "\<not> Suc ?m < length wps"
        with l(2) have "?up" "?m = length wps - 1" by (auto split: if_splits)
        then have "v + ?n * ?m \<in> level_layer G wps (length wps - 1)"
          using k by (auto simp: level_layer_def)
        with r C(4) show False by blast
      qed
      have "Suc i \<le> ?m" if "v \<in> hd (drop (Suc i) (map set wps))"
        using that l(1,2) by (cases "i = l") (auto simp: hd_drop_conv_nth)
      moreover have "i \<le> ?m" using l(1) by simp
      ultimately show ?thesis using r top unfolding P_def by blast
    qed
    have "\<not> st_walk (?E - set ?C) (drop (Suc 0) (map set wps)) x" if "x \<in> hd (map set wps)" for x
    proof (rule st_walk_blocked[where P = P, OF step])
      show "\<not> P i x" if "length (map set wps) \<le> Suc i" for x i using that by (auto simp: P_def)
      have "wps \<noteq> []" by (rule notI) (use k in simp)
      then have "hd wps = wps ! 0" "wps \<noteq> []" by (simp_all add: hd_conv_nth)
      with that have "x \<in> level_layer G wps 0" using k by (auto simp: level_layer_def hd_map)
      with C(3) k show "P 0 x" unfolding P_def by (intro exI[of _ 0]) auto
    qed
    then show ?thesis by (simp add: separates_def drop_Suc)
  qed
  ultimately show ?thesis using C(1) os_ok_os_of by blast
qed

end
