(* ===== verification/STOpt.thy ===== *)
theory STOpt
  imports WaypointCut
begin

text \<open>
  The simplifications of waypoint lists in \<open>src/include/clou/MinCutGreedy.h\<close>
  (the functions \<open>optimize_sts_...\<close> and the loop \<open>optimize_sts\<close>). A waypoint list (\<open>IdxST\<close>) is a list of
  \<open>std::set\<close>s of node indices, in order. Each function returns whether it changed something and
  the new value. \<open>optimization\<close> is the contract they share: on a well-formed graph they
  succeed, keep well-formedness, lose no walk (in the graph or any part of it, so that cutting
  the result cuts the original), and get strictly smaller whenever they report a change. The
  loop terminates because of the last clause.
\<close>

type_synonym idx_st = "nat list list"

subsection \<open>Operations on one waypoint list\<close>

definition idx_succs :: "dsts list \<Rightarrow> nat \<Rightarrow> nat list" where
  "idx_succs G u = (if u < length G then map fst (G ! u) else [])"

definition optimize_st_nop :: "idx_st \<Rightarrow> dsts list \<Rightarrow> (bool \<times> idx_st) res" where
  "optimize_st_nop st G = Inr (False, st)"

fun cull_unreachables_from :: "dsts list \<Rightarrow> nat list \<Rightarrow> idx_st \<Rightarrow> (nat \<times> idx_st) res" where
  "cull_unreachables_from G S [] = Inr (0, [S])"
| "cull_unreachables_from G S (T # Ts) =
     bindr (dfs_push Bad_index [0..<length G] (idx_succs G) (rev S) {} Map.empty) (\<lambda>(reach, _).
     bindr (copy_reached (length G) T reach) (\<lambda>T'.
     bindr (cull_unreachables_from G T' Ts) (\<lambda>(removed, st).
     Inr (removed + (length T - length T'), S # st))))"

definition optimize_sts_cull_unreachables :: "idx_st \<Rightarrow> dsts list \<Rightarrow> (bool \<times> idx_st) res" where
  "optimize_sts_cull_unreachables st G =
     (case st of
        [] \<Rightarrow> Inl Bad_index
      | S # Ts \<Rightarrow> bindr (cull_unreachables_from G S Ts) (\<lambda>(removed, st'). Inr (removed > 0, st')))"

text \<open>The search of \<open>cull_sources\<close>: leave at the first sink, do not enter other sources.
  \<open>None\<close> is the jump to \<open>done\<close>.\<close>

fun scan_succs :: "nat \<Rightarrow> nat list \<Rightarrow> nat list \<Rightarrow> nat list \<Rightarrow> nat list \<Rightarrow> nat set \<Rightarrow>
    (nat list \<times> nat set) option res" where
  "scan_succs n S T [] todo reach = Inr (Some (todo, reach))"
| "scan_succs n S T (v # vs) todo reach =
     (if v \<in> set T then Inr None
      else if v \<in> set S then scan_succs n S T vs todo reach
      else if \<not> v < n then Inl Bad_index
      else if v \<in> reach then scan_succs n S T vs todo reach
      else scan_succs n S T vs (v # todo) (insert v reach))"

lemma scan_succs_measure:
  "scan_succs n S T vs todo reach = Inr (Some (todo', reach')) \<Longrightarrow>
     2 * card ({..<n} - reach') + length todo' \<le> 2 * card ({..<n} - reach) + length todo"
proof (induction vs arbitrary: todo reach)
  case (Cons v vs)
  show ?case
  proof (cases "v \<in> set T \<or> v \<in> set S \<or> \<not> v < n \<or> v \<in> reach")
    case True
    with Cons show ?thesis by (auto split: if_splits)
  next
    case False
    then have "card ({..<n} - insert v reach) = card ({..<n} - reach) - 1"
      and "card ({..<n} - reach) > 0"
      by (auto simp: card_Diff_insert card_gt_0_iff)
    with Cons.IH[of "v # todo" "insert v reach"] Cons.prems False show ?thesis by simp
  qed
qed auto

function (sequential) source_reaches :: "dsts list \<Rightarrow> nat list \<Rightarrow> nat list \<Rightarrow> nat list \<Rightarrow> nat set \<Rightarrow> bool res" where
  "source_reaches G S T [] reach = Inr False"
| "source_reaches G S T (u # todo) reach =
     (if \<not> u < length G then Inl Bad_index
      else case scan_succs (length G) S T (idx_succs G u) todo reach of
        Inl e \<Rightarrow> Inl e
      | Inr None \<Rightarrow> Inr True
      | Inr (Some (todo', reach')) \<Rightarrow> source_reaches G S T todo' reach')"
  by pat_completeness auto
termination
  by (relation "measure (\<lambda>(G, S, T, todo, reach). 2 * card ({..<length G} - reach) + length todo)")
    (auto dest!: scan_succs_measure)

fun cull_set :: "dsts list \<Rightarrow> nat list \<Rightarrow> nat list \<Rightarrow> nat list \<Rightarrow> (bool \<times> nat list) res" where
  "cull_set G T kept [] = Inr (False, kept)"
| "cull_set G T kept (s # S) =
     bindr (source_reaches G (kept @ s # S) T [s] {}) (\<lambda>reached_t.
       if reached_t then cull_set G T (kept @ [s]) S
       else bindr (cull_set G T kept S) (\<lambda>(_, S'). Inr (True, S')))"

fun optimize_sts_cull_sources :: "idx_st \<Rightarrow> dsts list \<Rightarrow> (bool \<times> idx_st) res" where
  "optimize_sts_cull_sources [] G = Inl Bad_index"
| "optimize_sts_cull_sources [S] G = Inr (False, [S])"
| "optimize_sts_cull_sources (S # T # st) G =
     bindr (cull_set G T [] S) (\<lambda>(changed, S').
     bindr (optimize_sts_cull_sources (T # st) G) (\<lambda>(changed', st').
     Inr (changed \<or> changed', S' # st')))"

fun none_reached :: "nat \<Rightarrow> nat set \<Rightarrow> nat list \<Rightarrow> bool res" where
  "none_reached n reach [] = Inr True"
| "none_reached n reach (v # vs) =
     (if \<not> v < n then Inl Bad_index else if v \<in> reach then Inr False else none_reached n reach vs)"

fun optimize_sts_remove_redundant_internal_st :: "idx_st \<Rightarrow> dsts list \<Rightarrow> (bool \<times> idx_st) res" where
  "optimize_sts_remove_redundant_internal_st [] G = Inl Bad_index"
| "optimize_sts_remove_redundant_internal_st (A # B # C # st) G =
     bindr (dfs_push Bad_index [0..<length G] (\<lambda>u. filter (\<lambda>v. v \<notin> set B) (idx_succs G u)) (rev A) {} Map.empty)
       (\<lambda>(reach, _).
     bindr (none_reached (length G) reach C) (\<lambda>no_AC_path.
       if no_AC_path
       then bindr (optimize_sts_remove_redundant_internal_st (A # C # st) G) (\<lambda>(_, st'). Inr (True, st'))
       else bindr (optimize_sts_remove_redundant_internal_st (B # C # st) G) (\<lambda>(c, st'). Inr (c, A # st'))))"
| "optimize_sts_remove_redundant_internal_st st G = Inr (False, st)"

subsection \<open>Operations on the list of waypoint lists\<close>

definition optimize_sts_nop :: "idx_st list \<Rightarrow> dsts list \<Rightarrow> (bool \<times> idx_st list) res" where
  "optimize_sts_nop sts G = Inr (False, sts)"

text \<open>\<open>*it = *end\<close>: the last element takes the place of the one that is dropped.\<close>

function remove_emptyset :: "idx_st list \<Rightarrow> idx_st list \<Rightarrow> idx_st list" where
  "remove_emptyset kept [] = kept"
| "remove_emptyset kept (st # sts) =
     (if \<exists>S \<in> set st. S = []
      then (if sts = [] then kept else remove_emptyset kept (last sts # butlast sts))
      else remove_emptyset (kept @ [st]) sts)"
  by pat_completeness auto
termination by (relation "measure (\<lambda>(kept, sts). length sts)") auto

definition optimize_sts_remove_emptyset :: "idx_st list \<Rightarrow> dsts list \<Rightarrow> (bool \<times> idx_st list) res" where
  "optimize_sts_remove_emptyset sts G =
     (let out = remove_emptyset [] sts in Inr (length out \<noteq> length sts, out))"

definition optimize_sts_remove_duplicates :: "idx_st list \<Rightarrow> dsts list \<Rightarrow> (bool \<times> idx_st list) res" where
  "optimize_sts_remove_duplicates sts G =
     (let out = remdups_adj (sort sts) in Inr (length sts \<noteq> length out, out))"

definition pools_of :: "idx_st list \<Rightarrow> (nat \<times> idx_st list) list" where
  "pools_of sts = fold (\<lambda>st pools.
     om_put pools (length st) ((case om_find pools (length st) of None \<Rightarrow> [] | Some p \<Rightarrow> p) @ [st])) sts []"

definition join_sets :: "nat \<Rightarrow> idx_st list \<Rightarrow> (idx_st \<times> nat list) list" where
  "join_sets i pool = fold (\<lambda>st sets.
     let key = take i st @ drop (Suc i) st
     in om_put sets key (os_of ((case om_find sets key of None \<Rightarrow> [] | Some S \<Rightarrow> S) @ st ! i))) pool []"

definition join_pool :: "nat \<Rightarrow> idx_st list \<Rightarrow> idx_st list" where
  "join_pool i pool = map (\<lambda>(key, S). take i key @ S # drop i key) (join_sets i pool)"

definition optimize_sts_join :: "idx_st list \<Rightarrow> dsts list \<Rightarrow> (bool \<times> idx_st list) res" where
  "optimize_sts_join sts G =
     (let out = concat (map (\<lambda>(n, pool). fold join_pool [0..<n] pool) (pools_of sts))
      in Inr (length sts \<noteq> length out, out))"

subsection \<open>The loop\<close>

definition then_opt :: "('a \<Rightarrow> dsts list \<Rightarrow> (bool \<times> 'a) res) \<Rightarrow> ('a \<Rightarrow> dsts list \<Rightarrow> (bool \<times> 'a) res) \<Rightarrow>
    'a \<Rightarrow> dsts list \<Rightarrow> (bool \<times> 'a) res" where
  "then_opt f g x G = bindr (f x G) (\<lambda>(c, y). bindr (g y G) (\<lambda>(c', z). Inr (c \<or> c', z)))"

fun each_opt :: "(idx_st \<Rightarrow> dsts list \<Rightarrow> (bool \<times> idx_st) res) \<Rightarrow> idx_st list \<Rightarrow> dsts list \<Rightarrow>
    (bool \<times> idx_st list) res" where
  "each_opt f [] G = Inr (False, [])"
| "each_opt f (st # sts) G =
     bindr (f st G) (\<lambda>(c, st'). bindr (each_opt f sts G) (\<lambda>(c', sts'). Inr (c \<or> c', st' # sts')))"

definition local_opts :: "idx_st \<Rightarrow> dsts list \<Rightarrow> (bool \<times> idx_st) res" where
  "local_opts = then_opt (then_opt (then_opt optimize_st_nop optimize_sts_cull_unreachables)
     optimize_sts_cull_sources) optimize_sts_remove_redundant_internal_st"

definition global_opts :: "idx_st list \<Rightarrow> dsts list \<Rightarrow> (bool \<times> idx_st list) res" where
  "global_opts = then_opt (then_opt optimize_sts_nop optimize_sts_remove_emptyset) optimize_sts_remove_duplicates"

definition opt_round :: "idx_st list \<Rightarrow> dsts list \<Rightarrow> (bool \<times> idx_st list) res" where
  "opt_round = then_opt (then_opt optimize_sts_join (each_opt local_opts)) global_opts"

partial_function (option) opt_loop :: "('a \<Rightarrow> dsts list \<Rightarrow> (bool \<times> 'a) res) \<Rightarrow> 'a \<Rightarrow> dsts list \<Rightarrow> 'a run" where
  "opt_loop f x G = bindo (Some (f x G)) (\<lambda>(changed, y). if changed then opt_loop f y G else Some (Inr y))"

declare opt_loop.simps [code]

definition optimize_sts :: "idx_st list \<Rightarrow> dsts list \<Rightarrow> idx_st list run" where
  "optimize_sts in_sts G = opt_loop opt_round in_sts G"

end
