(* ===== verification/STOptSound.thy ===== *)
theory STOptSound
  imports STOpt "HOL-Library.Multiset"
begin

text \<open>
  The contract \<open>optimization\<close>, its proof for every simplification of \<open>STOpt\<close>, and what
  follows for the loop \<open>optimize_sts\<close> of \<open>src/include/clou/MinCutGreedy.h\<close>: it returns, and a
  cut that separates the simplified waypoint lists separates the given ones.
\<close>

definition idx_edges :: "dsts list \<Rightarrow> (nat \<times> nat) set" where
  "idx_edges G = srel (idx_succs G)"

definition idx_ok :: "dsts list \<Rightarrow> bool" where
  "idx_ok G \<longleftrightarrow> (\<forall>r \<in> set G. \<forall>(v, w) \<in> set r. v < length G)"

definition set_ok :: "nat \<Rightarrow> nat list \<Rightarrow> bool" where
  "set_ok n S \<longleftrightarrow> os_ok S \<and> (\<forall>v \<in> set S. v < n)"

definition st_ok :: "nat \<Rightarrow> idx_st \<Rightarrow> bool" where
  "st_ok n st \<longleftrightarrow> 2 \<le> length st \<and> n * length st < 2 ^ 32 \<and> (\<forall>S \<in> set st. set_ok n S)"

definition sts_ok :: "nat \<Rightarrow> idx_st list \<Rightarrow> bool" where
  "sts_ok n sts \<longleftrightarrow> (\<forall>st \<in> set sts. st_ok n st)"

definition walks :: "(nat \<times> nat) set \<Rightarrow> idx_st \<Rightarrow> bool" where
  "walks E st \<longleftrightarrow> (\<exists>x \<in> set (hd st). st_walk E (map set (tl st)) x)"

definition any_walks :: "(nat \<times> nat) set \<Rightarrow> idx_st list \<Rightarrow> bool" where
  "any_walks E sts \<longleftrightarrow> (\<exists>st \<in> set sts. walks E st)"

definition st_size :: "idx_st \<Rightarrow> nat" where
  "st_size st = Suc (\<Sum>S \<leftarrow> st. Suc (length S))"

definition sts_size :: "idx_st list \<Rightarrow> nat" where
  "sts_size sts = (\<Sum>st \<leftarrow> sts. st_size st)"

subsection \<open>The contract\<close>

locale optimization =
  fixes opt :: "'a \<Rightarrow> dsts list \<Rightarrow> (bool \<times> 'a) res"
    and ok :: "nat \<Rightarrow> 'a \<Rightarrow> bool"
    and has_walk :: "(nat \<times> nat) set \<Rightarrow> 'a \<Rightarrow> bool"
    and weight :: "'a \<Rightarrow> nat"
  assumes law: "idx_ok G \<Longrightarrow> ok (length G) x \<Longrightarrow>
     \<exists>c y. opt x G = Inr (c, y) \<and> ok (length G) y \<and> weight y \<le> weight x \<and> (c \<longrightarrow> weight y < weight x) \<and>
       (\<forall>E \<subseteq> idx_edges G. has_walk E x \<longrightarrow> has_walk E y)"
begin

lemma optE:
  assumes "idx_ok G" "ok (length G) x"
  obtains c y where "opt x G = Inr (c, y)" "ok (length G) y" "weight y \<le> weight x" "c \<Longrightarrow> weight y < weight x"
    "\<And>E. E \<subseteq> idx_edges G \<Longrightarrow> has_walk E x \<Longrightarrow> has_walk E y"
  using law[OF assms] by blast

lemma loop_returns:
  assumes "idx_ok G" "ok (length G) x"
  shows "\<exists>y. opt_loop opt x G = Some (Inr y) \<and> ok (length G) y \<and>
     (\<forall>E \<subseteq> idx_edges G. has_walk E x \<longrightarrow> has_walk E y)"
  using assms(2)
proof (induction "weight x" arbitrary: x rule: less_induct)
  case less
  from optE[OF assms(1) less.prems] obtain c y where
    y: "opt x G = Inr (c, y)" "ok (length G) y" "c \<Longrightarrow> weight y < weight x"
    "\<And>E. E \<subseteq> idx_edges G \<Longrightarrow> has_walk E x \<Longrightarrow> has_walk E y" by blast
  show ?case
  proof (cases c)
    case True
    from less.hyps[OF y(3)[OF True] y(2)] y(1,4) True show ?thesis
      by (subst opt_loop.simps) auto
  next
    case False
    with y show ?thesis by (subst opt_loop.simps) auto
  qed
qed

end

text \<open>Two simplifications after each other, and one applied to every list.\<close>

locale two_optimizations =
  first: optimization f ok has_walk weight + second: optimization g ok has_walk weight
  for f g :: "'a \<Rightarrow> dsts list \<Rightarrow> (bool \<times> 'a) res" and ok has_walk weight
begin

lemma then_law:
  assumes "idx_ok G" "ok (length G) x"
  shows "\<exists>c y. then_opt f g x G = Inr (c, y) \<and> ok (length G) y \<and> weight y \<le> weight x \<and>
     (c \<longrightarrow> weight y < weight x) \<and> (\<forall>E \<subseteq> idx_edges G. has_walk E x \<longrightarrow> has_walk E y)"
proof -
  obtain c y where y: "f x G = Inr (c, y)" "ok (length G) y" "weight y \<le> weight x" "c \<Longrightarrow> weight y < weight x"
    "\<And>E. E \<subseteq> idx_edges G \<Longrightarrow> has_walk E x \<Longrightarrow> has_walk E y"
    using first.optE[OF assms] by blast
  obtain c' z where z: "g y G = Inr (c', z)" "ok (length G) z" "weight z \<le> weight y" "c' \<Longrightarrow> weight z < weight y"
    "\<And>E. E \<subseteq> idx_edges G \<Longrightarrow> has_walk E y \<Longrightarrow> has_walk E z"
    using second.optE[OF assms(1) y(2)] by blast
  have "then_opt f g x G = Inr (c \<or> c', z)" using y(1) z(1) by (simp add: then_opt_def)
  moreover have "weight z \<le> weight x" using y(3) z(3) by simp
  moreover have "c \<or> c' \<longrightarrow> weight z < weight x"
    using y(3) z(3) by (auto dest: y(4) z(4))
  ultimately show ?thesis using y(5) z(2,5) by blast
qed

end

sublocale two_optimizations \<subseteq> both: optimization "then_opt f g" ok has_walk weight
  by unfold_locales (rule then_law)

locale local_optimization = optimization opt st_ok walks st_size
  for opt :: "idx_st \<Rightarrow> dsts list \<Rightarrow> (bool \<times> idx_st) res"
begin

lemma each_law:
  assumes "idx_ok G" "sts_ok (length G) sts"
  shows "\<exists>c out. each_opt opt sts G = Inr (c, out) \<and> sts_ok (length G) out \<and> sts_size out \<le> sts_size sts \<and>
     (c \<longrightarrow> sts_size out < sts_size sts) \<and> (\<forall>E \<subseteq> idx_edges G. any_walks E sts \<longrightarrow> any_walks E out)"
  using assms(2)
proof (induction sts)
  case (Cons st sts)
  then have st: "st_ok (length G) st" and sts: "sts_ok (length G) sts" by (auto simp: sts_ok_def)
  obtain c y where y: "opt st G = Inr (c, y)" "st_ok (length G) y" "st_size y \<le> st_size st"
    "c \<Longrightarrow> st_size y < st_size st" "\<And>E. E \<subseteq> idx_edges G \<Longrightarrow> walks E st \<Longrightarrow> walks E y"
    using optE[OF assms(1) st] by blast
  from Cons.IH[OF sts] obtain c' out where out: "each_opt opt sts G = Inr (c', out)" "sts_ok (length G) out"
    "sts_size out \<le> sts_size sts" "c' \<longrightarrow> sts_size out < sts_size sts"
    "\<forall>E \<subseteq> idx_edges G. any_walks E sts \<longrightarrow> any_walks E out" by blast
  have "each_opt opt (st # sts) G = Inr (c \<or> c', y # out)" using y(1) out(1) by simp
  moreover have "sts_ok (length G) (y # out)" using y(2) out(2) by (simp add: sts_ok_def)
  moreover have "sts_size (y # out) \<le> sts_size (st # sts)" using y(3) out(3) by (simp add: sts_size_def)
  moreover have "c \<or> c' \<longrightarrow> sts_size (y # out) < sts_size (st # sts)"
    using y(3) out(3,4) by (auto simp: sts_size_def dest: y(4))
  moreover have "\<forall>E \<subseteq> idx_edges G. any_walks E (st # sts) \<longrightarrow> any_walks E (y # out)"
    using y(5) out(5) by (auto simp: any_walks_def)
  ultimately show ?case by blast
qed (auto simp: sts_ok_def)

end

sublocale local_optimization \<subseteq> each: optimization "each_opt opt" sts_ok any_walks sts_size
  by unfold_locales (rule each_law)

subsection \<open>Walks\<close>

lemma st_walk_mono: "st_walk E Ws x \<Longrightarrow> list_all2 (\<subseteq>) Ws Ws' \<Longrightarrow> st_walk E Ws' x"
proof (induction Ws arbitrary: x Ws')
  case (Cons W Ws)
  then obtain W' Ws'' where "Ws' = W' # Ws''" "W \<subseteq> W'" "list_all2 (\<subseteq>) Ws Ws''" by (cases Ws') auto
  with Cons show ?case by auto
qed simp

lemma st_walk_from: "(x, y) \<in> E\<^sup>* \<Longrightarrow> st_walk E Ws y \<Longrightarrow> st_walk E Ws x"
  by (cases Ws) (auto intro: rtrancl_trancl_trancl)

lemma idx_succs_in: "idx_ok G \<Longrightarrow> v \<in> set (idx_succs G u) \<Longrightarrow> v < length G"
proof -
  assume ok: "idx_ok G" and v: "v \<in> set (idx_succs G u)"
  then obtain w where u: "u < length G" "(v, w) \<in> set (G ! u)" by (auto simp: idx_succs_def split: if_splits)
  then have "G ! u \<in> set G" by simp
  with ok u(2) show ?thesis by (auto simp: idx_ok_def)
qed

lemma idx_dfs_total:
  assumes "idx_ok G" "\<forall>v \<in> set S. v < length G"
  obtains reach p where "dfs_push Bad_index [0..<length G] (\<lambda>u. filter P (idx_succs G u)) (rev S) {} Map.empty = Inr (reach, p)"
    and "reach = (srel (\<lambda>u. filter P (idx_succs G u)))\<^sup>+ `` set S"
proof -
  have "set (rev S) \<subseteq> set [0..<length G]" using assms(2) by auto
  moreover have "\<And>u. set (filter P (idx_succs G u)) \<subseteq> set [0..<length G]"
    using idx_succs_in[OF assms(1)] by auto
  ultimately obtain r where r: "dfs_push Bad_index [0..<length G] (\<lambda>u. filter P (idx_succs G u)) (rev S) {} Map.empty = Inr r"
    using dfs_push_total[of "rev S" "[0..<length G]" "\<lambda>u. filter P (idx_succs G u)" Bad_index "{}" Map.empty]
    by blast
  obtain reach p where p: "r = (reach, p)" by (cases r)
  from dfs_push_reach[OF r[unfolded p]] have "reach = (srel (\<lambda>u. filter P (idx_succs G u)))\<^sup>+ `` set S" by simp
  with r p that show ?thesis by blast
qed

lemma set_ok_filter: "set_ok n S \<Longrightarrow> set_ok n (filter P S)"
  by (simp add: set_ok_def)

lemma set_ok_bound: "set_ok n S \<Longrightarrow> \<forall>v \<in> set S. v < n"
  by (simp add: set_ok_def)

lemma trancl_mono_Image: "E \<subseteq> F \<Longrightarrow> (x, y) \<in> E\<^sup>+ \<Longrightarrow> (x, y) \<in> F\<^sup>+"
  by (rule trancl_mono)

subsection \<open>Removing unreachable nodes\<close>

lemma cull_unreachables_from_law:
  assumes "idx_ok G" "set_ok (length G) S" "\<forall>T \<in> set Ts. set_ok (length G) T"
  shows "\<exists>k st. cull_unreachables_from G S Ts = Inr (k, S # st) \<and> length st = length Ts \<and>
     (\<forall>T \<in> set st. set_ok (length G) T) \<and>
     (\<Sum>T \<leftarrow> st. Suc (length T)) + k = (\<Sum>T \<leftarrow> Ts. Suc (length T)) \<and>
     (\<forall>E \<subseteq> idx_edges G. \<forall>x \<in> set S. st_walk E (map set Ts) x \<longrightarrow> st_walk E (map set st) x)"
  using assms(2,3)
proof (induction Ts arbitrary: S)
  case (Cons T Ts)
  obtain reach p where d: "dfs_push Bad_index [0..<length G] (idx_succs G) (rev S) {} Map.empty = Inr (reach, p)"
    and r: "reach = (idx_edges G)\<^sup>+ `` set S"
    using idx_dfs_total[OF assms(1) set_ok_bound[OF Cons.prems(1)], of "\<lambda>_. True"] by (auto simp: idx_edges_def)
  let ?T = "filter (\<lambda>t. t \<in> reach) T"
  have c: "copy_reached (length G) T reach = Inr ?T" using Cons.prems(2) by (auto simp: copy_reached_def set_ok_def)
  have "set_ok (length G) ?T" "\<forall>T \<in> set Ts. set_ok (length G) T" using Cons.prems(2) by (auto simp: set_ok_filter)
  from Cons.IH[OF this] obtain k st where IH: "cull_unreachables_from G ?T Ts = Inr (k, ?T # st)"
    "length st = length Ts" "\<forall>T \<in> set st. set_ok (length G) T"
    "(\<Sum>T \<leftarrow> st. Suc (length T)) + k = (\<Sum>T \<leftarrow> Ts. Suc (length T))"
    "\<forall>E \<subseteq> idx_edges G. \<forall>x \<in> set ?T. st_walk E (map set Ts) x \<longrightarrow> st_walk E (map set st) x" by blast
  have eq: "cull_unreachables_from G S (T # Ts) = Inr (k + (length T - length ?T), S # ?T # st)"
    using d c IH(1) by simp
  have sum: "(\<Sum>T \<leftarrow> ?T # st. Suc (length T)) + (k + (length T - length ?T)) =
      (\<Sum>T \<leftarrow> T # Ts. Suc (length T))"
    unfolding list.map sum_list.Cons using IH(4) length_filter_le[of "\<lambda>t. t \<in> reach" T] by linarith
  have "st_walk E (map set (?T # st)) x"
    if E: "E \<subseteq> idx_edges G" and x: "x \<in> set S" "st_walk E (map set (T # Ts)) x" for E x
  proof -
    from x(2) obtain y where y: "y \<in> set T" "(x, y) \<in> E\<^sup>+" "st_walk E (map set Ts) y" by auto
    with x(1) r trancl_mono[OF _ E] have "y \<in> set ?T" by auto
    with y IH(5) E show ?thesis by auto
  qed
  moreover have "\<forall>T \<in> set (?T # st). set_ok (length G) T"
    using IH(3) Cons.prems(2) by (simp add: set_ok_filter)
  ultimately show ?case using eq sum IH(2)
    by (intro exI[of _ "k + (length T - length ?T)"] exI[of _ "?T # st"] conjI) simp_all
qed simp

lemma st_cases:
  assumes "st_ok n st"
  obtains S T Ts where "st = S # T # Ts" "set_ok n S" "\<forall>T \<in> set (T # Ts). set_ok n T"
  using assms by (cases st; cases "tl st") (auto simp: st_ok_def)

interpretation nop: local_optimization optimize_st_nop
  by unfold_locales (auto simp: optimize_st_nop_def)

interpretation unreachables: local_optimization optimize_sts_cull_unreachables
proof unfold_locales
  fix G st assume G: "idx_ok G" and ok: "st_ok (length G) st"
  obtain S T Ts where st: "st = S # T # Ts" "set_ok (length G) S"
    "\<forall>T \<in> set (T # Ts). set_ok (length G) T" using ok by (rule st_cases)
  from cull_unreachables_from_law[OF G st(2,3)] obtain k out where o:
    "cull_unreachables_from G S (T # Ts) = Inr (k, S # out)" "length out = length (T # Ts)"
    "\<forall>T \<in> set out. set_ok (length G) T" "(\<Sum>T \<leftarrow> out. Suc (length T)) + k = (\<Sum>T \<leftarrow> T # Ts. Suc (length T))"
    "\<forall>E \<subseteq> idx_edges G. \<forall>x \<in> set S. st_walk E (map set (T # Ts)) x \<longrightarrow> st_walk E (map set out) x" by blast
  show "\<exists>c y. optimize_sts_cull_unreachables st G = Inr (c, y) \<and> st_ok (length G) y \<and> st_size y \<le> st_size st \<and>
      (c \<longrightarrow> st_size y < st_size st) \<and> (\<forall>E \<subseteq> idx_edges G. walks E st \<longrightarrow> walks E y)"
  proof (intro exI[of _ "k > 0"] exI[of _ "S # out"] conjI)
    show "optimize_sts_cull_unreachables st G = Inr (k > 0, S # out)"
      unfolding optimize_sts_cull_unreachables_def st(1) list.case o(1) by simp
    show "\<forall>E \<subseteq> idx_edges G. walks E st \<longrightarrow> walks E (S # out)"
      unfolding walks_def st(1) list.sel using o(5) by blast
  qed (use o(2-4) st ok in \<open>auto simp: st_ok_def st_size_def\<close>)
qed

subsection \<open>Removing sources that reach no sink\<close>

text \<open>\<open>good_source E S T x\<close>: from \<open>x\<close> a member of \<open>T\<close> is reached without passing through
  \<open>S\<close> or \<open>T\<close> before.\<close>

definition avoiding :: "(nat \<times> nat) set \<Rightarrow> nat set \<Rightarrow> (nat \<times> nat) set" where
  "avoiding E A = {(u, v) \<in> E. v \<notin> A}"

definition good_source :: "(nat \<times> nat) set \<Rightarrow> nat set \<Rightarrow> nat set \<Rightarrow> nat \<Rightarrow> bool" where
  "good_source E S T x \<longleftrightarrow> (\<exists>u t. (x, u) \<in> (avoiding E (S \<union> T))\<^sup>* \<and> t \<in> T \<and> (u, t) \<in> E)"

lemma good_source_mono:
  assumes "good_source E S T x" "E \<subseteq> F" "S' \<subseteq> S"
  shows "good_source F S' T x"
proof -
  have "avoiding E (S \<union> T) \<subseteq> avoiding F (S' \<union> T)" using assms(2,3) by (auto simp: avoiding_def)
  then have "(avoiding E (S \<union> T))\<^sup>* \<subseteq> (avoiding F (S' \<union> T))\<^sup>*" by (rule rtrancl_mono)
  with assms(1,2) show ?thesis by (auto simp: good_source_def)
qed

text \<open>The last source on a walk is a good one.\<close>

lemma last_source:
  assumes "(z, y) \<in> E\<^sup>+" "y \<in> T"
  shows "(\<exists>p \<in> S. (z, p) \<in> E\<^sup>* \<and> (p, y) \<in> E\<^sup>+ \<and> good_source E S T p) \<or> good_source E S T z"
  using assms(1)
proof (induction rule: converse_trancl_induct)
  case (base z)
  with assms(2) show ?case by (auto simp: good_source_def)
next
  case (step x z)
  show ?case
  proof (cases "good_source E S T z")
    case good: True
    show ?thesis
    proof (cases "z \<in> S \<union> T")
      case True
      with good step(1,2) show ?thesis by (auto simp: good_source_def)
    next
      case False
      with step(1) have "(x, z) \<in> avoiding E (S \<union> T)" by (simp add: avoiding_def)
      with good show ?thesis unfolding good_source_def by (meson converse_rtrancl_into_rtrancl)
    qed
  next
    case False
    with step.IH obtain p where "p \<in> S" "(z, p) \<in> E\<^sup>*" "(p, y) \<in> E\<^sup>+" "good_source E S T p" by blast
    with step(1) show ?thesis by (meson converse_rtrancl_into_rtrancl)
  qed
qed

lemma scan_succs_Some:
  assumes "scan_succs n S T vs todo reach = Inr (Some (todo', reach'))"
  shows "set vs \<inter> set T = {}" "reach' = reach \<union> (set vs - set S)" "set todo \<subseteq> set todo'"
    "reach' - reach \<subseteq> set todo'" "set todo' \<subseteq> set todo \<union> reach'"
proof -
  have "set vs \<inter> set T = {} \<and> reach' = reach \<union> (set vs - set S) \<and> set todo \<subseteq> set todo' \<and>
    reach' - reach \<subseteq> set todo' \<and> set todo' \<subseteq> set todo \<union> reach'"
    using assms
  proof (induction vs arbitrary: todo reach)
    case (Cons v vs)
    show ?case
    proof (cases "v \<in> set S \<or> v \<in> reach")
      case True
      with Cons.prems have "v \<notin> set T" "scan_succs n S T vs todo reach = Inr (Some (todo', reach'))"
        by (auto split: if_splits)
      from Cons.IH[OF this(2)] this(1) True show ?thesis by auto
    next
      case False
      with Cons.prems have v: "v \<notin> set T"
        "scan_succs n S T vs (v # todo) (insert v reach) = Inr (Some (todo', reach'))"
        by (auto split: if_splits)
      note IH = Cons.IH[OF v(2)]
      have "reach' - reach \<subseteq> insert v (reach' - insert v reach)" by auto
      also have "\<dots> \<subseteq> set todo'" using IH by auto
      finally show ?thesis using IH v(1) False by auto
    qed
  qed auto
  then show "set vs \<inter> set T = {}" "reach' = reach \<union> (set vs - set S)" "set todo \<subseteq> set todo'"
    "reach' - reach \<subseteq> set todo'" "set todo' \<subseteq> set todo \<union> reach'" by blast+
qed

lemma source_reaches_False:
  assumes "source_reaches G S T todo reach = Inr False"
    "\<forall>u \<in> insert s reach. u \<in> set todo \<or> (\<forall>v \<in> set (idx_succs G u). v \<notin> set T \<and> (v \<in> set S \<or> v \<in> reach))"
    "set todo \<subseteq> insert s reach"
  shows "\<exists>R. \<forall>u \<in> insert s R. \<forall>v \<in> set (idx_succs G u). v \<notin> set T \<and> (v \<in> set S \<or> v \<in> R)"
  using assms
proof (induction G S T todo reach rule: source_reaches.induct)
  case (2 G S T u todo reach)
  from "2.prems"(1) have len: "\<not> \<not> u < length G" by (auto split: if_splits)
  with "2.prems"(1) obtain todo' reach' where
    sc: "scan_succs (length G) S T (idx_succs G u) todo reach = Inr (Some (todo', reach'))"
    and rest: "source_reaches G S T todo' reach' = Inr False"
    by (auto split: sum.splits option.splits prod.splits)
  note f = scan_succs_Some[OF sc]
  have inv: "w \<in> set todo' \<or> (\<forall>v \<in> set (idx_succs G w). v \<notin> set T \<and> (v \<in> set S \<or> v \<in> reach'))"
    if w: "w \<in> insert s reach'" for w
  proof (cases "w = u")
    case True
    with f(1,2) show ?thesis by auto
  next
    case False
    show ?thesis
    proof (cases "w \<in> insert s reach")
      case True
      with "2.prems"(2) False f(2,3) show ?thesis by auto
    next
      case False
      with w f(4) show ?thesis by auto
    qed
  qed
  have sub: "set todo' \<subseteq> insert s reach'" using "2.prems"(3) f(2,5) by auto
  from "2.IH"[OF len sc refl refl rest] inv sub show ?case by blast
next
  case (1 G S T reach)
  then show ?case by auto
qed

lemma source_reaches_complete:
  assumes "source_reaches G S T [s] {} = Inr False"
  shows "\<not> good_source (idx_edges G) (set S) (set T) s"
proof
  assume "good_source (idx_edges G) (set S) (set T) s"
  then obtain u t where u: "(s, u) \<in> (avoiding (idx_edges G) (set S \<union> set T))\<^sup>*" "t \<in> set T" "(u, t) \<in> idx_edges G"
    by (auto simp: good_source_def)
  from source_reaches_False[OF assms, of s] obtain R where
    R: "\<forall>u \<in> insert s R. \<forall>v \<in> set (idx_succs G u). v \<notin> set T \<and> (v \<in> set S \<or> v \<in> R)" by auto
  from u(1) have "u \<in> insert s R"
    by (rule rtrancl_closed) (use R in \<open>auto simp: avoiding_def idx_edges_def\<close>)
  with u(2,3) R show False by (auto simp: idx_edges_def)
qed

lemma scan_succs_total:
  assumes "\<forall>v \<in> set vs. v < n"
  shows "\<exists>r. scan_succs n S T vs todo reach = Inr r"
  using assms by (induction vs arbitrary: todo reach) auto

lemma source_reaches_total:
  assumes "idx_ok G" "\<forall>u \<in> set todo \<union> reach. u < length G"
  shows "\<exists>b. source_reaches G S T todo reach = Inr b"
  using assms
proof (induction G S T todo reach rule: source_reaches.induct)
  case (2 G S T u todo reach)
  have vs: "\<forall>v \<in> set (idx_succs G u). v < length G" using idx_succs_in[OF "2.prems"(1)] by blast
  from scan_succs_total[OF vs] obtain r where
    r: "scan_succs (length G) S T (idx_succs G u) todo reach = Inr r" by blast
  have u: "\<not> \<not> u < length G" using "2.prems"(2) by simp
  show ?case
  proof (cases r)
    case None
    with r u show ?thesis by auto
  next
    case (Some p)
    obtain todo' reach' where p: "p = (todo', reach')" by (cases p)
    note sc = r[unfolded Some p]
    have "\<forall>w \<in> set todo' \<union> reach'. w < length G"
      using scan_succs_Some[OF sc] vs "2.prems"(2) by auto
    from "2.IH"[OF u sc refl refl "2.prems"(1) this] sc u show ?thesis by simp
  qed
qed auto

text \<open>The other direction: the search only answers yes for a good source.\<close>

lemma scan_succs_None:
  assumes "scan_succs n S T vs todo reach = Inr None"
  shows "set vs \<inter> set T \<noteq> {}"
  using assms by (induction vs arbitrary: todo reach) (auto split: if_splits)

lemma source_reaches_True:
  assumes "source_reaches G S T todo reach = Inr True"
    "\<forall>u \<in> set todo \<union> reach. (s, u) \<in> (avoiding (idx_edges G) (set S \<union> set T))\<^sup>*"
  shows "good_source (idx_edges G) (set S) (set T) s"
  using assms
proof (induction G S T todo reach rule: source_reaches.induct)
  case (2 G S T u todo reach)
  from "2.prems"(1) have len: "\<not> \<not> u < length G" by (auto split: if_splits)
  have u: "(s, u) \<in> (avoiding (idx_edges G) (set S \<union> set T))\<^sup>*" using "2.prems"(2) by simp
  show ?case
  proof (cases "scan_succs (length G) S T (idx_succs G u) todo reach = Inr None")
    case True
    then obtain t where "t \<in> set T" "t \<in> set (idx_succs G u)" using scan_succs_None by blast
    with u show ?thesis by (auto simp: good_source_def idx_edges_def)
  next
    case False
    with "2.prems"(1) len obtain todo' reach' where
      sc: "scan_succs (length G) S T (idx_succs G u) todo reach = Inr (Some (todo', reach'))"
      and rest: "source_reaches G S T todo' reach' = Inr True"
      by (auto split: sum.splits option.splits prod.splits)
    note f = scan_succs_Some[OF sc]
    have "(s, v) \<in> (avoiding (idx_edges G) (set S \<union> set T))\<^sup>*" if "v \<in> set (idx_succs G u) - set S" for v
    proof -
      have "(u, v) \<in> avoiding (idx_edges G) (set S \<union> set T)"
        using that f(1) by (auto simp: avoiding_def idx_edges_def)
      with u show ?thesis by (rule rtrancl_into_rtrancl)
    qed
    moreover have "w \<in> set (u # todo) \<union> reach \<or> w \<in> set (idx_succs G u) - set S"
      if "w \<in> set todo' \<union> reach'" for w using that f(2,5) by auto
    ultimately have "\<forall>u \<in> set todo' \<union> reach'. (s, u) \<in> (avoiding (idx_edges G) (set S \<union> set T))\<^sup>*"
      using "2.prems"(2) by meson
    from "2.IH"[OF len sc refl refl rest this] show ?thesis .
  qed
qed auto

text \<open>Dropping sources that are not good does not make others good.\<close>

lemma good_source_drop:
  assumes "good_source E A T x" "{p \<in> S. good_source E S T p} \<subseteq> A"
  shows "good_source E S T x"
proof -
  from assms(1) obtain u t where u: "(x, u) \<in> (avoiding E (A \<union> T))\<^sup>*" "t \<in> T" "(u, t) \<in> E"
    by (auto simp: good_source_def)
  from u(1) show ?thesis
  proof (induction rule: converse_rtrancl_induct)
    case base
    with u show ?case by (auto simp: good_source_def)
  next
    case (step y z)
    then have "z \<notin> S" using assms(2) by (auto simp: avoiding_def)
    with step(1) have "(y, z) \<in> avoiding E (S \<union> T)" by (auto simp: avoiding_def)
    with step.IH show ?case unfolding good_source_def by (meson converse_rtrancl_into_rtrancl)
  qed
qed

lemma cull_set_law:
  assumes "idx_ok G" "set_ok (length G) (kept @ S)"
  shows "\<exists>c S'. cull_set G T kept S = Inr (c, S') \<and> set_ok (length G) S' \<and> length S' \<le> length (kept @ S) \<and>
     (c \<longrightarrow> length S' < length (kept @ S)) \<and>
     set kept \<union> {x \<in> set S. good_source (idx_edges G) (set (kept @ S)) (set T) x} \<subseteq> set S'"
  using assms(2)
proof (induction S arbitrary: kept)
  case (Cons s S)
  obtain b where b: "source_reaches G (kept @ s # S) T [s] {} = Inr b"
    using source_reaches_total[OF assms(1), of "[s]" "{}" "kept @ s # S" T] Cons.prems by (auto simp: set_ok_def)
  show ?case
  proof (cases b)
    case True
    from Cons.IH[of "kept @ [s]"] Cons.prems obtain c S' where
      "cull_set G T (kept @ [s]) S = Inr (c, S')" "set_ok (length G) S'" "length S' \<le> length (kept @ s # S)"
      "c \<longrightarrow> length S' < length (kept @ s # S)"
      "set (kept @ [s]) \<union> {x \<in> set S. good_source (idx_edges G) (set (kept @ s # S)) (set T) x} \<subseteq> set S'"
      by auto
    with b True show ?thesis by auto
  next
    case False
    have "set_ok (length G) (kept @ S)" using Cons.prems
      by (auto simp: set_ok_def os_ok_def sorted_wrt_append)
    from Cons.IH[OF this] obtain c S' where
      IH: "cull_set G T kept S = Inr (c, S')" "set_ok (length G) S'" "length S' \<le> length (kept @ S)"
      "set kept \<union> {x \<in> set S. good_source (idx_edges G) (set (kept @ S)) (set T) x} \<subseteq> set S'" by blast
    have "good_source (idx_edges G) (set (kept @ S)) (set T) x"
      if "good_source (idx_edges G) (set (kept @ s # S)) (set T) x" for x
      using good_source_mono[OF that order_refl, of "set (kept @ S)"] by auto
    moreover have "\<not> good_source (idx_edges G) (set (kept @ s # S)) (set T) s"
      by (rule source_reaches_complete) (use b False in simp)
    ultimately have "set kept \<union> {x \<in> set (s # S). good_source (idx_edges G) (set (kept @ s # S)) (set T) x} \<subseteq> set S'"
      using IH(4) by auto
    with b False IH(1-3) show ?thesis by (intro exI[of _ True] exI[of _ S']) simp
  qed
qed (auto simp: set_ok_def)

lemma cull_set_exact:
  assumes "idx_ok G" "set_ok (length G) (kept @ S)"
    "\<forall>x \<in> set kept. good_source (idx_edges G) S0 (set T) x" "set (kept @ S) \<subseteq> S0"
    "{p \<in> S0. good_source (idx_edges G) S0 (set T) p} \<subseteq> set (kept @ S)"
  shows "\<exists>c. cull_set G T kept S = Inr (c, kept @ filter (good_source (idx_edges G) S0 (set T)) S)"
  using assms(2-)
proof (induction S arbitrary: kept)
  case (Cons s S)
  let ?good = "good_source (idx_edges G) S0 (set T)"
  obtain b where b: "source_reaches G (kept @ s # S) T [s] {} = Inr b"
    using source_reaches_total[OF assms(1), of "[s]" "{}" "kept @ s # S" T] Cons.prems by (auto simp: set_ok_def)
  show ?case
  proof (cases b)
    case True
    have "good_source (idx_edges G) (set (kept @ s # S)) (set T) s"
      by (rule source_reaches_True[of G "kept @ s # S" T "[s]" "{}"]) (use b True in simp_all)
    then have good: "?good s" using Cons.prems(4) by (rule good_source_drop)
    have "\<exists>c. cull_set G T (kept @ [s]) S = Inr (c, (kept @ [s]) @ filter ?good S)"
      using Cons.prems good by (intro Cons.IH) auto
    then obtain c where "cull_set G T (kept @ [s]) S = Inr (c, (kept @ [s]) @ filter ?good S)" by blast
    with b True good show ?thesis by simp
  next
    case False
    have bad: "\<not> good_source (idx_edges G) (set (kept @ s # S)) (set T) s"
      by (rule source_reaches_complete) (use b False in simp)
    then have nogood: "\<not> ?good s" using good_source_mono[OF _ order_refl Cons.prems(3)] by blast
    have "set_ok (length G) (kept @ S)" using Cons.prems(1)
      by (auto simp: set_ok_def os_ok_def sorted_wrt_append)
    moreover have "{p \<in> S0. ?good p} \<subseteq> set (kept @ S)" using Cons.prems(4) nogood by auto
    ultimately have "\<exists>c. cull_set G T kept S = Inr (c, kept @ filter ?good S)"
      using Cons.prems by (intro Cons.IH) auto
    then obtain c where "cull_set G T kept S = Inr (c, kept @ filter ?good S)" by blast
    with b False nogood show ?thesis by auto
  qed
qed auto

lemma cull_sources_law:
  assumes "idx_ok G" "st \<noteq> []" "\<forall>S \<in> set st. set_ok (length G) S"
  shows "\<exists>c out. optimize_sts_cull_sources st G = Inr (c, out) \<and> length out = length st \<and>
     (\<forall>S \<in> set out. set_ok (length G) S) \<and> st_size out \<le> st_size st \<and> (c \<longrightarrow> st_size out < st_size st) \<and>
     (\<forall>E \<subseteq> idx_edges G. \<forall>x \<in> set (hd st). st_walk E (map set (tl st)) x \<longrightarrow>
        (\<exists>p \<in> set (hd out). (x, p) \<in> E\<^sup>* \<and> st_walk E (map set (tl out)) p))"
  using assms
proof (induction st G rule: optimize_sts_cull_sources.induct)
  case (3 S T st G)
  have "set_ok (length G) ([] @ S)" using "3.prems" by simp
  from cull_set_law[OF "3.prems"(1) this, of T] obtain c S' where
    S': "cull_set G T [] S = Inr (c, S')" "set_ok (length G) S'" "length S' \<le> length S" "c \<longrightarrow> length S' < length S"
    "{x \<in> set S. good_source (idx_edges G) (set S) (set T) x} \<subseteq> set S'" by auto
  have "T # st \<noteq> []" "\<forall>S \<in> set (T # st). set_ok (length G) S" using "3.prems" by auto
  from "3.IH"[OF "3.prems"(1) this] obtain c' out where
    o: "optimize_sts_cull_sources (T # st) G = Inr (c', out)" "length out = length (T # st)"
    "\<forall>S \<in> set out. set_ok (length G) S" "st_size out \<le> st_size (T # st)" "c' \<longrightarrow> st_size out < st_size (T # st)"
    "\<forall>E \<subseteq> idx_edges G. \<forall>x \<in> set T. st_walk E (map set st) x \<longrightarrow>
        (\<exists>p \<in> set (hd out). (x, p) \<in> E\<^sup>* \<and> st_walk E (map set (tl out)) p)" by auto
  have "\<exists>p \<in> set S'. (x, p) \<in> E\<^sup>* \<and> st_walk E (map set out) p"
    if E: "E \<subseteq> idx_edges G" and x: "x \<in> set S" "st_walk E (map set (T # st)) x" for E x
  proof -
    from x(2) obtain y where y: "y \<in> set T" "(x, y) \<in> E\<^sup>+" "st_walk E (map set st) y" by auto
    with o(6) E obtain z where z: "z \<in> set (hd out)" "(y, z) \<in> E\<^sup>*" "st_walk E (map set (tl out)) z" by blast
    from last_source[OF y(2,1), of "set S"] x(1) y(2) obtain p where
      p: "p \<in> set S" "(x, p) \<in> E\<^sup>*" "(p, y) \<in> E\<^sup>+" "good_source E (set S) (set T) p" by blast
    have "p \<in> set S'" using S'(5) p(1) good_source_mono[OF p(4) E order_refl] by blast
    moreover have "st_walk E (map set out) p"
      using z p(3) o(2) by (cases out) (auto intro: trancl_rtrancl_trancl)
    ultimately show ?thesis using p(2) by blast
  qed
  moreover have "optimize_sts_cull_sources (S # T # st) G = Inr (c \<or> c', S' # out)" using S'(1) o(1) by simp
  moreover have "st_size (S' # out) \<le> st_size (S # T # st)" using S'(3) o(4) by (simp add: st_size_def)
  moreover have "c \<or> c' \<longrightarrow> st_size (S' # out) < st_size (S # T # st)"
    using S'(3,4) o(4,5) by (auto simp: st_size_def)
  ultimately show ?case using o(2,3) S'(2)
    by (intro exI[of _ "c \<or> c'"] exI[of _ "S' # out"] conjI) simp_all
qed (auto simp: st_size_def)

interpretation sources: local_optimization optimize_sts_cull_sources
proof unfold_locales
  fix G st assume G: "idx_ok G" and ok: "st_ok (length G) st"
  then have "st \<noteq> []" "\<forall>S \<in> set st. set_ok (length G) S" by (auto simp: st_ok_def)
  from cull_sources_law[OF G this] obtain c out where
    o: "optimize_sts_cull_sources st G = Inr (c, out)" "length out = length st"
    "\<forall>S \<in> set out. set_ok (length G) S" "st_size out \<le> st_size st" "c \<longrightarrow> st_size out < st_size st"
    "\<forall>E \<subseteq> idx_edges G. \<forall>x \<in> set (hd st). st_walk E (map set (tl st)) x \<longrightarrow>
        (\<exists>p \<in> set (hd out). (x, p) \<in> E\<^sup>* \<and> st_walk E (map set (tl out)) p)" by blast
  have "st_ok (length G) out" using ok o(2,3) by (simp add: st_ok_def)
  moreover have "\<forall>E \<subseteq> idx_edges G. walks E st \<longrightarrow> walks E out" using o(6) unfolding walks_def by blast
  ultimately show "\<exists>c y. optimize_sts_cull_sources st G = Inr (c, y) \<and> st_ok (length G) y \<and> st_size y \<le> st_size st \<and>
      (c \<longrightarrow> st_size y < st_size st) \<and> (\<forall>E \<subseteq> idx_edges G. walks E st \<longrightarrow> walks E y)"
    using o(1,4,5) by blast
qed

subsection \<open>Removing redundant inner sets\<close>

lemma none_reached_total: "\<forall>v \<in> set C. v < n \<Longrightarrow> none_reached n reach C = Inr (\<forall>v \<in> set C. v \<notin> reach)"
  by (induction C) auto

lemma redundant_law:
  assumes "idx_ok G" "st \<noteq> []" "\<forall>S \<in> set st. set_ok (length G) S"
  shows "\<exists>c out. optimize_sts_remove_redundant_internal_st st G = Inr (c, hd st # out) \<and>
     min 2 (length st) \<le> Suc (length out) \<and> Suc (length out) \<le> length st \<and>
     (\<forall>S \<in> set out. set_ok (length G) S) \<and> st_size (hd st # out) \<le> st_size st \<and>
     (c \<longrightarrow> st_size (hd st # out) < st_size st) \<and>
     (\<forall>E x. st_walk E (map set (tl st)) x \<longrightarrow> st_walk E (map set out) x)"
  using assms
proof (induction st G rule: optimize_sts_remove_redundant_internal_st.induct)
  case (2 A B C st G)
  obtain reach p where d: "dfs_push Bad_index [0..<length G] (\<lambda>u. filter (\<lambda>v. v \<notin> set B) (idx_succs G u)) (rev A) {} Map.empty
      = Inr (reach, p)"
    by (rule idx_dfs_total[OF "2.prems"(1), of A "\<lambda>v. v \<notin> set B"]) (use "2.prems"(3) in \<open>auto simp: set_ok_def\<close>)
  have "\<forall>v \<in> set C. v < length G" using "2.prems"(3) by (simp add: set_ok_def)
  note nr = none_reached_total[OF this, of reach]
  have ok: "\<forall>S \<in> set (A # C # st). set_ok (length G) S" "\<forall>S \<in> set (B # C # st). set_ok (length G) S"
    using "2.prems"(3) by auto
  show ?case
  proof (cases "\<forall>v \<in> set C. v \<notin> reach")
    case True
    from "2.IH"(1)[OF True "2.prems"(1) _ ok(1)] obtain c out where
      o: "optimize_sts_remove_redundant_internal_st (A # C # st) G = Inr (c, A # out)"
      "2 \<le> Suc (length out)" "length out \<le> length (C # st)"
      "\<forall>S \<in> set out. set_ok (length G) S" "st_size (A # out) \<le> st_size (A # C # st)"
      "\<forall>E x. st_walk E (map set (C # st)) x \<longrightarrow> st_walk E (map set out) x" by auto
    have "st_walk E (map set out) x" if "st_walk E (map set (B # C # st)) x" for E x
    proof -
      from that obtain b c where "(x, b) \<in> E\<^sup>+" "(b, c) \<in> E\<^sup>+" "c \<in> set C" "st_walk E (map set st) c" by auto
      with o(6) show ?thesis by (auto intro: trancl_trans)
    qed
    moreover have "st_size (A # out) < st_size (A # B # C # st)" using o(5) by (simp add: st_size_def)
    moreover have "optimize_sts_remove_redundant_internal_st (A # B # C # st) G = Inr (True, A # out)"
      using d nr True o(1) by simp
    ultimately show ?thesis using o(2-4) by (intro exI[of _ True] exI[of _ out]) simp
  next
    case False
    from "2.IH"(2)[OF False "2.prems"(1) _ ok(2)] obtain c out where
      o: "optimize_sts_remove_redundant_internal_st (B # C # st) G = Inr (c, B # out)"
      "2 \<le> Suc (length out)" "length out \<le> length (C # st)"
      "\<forall>S \<in> set out. set_ok (length G) S" "st_size (B # out) \<le> st_size (B # C # st)"
      "c \<longrightarrow> st_size (B # out) < st_size (B # C # st)"
      "\<forall>E x. st_walk E (map set (C # st)) x \<longrightarrow> st_walk E (map set out) x" by auto
    have "st_walk E (map set (B # out)) x" if "st_walk E (map set (B # C # st)) x" for E x
      using that o(7) by auto
    moreover have "optimize_sts_remove_redundant_internal_st (A # B # C # st) G = Inr (c, A # B # out)"
      using d nr False o(1) by simp
    moreover have "st_size (A # B # out) \<le> st_size (A # B # C # st)"
      "c \<longrightarrow> st_size (A # B # out) < st_size (A # B # C # st)"
      using o(5,6) by (auto simp: st_size_def)
    ultimately show ?thesis using o(2-4) "2.prems"(3)
      by (intro exI[of _ c] exI[of _ "B # out"] conjI) simp_all
  qed
qed (auto simp: st_size_def)

interpretation redundant: local_optimization optimize_sts_remove_redundant_internal_st
proof unfold_locales
  fix G st assume G: "idx_ok G" and ok: "st_ok (length G) st"
  then have st: "st \<noteq> []" "\<forall>S \<in> set st. set_ok (length G) S" by (auto simp: st_ok_def)
  from redundant_law[OF G st] obtain c out where
    o: "optimize_sts_remove_redundant_internal_st st G = Inr (c, hd st # out)" "min 2 (length st) \<le> Suc (length out)"
    "Suc (length out) \<le> length st"
    "\<forall>S \<in> set out. set_ok (length G) S" "st_size (hd st # out) \<le> st_size st"
    "c \<longrightarrow> st_size (hd st # out) < st_size st"
    "\<forall>E x. st_walk E (map set (tl st)) x \<longrightarrow> st_walk E (map set out) x" by blast
  have "st_ok (length G) (hd st # out)" 
    using ok st o(2-4) mult_le_mono2[OF o(3), of "length G"] unfolding st_ok_def by (auto simp: min_def)
  moreover have "\<forall>E \<subseteq> idx_edges G. walks E st \<longrightarrow> walks E (hd st # out)" using o(7) by (auto simp: walks_def)
  ultimately show "\<exists>c y. optimize_sts_remove_redundant_internal_st st G = Inr (c, y) \<and> st_ok (length G) y \<and>
      st_size y \<le> st_size st \<and> (c \<longrightarrow> st_size y < st_size st) \<and> (\<forall>E \<subseteq> idx_edges G. walks E st \<longrightarrow> walks E y)"
    using o(1,5,6) by blast
qed

interpretation l1: two_optimizations optimize_st_nop optimize_sts_cull_unreachables st_ok walks st_size
  by unfold_locales

interpretation l2: two_optimizations "then_opt optimize_st_nop optimize_sts_cull_unreachables"
    optimize_sts_cull_sources st_ok walks st_size
  by unfold_locales

interpretation l3: two_optimizations
    "then_opt (then_opt optimize_st_nop optimize_sts_cull_unreachables) optimize_sts_cull_sources"
    optimize_sts_remove_redundant_internal_st st_ok walks st_size
  by unfold_locales

interpretation locals: local_optimization local_opts
  unfolding local_opts_def by unfold_locales

subsection \<open>Operations on the list\<close>

text \<open>Dropping some of the lists makes the whole smaller.\<close>

lemma sts_size_mset: "sts_size sts = (\<Sum>st \<in># mset sts. st_size st)"
  unfolding sts_size_def by (metis mset_map sum_mset_sum_list)

lemma sts_shrink:
  assumes "mset out \<subseteq># mset sts"
  shows "sts_size out \<le> sts_size sts" "length out \<noteq> length sts \<Longrightarrow> sts_size out < sts_size sts"
proof -
  from assms obtain M where M: "mset sts = mset out + M" by (metis subset_mset.le_iff_add)
  then have s: "sts_size sts = sts_size out + (\<Sum>st \<in># M. st_size st)" by (simp add: sts_size_mset)
  then show "sts_size out \<le> sts_size sts" by simp
  assume "length out \<noteq> length sts"
  with M have "M \<noteq> {#}" by (metis add_0_right size_mset)
  then obtain st M' where "M = add_mset st M'" by (metis multiset_cases)
  with s show "sts_size out < sts_size sts" by (simp add: st_size_def)
qed

lemma mset_remove_emptyset:
  "mset (remove_emptyset kept sts) = mset kept + mset (filter (\<lambda>st. \<forall>S \<in> set st. S \<noteq> []) sts)"
proof (induction kept sts rule: remove_emptyset.induct)
  case (2 kept st sts)
  show ?case
  proof (cases "\<exists>S \<in> set st. S = []")
    case True
    show ?thesis
    proof (cases "sts = []")
      case False
      then have "mset sts = mset (butlast sts @ [last sts])" by simp
      then have "mset (last sts # butlast sts) = mset sts" by simp
      then have "mset (filter (\<lambda>st. \<forall>S \<in> set st. S \<noteq> []) (last sts # butlast sts)) =
          mset (filter (\<lambda>st. \<forall>S \<in> set st. S \<noteq> []) sts)" by (simp only: mset_filter)
      with "2.IH"(1)[OF True False] True False show ?thesis by auto
    qed (use True in auto)
  next
    case False
    with "2.IH"(2)[OF False] show ?thesis by auto
  qed
qed simp

lemma walks_nonempty: "walks E st \<Longrightarrow> st \<noteq> [] \<Longrightarrow> S \<in> set st \<Longrightarrow> S \<noteq> []"
proof -
  have "st_walk E Ws x \<Longrightarrow> W \<in> set Ws \<Longrightarrow> W \<noteq> {}" for Ws W x
    by (induction Ws arbitrary: x) auto
  note h = this
  assume w: "walks E st" and "st \<noteq> []" and S: "S \<in> set st"
  then obtain T Ts where st: "st = T # Ts" by (cases st) auto
  from w st obtain x where x: "x \<in> set T" "st_walk E (map set Ts) x" by (auto simp: walks_def)
  show "S \<noteq> []"
  proof (cases "S = T")
    case False
    with S st have "set S \<in> set (map set Ts)" by auto
    from h[OF x(2) this] show ?thesis by auto
  qed (use x in auto)
qed

interpretation no_op: optimization optimize_sts_nop sts_ok any_walks sts_size
  by unfold_locales (auto simp: optimize_sts_nop_def)

interpretation emptyset: optimization optimize_sts_remove_emptyset sts_ok any_walks sts_size
proof unfold_locales
  fix G sts assume G: "idx_ok G" and ok: "sts_ok (length G) sts"
  let ?out = "remove_emptyset [] sts"
  have m: "mset ?out = mset (filter (\<lambda>st. \<forall>S \<in> set st. S \<noteq> []) sts)" by (simp add: mset_remove_emptyset)
  then have sub: "mset ?out \<subseteq># mset sts" by (simp add: multiset_filter_subset)
  from mset_eq_setD[OF m] have set: "set ?out = {st \<in> set sts. \<forall>S \<in> set st. S \<noteq> []}" by simp
  with ok have "sts_ok (length G) ?out" by (simp add: sts_ok_def)
  moreover have "any_walks E ?out" if "any_walks E sts" for E
  proof -
    from that obtain st where st: "st \<in> set sts" "walks E st" by (auto simp: any_walks_def)
    with ok have "st \<noteq> []" by (auto simp: sts_ok_def st_ok_def)
    with st walks_nonempty set show ?thesis unfolding any_walks_def by blast
  qed
  ultimately show "\<exists>c y. optimize_sts_remove_emptyset sts G = Inr (c, y) \<and> sts_ok (length G) y \<and>
      sts_size y \<le> sts_size sts \<and> (c \<longrightarrow> sts_size y < sts_size sts) \<and>
      (\<forall>E \<subseteq> idx_edges G. any_walks E sts \<longrightarrow> any_walks E y)"
    using sts_shrink[OF sub] by (auto simp: optimize_sts_remove_emptyset_def Let_def)
qed

lemma mset_remdups_adj: "mset (remdups_adj xs) \<subseteq># mset xs"
proof (induction xs rule: remdups_adj.induct)
  case (3 x y xs)
  have "mset (y # xs) \<subseteq># mset (x # y # xs)" by (simp add: subset_mset.le_iff_add)
  with 3 show ?case by (cases "x = y") (auto intro: subset_mset.order_trans)
qed auto

interpretation duplicates: optimization optimize_sts_remove_duplicates sts_ok any_walks sts_size
proof unfold_locales
  fix G sts assume G: "idx_ok G" and ok: "sts_ok (length G) sts"
  let ?out = "remdups_adj (sort sts)"
  have sub: "mset ?out \<subseteq># mset sts" using mset_remdups_adj[of "sort sts"] by simp
  show "\<exists>c y. optimize_sts_remove_duplicates sts G = Inr (c, y) \<and> sts_ok (length G) y \<and>
      sts_size y \<le> sts_size sts \<and> (c \<longrightarrow> sts_size y < sts_size sts) \<and>
      (\<forall>E \<subseteq> idx_edges G. any_walks E sts \<longrightarrow> any_walks E y)"
    using sts_shrink[OF sub] ok
    by (auto simp: optimize_sts_remove_duplicates_def Let_def sts_ok_def any_walks_def)
qed

subsection \<open>Joining lists that differ in one place\<close>

definition row_st_ok :: "nat \<Rightarrow> nat \<Rightarrow> idx_st \<Rightarrow> bool" where
  "row_st_ok N n st \<longleftrightarrow> length st = n \<and> (\<forall>S \<in> set st. set_ok N S)"

definition entry_size :: "idx_st \<times> nat list \<Rightarrow> nat" where
  "entry_size p = st_size (fst p) + Suc (length (snd p))"

definition sets_size :: "(idx_st \<times> nat list) list \<Rightarrow> nat" where
  "sets_size m = (\<Sum>p \<leftarrow> m. entry_size p)"

lemma om_find_key: "om_find m k = Some v \<Longrightarrow> (k, v) \<in> set m"
  by (simp add: om_find_def map_of_SomeD)

lemma sets_size_put:
  assumes "om_ok m"
  shows "om_find m k = None \<Longrightarrow> sets_size (om_put m k S) = sets_size m + entry_size (k, S) \<and>
      length (om_put m k S) = Suc (length m)"
    "om_find m k = Some S0 \<Longrightarrow> sets_size (om_put m k S) + length S0 = sets_size m + length S \<and>
      length (om_put m k S) = length m"
  using assms
  by (induction m k S rule: om_put.induct)
    (auto simp: om_ok_Cons sets_size_def entry_size_def om_find_None split: if_splits, force dest: om_find_key)

lemma set_ok_os_of: "set_ok N S \<Longrightarrow> set_ok N T \<Longrightarrow> set_ok N (os_of (S @ T))"
  by (auto simp: set_ok_def)

lemma length_os_of: "length (os_of xs) \<le> length xs"
  by (simp add: os_of_def length_remdups_leq)

lemma st_split: "i < length st \<Longrightarrow> st = take i st @ st ! i # drop (Suc i) st"
  by (simp add: id_take_nth_drop)

lemma st_size_split: "i < length st \<Longrightarrow> st_size st = entry_size (take i st @ drop (Suc i) st, st ! i)"
  by (subst st_split[of i st]) (simp_all add: st_size_def entry_size_def)

lemma join_step:
  fixes st :: idx_st and i :: nat
  defines "key \<equiv> take i st @ drop (Suc i) st"
  assumes m: "om_ok m" "\<forall>(k, S) \<in> set m. row_st_ok N (n - 1) k \<and> set_ok N S"
    and st: "row_st_ok N n st" "i < n"
  shows "\<exists>m'. om_put m key (os_of ((case om_find m key of None \<Rightarrow> [] | Some S \<Rightarrow> S) @ st ! i)) = m' \<and>
     om_ok m' \<and> (\<forall>(k, S) \<in> set m'. row_st_ok N (n - 1) k \<and> set_ok N S) \<and>
     sets_size m' + Suc (length m) \<le> sets_size m + st_size st + length m' \<and> length m' \<le> Suc (length m) \<and>
     (\<forall>(k, S) \<in> set m. \<exists>S'. (k, S') \<in> set m' \<and> set S \<subseteq> set S') \<and> (\<exists>S'. (key, S') \<in> set m' \<and> set (st ! i) \<subseteq> set S')"
proof -
  have len: "length st = n" "i < length st" using st by (auto simp: row_st_ok_def)
  have key: "row_st_ok N (n - 1) key" using st len
    by (auto simp: row_st_ok_def key_def dest: in_set_takeD in_set_dropD)
  have sti: "set_ok N (st ! i)" using st len by (simp add: row_st_ok_def)
  have size: "st_size st = entry_size (key, st ! i)" unfolding key_def using len(2) by (rule st_size_split)
  let ?old = "case om_find m key of None \<Rightarrow> [] | Some S \<Rightarrow> S"
  let ?m = "om_put m key (os_of (?old @ st ! i))"
  have old: "set_ok N ?old"
  proof (cases "om_find m key")
    case (Some S)
    with m(2) show ?thesis by (auto dest: om_find_key)
  qed (simp add: set_ok_def os_ok_def)
  have ok: "om_ok ?m" using m(1) by simp
  have entries: "\<forall>(k, S) \<in> set ?m. row_st_ok N (n - 1) k \<and> set_ok N S"
    using m key set_ok_os_of[OF old sti] by (auto simp: om_put_in)
  have size': "sets_size ?m + Suc (length m) \<le> sets_size m + st_size st + length ?m \<and> length ?m \<le> Suc (length m)"
  proof (cases "om_find m key")
    case None
    with sets_size_put(1)[OF m(1) None] size length_os_of[of "st ! i"] show ?thesis
      by (simp add: entry_size_def)
  next
    case (Some S0)
    with sets_size_put(2)[OF m(1) Some, of "os_of (S0 @ st ! i)"] size length_os_of[of "S0 @ st ! i"]
    show ?thesis by (simp add: entry_size_def)
  qed
  have keep: "\<exists>S'. (k, S') \<in> set ?m \<and> set S \<subseteq> set S'" if "(k, S) \<in> set m" for k S
  proof (cases "k = key")
    case True
    with that m(1) have "om_find m key = Some S" by (simp add: om_find_in)
    with True m(1) show ?thesis by (auto simp: om_put_in)
  next
    case False
    with that m(1) show ?thesis by (auto simp: om_put_in)
  qed
  have new: "\<exists>S'. (key, S') \<in> set ?m \<and> set (st ! i) \<subseteq> set S'"
    using m(1) by (intro exI[of _ "os_of (?old @ st ! i)"]) (auto simp: om_put_in)
  show ?thesis
    by (intro exI[of _ ?m] conjI) (use ok entries size' keep new in auto)
qed

definition join_one :: "nat \<Rightarrow> idx_st \<Rightarrow> (idx_st \<times> nat list) list \<Rightarrow> (idx_st \<times> nat list) list" where
  "join_one i st sets = (let key = take i st @ drop (Suc i) st
     in om_put sets key (os_of ((case om_find sets key of None \<Rightarrow> [] | Some S \<Rightarrow> S) @ st ! i)))"

lemma join_sets_fold: "join_sets i pool = fold (join_one i) pool []"
  unfolding join_sets_def join_one_def by simp

lemma join_fold:
  assumes "om_ok m" "\<forall>(k, S) \<in> set m. row_st_ok N (n - 1) k \<and> set_ok N S"
    and "\<forall>st \<in> set pool. row_st_ok N n st" "i < n"
  shows "\<exists>m'. fold (join_one i) pool m = m' \<and> om_ok m' \<and>
     (\<forall>(k, S) \<in> set m'. row_st_ok N (n - 1) k \<and> set_ok N S) \<and>
     sets_size m' + length pool + length m \<le> sets_size m + sts_size pool + length m' \<and>
     length m' \<le> length m + length pool \<and>
     (\<forall>(k, S) \<in> set m. \<exists>S'. (k, S') \<in> set m' \<and> set S \<subseteq> set S') \<and>
     (\<forall>st \<in> set pool. \<exists>S'. (take i st @ drop (Suc i) st, S') \<in> set m' \<and> set (st ! i) \<subseteq> set S')"
  using assms(1-3)
proof (induction pool arbitrary: m)
  case (Cons st pool)
  then have "row_st_ok N n st" by simp
  from join_step[OF Cons.prems(1,2) this assms(4)] obtain m1 where
    m1: "join_one i st m = m1" "om_ok m1" "\<forall>(k, S) \<in> set m1. row_st_ok N (n - 1) k \<and> set_ok N S"
    "sets_size m1 + Suc (length m) \<le> sets_size m + st_size st + length m1" "length m1 \<le> Suc (length m)"
    "\<forall>(k, S) \<in> set m. \<exists>S'. (k, S') \<in> set m1 \<and> set S \<subseteq> set S'"
    "\<exists>S'. (take i st @ drop (Suc i) st, S') \<in> set m1 \<and> set (st ! i) \<subseteq> set S'"
    unfolding join_one_def Let_def by blast
  have "\<forall>st \<in> set pool. row_st_ok N n st" using Cons.prems(3) by simp
  from Cons.IH[OF m1(2,3) this] obtain m' where
    m': "fold (join_one i) pool m1 = m'" "om_ok m'" "\<forall>(k, S) \<in> set m'. row_st_ok N (n - 1) k \<and> set_ok N S"
    "sets_size m' + length pool + length m1 \<le> sets_size m1 + sts_size pool + length m'"
    "length m' \<le> length m1 + length pool"
    "\<forall>(k, S) \<in> set m1. \<exists>S'. (k, S') \<in> set m' \<and> set S \<subseteq> set S'"
    "\<forall>st \<in> set pool. \<exists>S'. (take i st @ drop (Suc i) st, S') \<in> set m' \<and> set (st ! i) \<subseteq> set S'" by blast
  have trans: "\<exists>S'. (k, S') \<in> set m' \<and> S0 \<subseteq> set S'" if "(k, S) \<in> set m1" "S0 \<subseteq> set S" for k S S0
    using m'(6) that by blast
  show ?case
  proof (intro exI[of _ m'] conjI)
    show "sets_size m' + length (st # pool) + length m \<le> sets_size m + sts_size (st # pool) + length m'"
      using m1(4) m'(4) by (simp add: sts_size_def)
    show "\<forall>(k, S) \<in> set m. \<exists>S'. (k, S') \<in> set m' \<and> set S \<subseteq> set S'" using m1(6) trans by blast
    show "\<forall>st \<in> set (st # pool). \<exists>S'. (take i st @ drop (Suc i) st, S') \<in> set m' \<and> set (st ! i) \<subseteq> set S'"
      using m1(7) m'(7) trans by auto
  qed (use m1 m' in auto)
qed (auto simp: sts_size_def)

lemma join_pool_law:
  assumes "\<forall>st \<in> set pool. row_st_ok N n st" "i < n"
  shows "(\<forall>st \<in> set (join_pool i pool). row_st_ok N n st) \<and>
     sts_size (join_pool i pool) + length pool \<le> sts_size pool + length (join_pool i pool) \<and>
     length (join_pool i pool) \<le> length pool \<and>
     (\<forall>st \<in> set pool. \<exists>st' \<in> set (join_pool i pool). list_all2 (\<lambda>A B. set A \<subseteq> set B) st st')"
proof -
  let ?f = "\<lambda>(key, S). take i key @ S # drop i key"
  from join_fold[of "[]" N n pool i] assms obtain m where
    m: "join_sets i pool = m" "\<forall>(k, S) \<in> set m. row_st_ok N (n - 1) k \<and> set_ok N S"
    "sets_size m + length pool \<le> sts_size pool + length m" "length m \<le> length pool"
    "\<forall>st \<in> set pool. \<exists>S'. (take i st @ drop (Suc i) st, S') \<in> set m \<and> set (st ! i) \<subseteq> set S'"
    unfolding join_sets_fold by (auto simp: sets_size_def)
  have out: "join_pool i pool = map ?f m" using m(1) by (simp add: join_pool_def)
  have size: "sts_size (map ?f m) = sets_size m"
  proof (induction m)
    case (Cons p m)
    obtain k S where p: "p = (k, S)" by (cases p)
    have "(\<Sum>S \<leftarrow> take i k. Suc (length S)) + (\<Sum>S \<leftarrow> drop i k. Suc (length S)) = (\<Sum>S \<leftarrow> k. Suc (length S))"
      by (metis append_take_drop_id map_append sum_list_append)
    with Cons p show ?case by (simp add: sts_size_def sets_size_def entry_size_def st_size_def)
  qed (simp add: sts_size_def sets_size_def)
  have rows: "row_st_ok N n (?f p)" if "p \<in> set m" for p
  proof -
    obtain k S where p: "p = (k, S)" by (cases p)
    with that m(2) have "row_st_ok N (n - 1) k" "set_ok N S" by auto
    with p assms(2) show ?thesis by (auto simp: row_st_ok_def dest: in_set_takeD in_set_dropD)
  qed
  have cover: "\<exists>st' \<in> set (map ?f m). list_all2 (\<lambda>A B. set A \<subseteq> set B) st st'" if st: "st \<in> set pool" for st
  proof -
    from m(5) st obtain S' where S': "(take i st @ drop (Suc i) st, S') \<in> set m" "set (st ! i) \<subseteq> set S'" by blast
    have len: "i < length st" using st assms by (auto simp: row_st_ok_def)
    have "list_all2 (\<lambda>A B. set A \<subseteq> set B) (take i st @ st ! i # drop (Suc i) st) (take i st @ S' # drop (Suc i) st)"
      using S'(2) by (intro list_all2_appendI list_all2_refl) (auto intro: list_all2_refl)
    moreover have "?f (take i st @ drop (Suc i) st, S') = take i st @ S' # drop (Suc i) st" using len by simp
    moreover have "?f (take i st @ drop (Suc i) st, S') \<in> set (map ?f m)"
      using S'(1) unfolding set_map by (rule imageI)
    ultimately show ?thesis using st_split[OF len] by (intro bexI[of _ "take i st @ S' # drop (Suc i) st"]) simp_all
  qed
  show ?thesis unfolding out using size rows cover m(3,4) by auto
qed

definition join_rel :: "nat \<Rightarrow> nat \<Rightarrow> idx_st list \<Rightarrow> idx_st list \<Rightarrow> bool" where
  "join_rel N n pool out \<longleftrightarrow> (\<forall>st \<in> set out. row_st_ok N n st) \<and>
     sts_size out + length pool \<le> sts_size pool + length out \<and> length out \<le> length pool \<and>
     (\<forall>st \<in> set pool. \<exists>st' \<in> set out. list_all2 (\<lambda>A B. set A \<subseteq> set B) st st')"

lemma list_all2_subset_trans:
  assumes "list_all2 (\<lambda>A B. set A \<subseteq> set B) xs ys" "list_all2 (\<lambda>A B. set A \<subseteq> set B) ys zs"
  shows "list_all2 (\<lambda>A B. set A \<subseteq> set B) xs zs"
  by (rule list_all2_trans[OF _ assms]) auto

lemma join_rel_trans:
  assumes "join_rel N n a b" "join_rel N n b c"
  shows "join_rel N n a c"
proof -
  have "\<exists>st' \<in> set c. list_all2 (\<lambda>A B. set A \<subseteq> set B) st st'" if st: "st \<in> set a" for st
  proof -
    from assms(1) st obtain s1 where s1: "s1 \<in> set b" "list_all2 (\<lambda>A B. set A \<subseteq> set B) st s1"
      unfolding join_rel_def by blast
    with assms(2) obtain s2 where s2: "s2 \<in> set c" "list_all2 (\<lambda>A B. set A \<subseteq> set B) s1 s2"
      unfolding join_rel_def by blast
    from s2(1) list_all2_subset_trans[OF s1(2) s2(2)] show ?thesis by (rule bexI[rotated])
  qed
  moreover have "\<forall>st \<in> set c. row_st_ok N n st" using assms(2) unfolding join_rel_def by blast
  moreover have "sts_size c + length a \<le> sts_size a + length c" "length c \<le> length a"
    using assms unfolding join_rel_def by linarith+
  ultimately show ?thesis unfolding join_rel_def by simp
qed

lemma join_pools_law:
  assumes "\<forall>st \<in> set pool. row_st_ok N n st" "\<forall>i \<in> set is. i < n"
  shows "join_rel N n pool (fold join_pool is pool)"
  using assms
proof (induction "is" arbitrary: pool)
  case Nil
  then show ?case by (auto simp: join_rel_def intro: list_all2_refl)
next
  case (Cons i "is")
  have j: "join_rel N n pool (join_pool i pool)"
    using join_pool_law[OF Cons.prems(1), of i] Cons.prems(2) unfolding join_rel_def by (meson list.set_intros(1))
  then have "\<forall>st \<in> set (join_pool i pool). row_st_ok N n st" unfolding join_rel_def by blast
  then have "join_rel N n (join_pool i pool) (fold join_pool is (join_pool i pool))"
    using Cons.IH Cons.prems(2) by simp
  with j show ?case unfolding fold_simps by (rule join_rel_trans)
qed

definition pools_flat :: "(nat \<times> idx_st list) list \<Rightarrow> idx_st multiset" where
  "pools_flat m = mset (concat (map snd m))"

lemma pools_flat_put:
  assumes "om_ok m"
  shows "pools_flat (om_put m k ((case om_find m k of None \<Rightarrow> [] | Some p \<Rightarrow> p) @ [st])) = add_mset st (pools_flat m)"
  using assms
proof (induction m)
  case (Cons q m)
  obtain a b where q: "q = (a, b)" by (cases q)
  show ?case
  proof (cases "k < a")
    case True
    with Cons.prems q have "om_find (q # m) k = None" by (force simp: om_find_None om_ok_Cons)
    with True q show ?thesis by (simp add: pools_flat_def)
  next
    case False
    with Cons q show ?thesis by (auto simp: pools_flat_def om_ok_Cons)
  qed
qed (simp add: pools_flat_def)

lemma pools_of_law:
  "om_ok (pools_of sts) \<and> pools_flat (pools_of sts) = mset sts \<and>
   (\<forall>(n, pool) \<in> set (pools_of sts). \<forall>st \<in> set pool. length st = n)"
proof -
  have "om_ok m' \<and> pools_flat m' = pools_flat m + mset sts \<and> (\<forall>(n, pool) \<in> set m'. \<forall>st \<in> set pool. length st = n)"
    if "m' = fold (\<lambda>st pools. om_put pools (length st)
          ((case om_find pools (length st) of None \<Rightarrow> [] | Some p \<Rightarrow> p) @ [st])) sts m"
      "om_ok m" "\<forall>(n, pool) \<in> set m. \<forall>st \<in> set pool. length st = n" for m m'
    using that
  proof (induction sts arbitrary: m)
    case (Cons st sts)
    let ?p = "(case om_find m (length st) of None \<Rightarrow> [] | Some p \<Rightarrow> p) @ [st]"
    let ?m = "om_put m (length st) ?p"
    have "\<forall>st' \<in> set ?p. length st' = length st"
    proof (cases "om_find m (length st)")
      case (Some pool)
      with Cons.prems(3) have "\<forall>st' \<in> set pool. length st' = length st" by (auto dest: om_find_key)
      with Some show ?thesis by simp
    qed simp
    moreover have "length st' = n" if "(n, pool) \<in> set m" "st' \<in> set pool" for n pool st'
      using that Cons.prems(3) by blast
    ultimately have "\<forall>(n, pool) \<in> set ?m. \<forall>st \<in> set pool. length st = n"
      using Cons.prems(2) by (auto simp: om_put_in simp del: set_append)
    from Cons.IH[OF _ _ this] Cons.prems pools_flat_put[OF Cons.prems(2), of "length st" st] show ?case by simp
  qed auto
  from this[of "pools_of sts" "[]"] show ?thesis by (simp add: pools_of_def pools_flat_def)
qed

interpretation join: optimization optimize_sts_join sts_ok any_walks sts_size
proof unfold_locales
  fix G sts assume G: "idx_ok G" and ok: "sts_ok (length G) sts"
  let ?N = "length G"
  let ?pools = "pools_of sts"
  let ?f = "\<lambda>(n, pool). fold join_pool [0..<n] pool"
  let ?out = "concat (map ?f ?pools)"
  note P = pools_of_law[of sts]
  have flat: "mset (concat (map snd ?pools)) = mset sts" using P by (simp add: pools_flat_def)
  then have mem: "set (concat (map snd ?pools)) = set sts" by (rule mset_eq_setD)
  have rel: "join_rel ?N n pool (?f (n, pool))" if "(n, pool) \<in> set ?pools" for n pool
  proof -
    have "\<forall>st \<in> set pool. row_st_ok ?N n st"
    proof
      fix st assume st: "st \<in> set pool"
      with that mem have "st \<in> set sts" by force
      moreover have "length st = n" using P that st by blast
      ultimately show "row_st_ok ?N n st" using ok by (auto simp: row_st_ok_def sts_ok_def st_ok_def)
    qed
    from join_pools_law[OF this] show ?thesis by simp
  qed
  have sizes: "sts_size (concat (map ?f ps)) + length (concat (map snd ps)) \<le>
      sts_size (concat (map snd ps)) + length (concat (map ?f ps)) \<and>
      length (concat (map ?f ps)) \<le> length (concat (map snd ps))" if "set ps \<subseteq> set ?pools" for ps
    using that
  proof (induction ps)
    case (Cons p ps)
    obtain n pool where p: "p = (n, pool)" by (cases p)
    with rel[of n pool] Cons.prems have "join_rel ?N n pool (?f (n, pool))" by simp
    with Cons p show ?case by (auto simp: join_rel_def sts_size_def)
  qed (simp add: sts_size_def)
  have same: "sts_size (concat (map snd ?pools)) = sts_size sts" "length (concat (map snd ?pools)) = length sts"
    using flat by (simp add: sts_size_mset, metis size_mset)
  have size: "sts_size ?out + length sts \<le> sts_size sts + length ?out" "length ?out \<le> length sts"
    using sizes[of ?pools] unfolding same by simp_all
  have "st_ok ?N st" if st: "st \<in> set ?out" for st
  proof -
    from st obtain n pool where p: "(n, pool) \<in> set ?pools" "st \<in> set (?f (n, pool))" by auto
    with rel[OF p(1)] have r: "row_st_ok ?N n st" by (auto simp: join_rel_def)
    from p rel[OF p(1)] have "pool \<noteq> []" by (auto simp: join_rel_def)
    then obtain st0 where "st0 \<in> set pool" by (meson list.set_sel(1))
    with p(1) P mem ok have "2 \<le> n \<and> ?N * n < 2 ^ 32" by (fastforce simp: sts_ok_def st_ok_def)
    with r show ?thesis by (simp add: row_st_ok_def st_ok_def)
  qed
  then have "sts_ok ?N ?out" by (simp add: sts_ok_def)
  moreover have "any_walks E ?out" if "any_walks E sts" for E
  proof -
    from that obtain st where st: "st \<in> set sts" "walks E st" by (auto simp: any_walks_def)
    with mem obtain n pool where p: "(n, pool) \<in> set ?pools" "st \<in> set pool" by (fastforce simp: in_concat_map)
    with rel[OF p(1)] obtain st' where st': "st' \<in> set (?f (n, pool))" "list_all2 (\<lambda>A B. set A \<subseteq> set B) st st'"
      unfolding join_rel_def by blast
    have "st \<noteq> []" using st(1) ok by (auto simp: sts_ok_def st_ok_def)
    with st'(2) obtain A As B Bs where s: "st = A # As" "st' = B # Bs" "set A \<subseteq> set B"
      "list_all2 (\<lambda>A B. set A \<subseteq> set B) As Bs" by (cases st; cases st') auto
    then have "list_all2 (\<subseteq>) (map set As) (map set Bs)" by (simp add: list.rel_map)
    with st(2) s(1-3) have "walks E st'" unfolding walks_def by (auto dest: st_walk_mono)
    with st'(1) p(1) show ?thesis unfolding any_walks_def by force
  qed
  ultimately show "\<exists>c y. optimize_sts_join sts G = Inr (c, y) \<and> sts_ok (length G) y \<and>
      sts_size y \<le> sts_size sts \<and> (c \<longrightarrow> sts_size y < sts_size sts) \<and>
      (\<forall>E \<subseteq> idx_edges G. any_walks E sts \<longrightarrow> any_walks E y)"
    using size unfolding optimize_sts_join_def Let_def
    by (intro exI[of _ "length sts \<noteq> length ?out"] exI[of _ ?out]) auto
qed

subsection \<open>The loop\<close>

interpretation r1: two_optimizations optimize_sts_nop optimize_sts_remove_emptyset sts_ok any_walks sts_size
  by unfold_locales

interpretation r2: two_optimizations "then_opt optimize_sts_nop optimize_sts_remove_emptyset"
    optimize_sts_remove_duplicates sts_ok any_walks sts_size
  by unfold_locales

interpretation r3: two_optimizations optimize_sts_join "each_opt local_opts" sts_ok any_walks sts_size
  by unfold_locales

interpretation globals: optimization global_opts sts_ok any_walks sts_size
  unfolding global_opts_def by unfold_locales

interpretation r4: two_optimizations "then_opt optimize_sts_join (each_opt local_opts)" global_opts
    sts_ok any_walks sts_size
  by unfold_locales

interpretation round: optimization opt_round sts_ok any_walks sts_size
  unfolding opt_round_def by unfold_locales

lemma optimize_sts_law:
  assumes "idx_ok G" "sts_ok (length G) sts"
  obtains out where "optimize_sts sts G = Some (Inr out)" "sts_ok (length G) out"
    "\<And>E. E \<subseteq> idx_edges G \<Longrightarrow> any_walks E sts \<Longrightarrow> any_walks E out"
  using round.loop_returns[OF assms] unfolding optimize_sts_def by blast

end
