(* ===== verification/MinCutGreedy.thy ===== *)
theory MinCutGreedy
  imports STOptSound
begin

text \<open>
  \<open>MinCutGreedy::run\<close> of \<open>src/include/clou/MinCutGreedy.h\<close> over the data of
  \<open>src/include/clou/MinCutBase.h\<close>: the nodes are numbered, the waypoint lists simplified, and
  then one cut per waypoint list is recomputed in turn until nothing changes. When a set of
  cuts comes back, or on a timeout, the loop stops replacing cuts and only adds to them.
  \<open>timeout k\<close> stands for the comparison with the clock in iteration \<open>k\<close>.
\<close>

subsection \<open>State\<close>

record 'n min_cut =
  mc_G :: "('n \<times> ('n \<times> nat) list) list"
  mc_sts :: "'n list list list"
  mc_cut_edges :: "('n \<times> 'n) list"

definition add_st :: "'n list list \<Rightarrow> 'n min_cut \<Rightarrow> 'n min_cut" where
  "add_st groups mc = mc\<lparr>mc_sts := mc_sts mc @ [groups]\<rparr>"

definition add_st_init :: "('n::linorder) list list \<Rightarrow> 'n min_cut \<Rightarrow> 'n min_cut res" where
  "add_st_init init_st mc =
     bindr (map_res (\<lambda>init_set. assertr (length init_set \<ge> 1) (Inr (os_of init_set))) init_st) (\<lambda>st.
     assertr (length st \<ge> 2) (Inr (mc\<lparr>mc_sts := mc_sts mc @ [st]\<rparr>)))"

definition getNodes :: "('n::linorder) min_cut \<Rightarrow> 'n list" where
  "getNodes mc = os_of (concat (map (\<lambda>(src, ds). src # map fst ds) (mc_G mc)))"

definition node_to_idx :: "('n::linorder) list \<Rightarrow> 'n \<Rightarrow> nat res" where
  "node_to_idx nodes node =
     (let i = length (takeWhile (\<lambda>x. x < node) nodes)
      in assertr (i < length nodes \<and> nodes ! i = node) (Inr i))"

definition idx_to_node :: "'n list \<Rightarrow> nat \<Rightarrow> 'n res" where
  "idx_to_node nodes idx = assertr (idx < length nodes) (Inr (nodes ! idx))"

definition idx_row :: "('n::linorder) list \<Rightarrow> 'n \<times> ('n \<times> nat) list \<Rightarrow> dsts list \<Rightarrow> dsts list res" where
  "idx_row nodes p G =
     bindr (node_to_idx nodes (fst p)) (\<lambda>isrc.
     foldr_res (\<lambda>(dst, w) G. bindr (node_to_idx nodes dst) (\<lambda>idst.
         Inr (G[isrc := om_put (G ! isrc) idst w]))) (snd p) G)"

definition idx_graph :: "('n::linorder) list \<Rightarrow> 'n min_cut \<Rightarrow> dsts list res" where
  "idx_graph nodes mc = foldr_res (idx_row nodes) (mc_G mc) (replicate (length nodes) [])"

definition idx_sts :: "('n::linorder) list \<Rightarrow> 'n min_cut \<Rightarrow> idx_st list res" where
  "idx_sts nodes mc =
     map_res (map_res (\<lambda>way. bindr (map_res (node_to_idx nodes) way) (\<lambda>is. Inr (os_of is)))) (mc_sts mc)"

subsection \<open>One cut\<close>

datatype mode = Replace | Augment

type_synonym idx_cut = "(nat \<times> nat) list"

definition put_back :: "dsts list \<Rightarrow> nat \<times> nat \<Rightarrow> dsts list \<Rightarrow> dsts list res" where
  "put_back OrigG e G =
     (if \<not> (fst e < length OrigG \<and> fst e < length G) then Inl Bad_index
      else case om_find (OrigG ! fst e) (snd e) of
        None \<Rightarrow> Inl Bad_index
      | Some w \<Rightarrow> assertr (om_find (G ! fst e) (snd e) = None)
                    (Inr (G[fst e := om_put (G ! fst e) (snd e) w])))"

definition remove_edge :: "mode \<Rightarrow> nat \<times> nat \<Rightarrow> dsts list \<Rightarrow> dsts list res" where
  "remove_edge mode e G =
     (if \<not> fst e < length G then Inl Bad_index
      else assertr (mode = Replace \<longrightarrow> om_find (G ! fst e) (snd e) \<noteq> None)
             (Inr (G[fst e := om_erase (G ! fst e) (snd e)])))"

text \<open>\<open>std::unique\<close> without the resize: the elements after the new end keep their values.\<close>

definition std_unique :: "'a list \<Rightarrow> 'a list" where
  "std_unique xs = (let u = remdups_adj xs in u @ drop (length u) xs)"

definition cut_step :: "dsts list \<Rightarrow> mode \<Rightarrow> idx_st \<Rightarrow> idx_cut \<Rightarrow> dsts list \<Rightarrow>
    (dsts list \<times> idx_cut \<times> bool) run" where
  "cut_step OrigG mode st oldcut G =
     bindo (Some (if mode = Replace then foldr_res (put_back OrigG) oldcut G else Inr G)) (\<lambda>G1.
     bindo (ford_fulkerson_multi G1 st) (\<lambda>newcut_tmp.
     let newcut = std_unique (sort (if mode = Augment then newcut_tmp @ oldcut else newcut_tmp))
     in bindo (Some (foldr_res (remove_edge mode) newcut G1)) (\<lambda>G2.
        Some (Inr (G2, newcut, oldcut \<noteq> newcut)))))"

fun cut_pass :: "dsts list \<Rightarrow> mode \<Rightarrow> idx_st list \<Rightarrow> idx_cut list \<Rightarrow> dsts list \<Rightarrow>
    (dsts list \<times> idx_cut list \<times> bool) run" where
  "cut_pass OrigG mode (st # sts) (c # cuts) G =
     bindo (cut_step OrigG mode st c G) (\<lambda>(G', c', changed).
     bindo (cut_pass OrigG mode sts cuts G') (\<lambda>(G'', cuts', changed').
     Some (Inr (G'', c' # cuts', changed \<or> changed'))))"
| "cut_pass OrigG mode _ _ G = Some (Inr (G, [], False))"

subsection \<open>The loop\<close>

definition next_mode :: "bool \<Rightarrow> mode \<Rightarrow> bool \<Rightarrow> idx_cut list \<Rightarrow> idx_cut list set \<Rightarrow>
    (mode \<times> idx_cut list set) res" where
  "next_mode timed_out mode changed cuts cuts_hist =
     (if \<not> changed then Inr (mode, cuts_hist)
      else if cuts \<in> cuts_hist then assertr (mode = Replace) (Inr (Augment, cuts_hist))
      else Inr (if timed_out then Augment else mode, insert cuts cuts_hist))"

definition check_redundant :: "idx_cut list \<Rightarrow> unit res" where
  "check_redundant cuts =
     (let cutset = sort (concat cuts)
      in assertr (length cutset = length (std_unique cutset)) (Inr ()))"

partial_function (option) cut_loop :: "(nat \<Rightarrow> bool) \<Rightarrow> dsts list \<Rightarrow> idx_st list \<Rightarrow> mode \<Rightarrow>
    idx_cut list set \<Rightarrow> nat \<Rightarrow> idx_cut list \<Rightarrow> dsts list \<Rightarrow> idx_cut list run" where
  "cut_loop timeout OrigG sts mode cuts_hist k cuts G =
     bindo (cut_pass OrigG mode sts cuts G) (\<lambda>(G', cuts', changed).
     bindo (Some (next_mode (timeout k) mode changed cuts' cuts_hist)) (\<lambda>(mode', cuts_hist').
     bindo (Some (check_redundant cuts')) (\<lambda>_.
     if changed then cut_loop timeout OrigG sts mode' cuts_hist' (Suc k) cuts' G'
     else Some (Inr cuts'))))"

declare cut_loop.simps [code]

definition run :: "(nat \<Rightarrow> bool) \<Rightarrow> ('n::linorder) min_cut \<Rightarrow> 'n min_cut run" where
  "run timeout mc =
     (let nodes = getNodes mc
      in bindo (Some (idx_graph nodes mc)) (\<lambda>G.
         bindo (Some (idx_sts nodes mc)) (\<lambda>sts0.
         bindo (optimize_sts sts0 G) (\<lambda>sts.
         bindo (cut_loop timeout G sts Replace {} 0 (replicate (length sts) []) G) (\<lambda>cuts.
         bindo (Some (map_res (\<lambda>(s, d). bindr (idx_to_node nodes s) (\<lambda>a.
                   bindr (idx_to_node nodes d) (\<lambda>b. Inr (a, b)))) (concat cuts))) (\<lambda>es.
         Some (Inr (mc\<lparr>mc_cut_edges := mc_cut_edges mc @ es\<rparr>))))))))"

subsection \<open>The double check\<close>

text \<open>\<open>checkCutST\<close>: follow the particles through the waypoint sets; \<open>assert(w > 0)\<close> of the
  successor function is checked for the rows it reads.\<close>

definition check_succs :: "(nat \<times> nat) set \<Rightarrow> dsts list \<Rightarrow> nat \<Rightarrow> nat list" where
  "check_succs C G u = filter (\<lambda>v. (u, v) \<notin> C) (idx_succs G u)"

fun check_particles :: "(nat \<times> nat) set \<Rightarrow> dsts list \<Rightarrow> nat list \<Rightarrow> nat list list \<Rightarrow> nat list res" where
  "check_particles C G S [] = Inr S"
| "check_particles C G S (T # Ts) =
     bindr (dfs_push Bad_index [0..<length G] (check_succs C G) (rev S) {} Map.empty) (\<lambda>(reach, _).
     assertr (\<forall>u \<in> set S \<union> reach. \<forall>(v, w) \<in> set (G ! u). w > 0)
       (check_particles C G (filter (\<lambda>t. t \<in> reach) T) Ts))"

definition checkCutST :: "nat list list \<Rightarrow> (nat \<times> nat) set \<Rightarrow> dsts list \<Rightarrow> unit res" where
  "checkCutST st C G =
     assertr (length st \<ge> 2)
       (bindr (check_particles C G (hd st) (tl st)) (\<lambda>S. if S \<noteq> [] then Inl Aborted else Inr ()))"

definition checkCut :: "idx_cut list \<Rightarrow> idx_st list \<Rightarrow> dsts list \<Rightarrow> unit res" where
  "checkCut cuts sts G = foldr_res (\<lambda>st _. checkCutST st (set (concat cuts)) G) sts ()"

end
