(* ===== verification/MinCutSound.thy ===== *)
theory MinCutSound
  imports MinCutGreedy
begin

text \<open>
  Correctness of \<open>MinCutGreedy::run\<close>: the working graph is always the input graph without the
  edges of the current cuts; the loop stops; and when it does the cuts separate every waypoint
  list it was given.
\<close>

subsection \<open>Graphs without some of their edges\<close>

definition minus_edges :: "dsts list \<Rightarrow> (nat \<times> nat) set \<Rightarrow> dsts list" where
  "minus_edges G C = map (\<lambda>u. filter (\<lambda>(v, w). (u, v) \<notin> C) (G ! u)) [0..<length G]"

definition graph_ok :: "dsts list \<Rightarrow> bool" where
  "graph_ok G \<longleftrightarrow> length G < 2 ^ 32 \<and>
     (\<forall>r \<in> set G. om_ok r \<and> (\<forall>(v, w) \<in> set r. v < length G \<and> 0 < w \<and> w < MAX_WEIGHT))"

lemma length_minus_edges [simp]: "length (minus_edges G C) = length G"
  by (simp add: minus_edges_def)

lemma nth_minus_edges [simp]:
  "u < length G \<Longrightarrow> minus_edges G C ! u = filter (\<lambda>(v, w). (u, v) \<notin> C) (G ! u)"
  by (simp add: minus_edges_def)

lemma minus_edges_empty [simp]: "minus_edges G {} = G"
  by (rule nth_equalityI) auto

lemma idx_edges_iff: "(u, v) \<in> idx_edges G \<longleftrightarrow> u < length G \<and> v \<in> fst ` set (G ! u)"
  by (auto simp: idx_edges_def idx_succs_def)

lemma idx_edges_minus: "idx_edges (minus_edges G C) = idx_edges G - C"
  by (force simp: idx_edges_iff)

lemma finite_idx_edges: "finite (idx_edges G)"
proof -
  have "idx_edges G \<subseteq> (\<Union>u < length G. (\<lambda>p. (u, fst p)) ` set (G ! u))" by (force simp: idx_edges_iff)
  then show ?thesis by (rule finite_subset) auto
qed

lemma graph_ok_minus: "graph_ok G \<Longrightarrow> graph_ok (minus_edges G C)"
  unfolding graph_ok_def by (auto simp: minus_edges_def om_ok_filter)

lemma graph_ok_idx: "graph_ok G \<Longrightarrow> idx_ok G"
  by (fastforce simp: graph_ok_def idx_ok_def)

lemma graph_ok_row: "graph_ok G \<Longrightarrow> u < length G \<Longrightarrow> om_ok (G ! u)"
  by (simp add: graph_ok_def)

lemma filter_om_put:
  assumes "om_ok m" "(k, v) \<in> set m" "\<not> P (k, v)"
  shows "om_put (filter P m) k v = filter (\<lambda>p. p = (k, v) \<or> P p) m"
  using assms
proof (induction m)
  case (Cons q m)
  obtain a b where q: "q = (a, b)" by (cases q)
  show ?case
  proof (cases "k = a")
    case True
    with Cons.prems q have "b = v" by (auto simp: om_ok_Cons)
    have "p \<noteq> (k, v)" if "p \<in> set m" for p using that Cons.prems(1) q True by (force simp: om_ok_Cons)
    then have same: "filter (\<lambda>p. p = (k, v) \<or> P p) m = filter P m" by (auto intro: filter_cong)
    have "\<forall>x \<in> fst ` set (filter P m). k < x" using Cons.prems(1) q True by (auto simp: om_ok_Cons)
    then have "om_put (filter P m) k v = (k, v) # filter P m" by (cases "filter P m") auto
    with True \<open>b = v\<close> Cons.prems q same show ?thesis by simp
  next
    case False
    with Cons.prems q have "(k, v) \<in> set m" "a < k" by (force simp: om_ok_Cons)+
    with Cons q False show ?thesis by (auto simp: om_ok_Cons)
  qed
qed simp

lemma minus_edges_upd:
  assumes "u < length G" "r = filter (\<lambda>(v, w). (u, v) \<notin> C') (G ! u)" "\<And>a b. a \<noteq> u \<Longrightarrow> (a, b) \<in> C \<longleftrightarrow> (a, b) \<in> C'"
  shows "(minus_edges G C)[u := r] = minus_edges G C'"
proof (rule nth_equalityI)
  fix i assume "i < length ((minus_edges G C)[u := r])"
  then have "i < length G" by simp
  with assms show "(minus_edges G C)[u := r] ! i = minus_edges G C' ! i"
    by (cases "i = u") (auto intro!: filter_cong)
qed simp

lemma put_back_law:
  assumes G: "graph_ok G" and e: "e \<in> idx_edges G" "e \<in> C"
  shows "put_back G e (minus_edges G C) = Inr (minus_edges G (C - {e}))"
proof -
  obtain u v where uv: "e = (u, v)" by (cases e)
  with e have u: "u < length G" "v \<in> fst ` set (G ! u)" by (auto simp: idx_edges_iff)
  then obtain w where w: "(v, w) \<in> set (G ! u)" by force
  have ok: "om_ok (G ! u)" using G u(1) by (rule graph_ok_row)
  let ?P = "\<lambda>(v, w). (u, v) \<notin> C"
  have find: "om_find (G ! u) v = Some w" using ok w by (simp add: om_find_in)
  have none: "om_find (filter ?P (G ! u)) v = None" using e(2) uv by (auto simp: om_find_None)
  have "w' = w" if "(v, w') \<in> set (G ! u)" for w' using that ok w om_find_in by (metis option.inject)
  then have "p = (v, w) \<or> ?P p \<longleftrightarrow> (u, fst p) \<notin> C - {(u, v)}" if "p \<in> set (G ! u)" for p
    using that e(2) uv by (cases p) auto
  then have "om_put (filter ?P (G ! u)) v w = filter (\<lambda>p. (u, fst p) \<notin> C - {(u, v)}) (G ! u)"
    using filter_om_put[OF ok w, of ?P] e(2) uv by (simp cong: filter_cong)
  then have row: "om_put (filter ?P (G ! u)) v w = filter (\<lambda>(v', w). (u, v') \<notin> C - {(u, v)}) (G ! u)"
    unfolding split_beta .
  have "(minus_edges G C)[u := om_put (filter ?P (G ! u)) v w] = minus_edges G (C - {(u, v)})"
    by (rule minus_edges_upd) (auto simp: u row)
  with u(1) uv find none show ?thesis by (simp add: put_back_def)
qed

lemma remove_edge_law:
  assumes e: "e \<in> idx_edges G" "mode = Replace \<longrightarrow> e \<notin> C"
  shows "remove_edge mode e (minus_edges G C) = Inr (minus_edges G (insert e C))"
proof -
  obtain u v where uv: "e = (u, v)" by (cases e)
  with e have u: "u < length G" "v \<in> fst ` set (G ! u)" by (auto simp: idx_edges_iff)
  let ?r = "filter (\<lambda>(v, w). (u, v) \<notin> C) (G ! u)"
  have "om_find ?r v \<noteq> None" if "mode = Replace"
  proof -
    from u(2) obtain w where "(v, w) \<in> set (G ! u)" by force
    with that e(2) uv have "(v, w) \<in> set ?r" by auto
    then show ?thesis by (auto simp: om_find_None intro: rev_image_eqI)
  qed
  moreover have "(minus_edges G C)[u := om_erase ?r v] = minus_edges G (insert (u, v) C)"
    by (rule minus_edges_upd) (auto simp: u om_erase_def intro!: filter_cong)
  ultimately show ?thesis using u(1) uv by (simp add: remove_edge_def)
qed

lemma put_back_all:
  assumes "graph_ok G" "distinct es" "set es \<subseteq> idx_edges G" "set es \<subseteq> C"
  shows "foldr_res (put_back G) es (minus_edges G C) = Inr (minus_edges G (C - set es))"
  using assms(2-)
proof (induction es arbitrary: C)
  case (Cons e es)
  have "C - insert e (set es) = C - {e} - set es" by auto
  moreover have "foldr_res (put_back G) es (minus_edges G (C - {e})) = Inr (minus_edges G (C - {e} - set es))"
    using Cons.prems by (intro Cons.IH) auto
  ultimately show ?case using Cons.prems put_back_law[OF assms(1), of e C] by simp
qed simp

lemma remove_all:
  assumes "distinct es" "set es \<subseteq> idx_edges G" "mode = Replace \<longrightarrow> set es \<inter> C = {}"
  shows "foldr_res (remove_edge mode) es (minus_edges G C) = Inr (minus_edges G (C \<union> set es))"
  using assms
proof (induction es arbitrary: C)
  case (Cons e es)
  have "foldr_res (remove_edge mode) es (minus_edges G (insert e C)) = Inr (minus_edges G (insert e C \<union> set es))"
    using Cons.prems by (intro Cons.IH) auto
  then show ?case using Cons.prems remove_edge_law[of e G mode C] by simp
qed simp

subsection \<open>One cut\<close>

lemma std_unique_distinct: "distinct xs \<Longrightarrow> std_unique xs = xs"
  by (simp add: std_unique_def remdups_adj_distinct)

lemma sort_os: "os_ok xs \<Longrightarrow> sort xs = xs"
  by (simp add: os_ok_def sort_key_id_if_sorted strict_sorted_iff)

lemma cut_unique: "distinct xs \<Longrightarrow> std_unique (sort xs) = sort xs \<and> os_ok (sort xs)"
  by (simp add: std_unique_distinct os_ok_def strict_sorted_iff)

lemma walks_separates: "separates E C (map set st) \<longleftrightarrow> \<not> walks (E - C) st" if "st \<noteq> []"
  using that by (cases st) (auto simp: separates_def walks_def)

lemma instance_of_minus:
  assumes "graph_ok G" "st_ok (length G) st"
  shows "instance_ok (minus_edges G C) st"
  using graph_ok_minus[OF assms(1), of C] assms(2)
  by (auto simp: instance_ok_def graph_ok_def st_ok_def set_ok_def)

lemma g_edges_idx: "length G < 2 ^ 32 \<Longrightarrow> g_edges (ivg G) = idx_edges G"
  unfolding set_eq_iff split_paired_All by (simp add: g_edges_def ivg_def ivg_nodes_def ivg_row_def idx_edges_iff cong: conj_cong)

lemma ford_fulkerson_minus:
  assumes "graph_ok G" "st_ok (length G) st"
  obtains N where "ford_fulkerson_multi (minus_edges G C) st = Some (Inr N)" "os_ok N"
    "set N \<subseteq> idx_edges G - C" "\<not> walks (idx_edges G - (C \<union> set N)) st"
proof -
  have ne: "st \<noteq> []" using assms(2) by (auto simp: st_ok_def)
  have len: "length (minus_edges G C) < 2 ^ 32" using assms(1) by (simp add: graph_ok_def)
  obtain N where N: "ford_fulkerson_multi (minus_edges G C) st = Some (Inr N)" "os_ok N" "set N \<subseteq> idx_edges G - C"
    "separates (idx_edges G - C) (set N) (map set st)"
    using ford_fulkerson_multi_separates[OF instance_of_minus[OF assms], of C]
    unfolding g_edges_idx[OF len] idx_edges_minus by blast
  moreover have "idx_edges G - C - set N = idx_edges G - (C \<union> set N)" by auto
  ultimately show ?thesis using that walks_separates[OF ne] by simp
qed

lemma cut_step_law:
  assumes G: "graph_ok G" and st: "st_ok (length G) st"
    and c: "os_ok c" "set c \<subseteq> idx_edges G" "set c \<inter> D = {}"
  shows "\<exists>c'. cut_step G mode st c (minus_edges G (D \<union> set c)) = Some (Inr (minus_edges G (D \<union> set c'), c', c \<noteq> c')) \<and>
     os_ok c' \<and> set c' \<subseteq> idx_edges G \<and> set c' \<inter> D = {} \<and> \<not> walks (idx_edges G - (D \<union> set c')) st \<and>
     (mode = Augment \<longrightarrow> set c \<subseteq> set c')"
proof (cases mode)
  case Replace
  have "D \<union> set c - set c = D" using c(3) by auto
  with put_back_all[OF G os_ok_distinct[OF c(1)] c(2), of "D \<union> set c"]
  have restored: "foldr_res (put_back G) c (minus_edges G (D \<union> set c)) = Inr (minus_edges G D)" by simp
  obtain N where N: "ford_fulkerson_multi (minus_edges G D) st = Some (Inr N)" "os_ok N"
    "set N \<subseteq> idx_edges G - D" "\<not> walks (idx_edges G - (D \<union> set N)) st"
    using ford_fulkerson_minus[OF G st] by blast
  have u: "std_unique (sort N) = N" using N(2) by (simp add: sort_os std_unique_distinct os_ok_distinct)
  have rem: "foldr_res (remove_edge Replace) N (minus_edges G D) = Inr (minus_edges G (D \<union> set N))"
    using N(2,3) by (intro remove_all) (auto simp: os_ok_distinct)
  show ?thesis using N restored u rem Replace
    by (intro exI[of _ N]) (auto simp: cut_step_def)
next
  case Augment
  obtain N where N: "ford_fulkerson_multi (minus_edges G (D \<union> set c)) st = Some (Inr N)" "os_ok N"
    "set N \<subseteq> idx_edges G - (D \<union> set c)" "\<not> walks (idx_edges G - (D \<union> set c \<union> set N)) st"
    using ford_fulkerson_minus[OF G st] by blast
  let ?c = "sort (N @ c)"
  have dist: "distinct (N @ c)" using N(2,3) c(1) by (auto simp: os_ok_distinct)
  have u: "std_unique ?c = ?c" "os_ok ?c" using cut_unique[OF dist] by auto
  have set: "set ?c = set N \<union> set c" by simp
  have eq: "D \<union> set c \<union> set ?c = D \<union> set ?c" "D \<union> set c \<union> set N = D \<union> set ?c" using set by auto
  have "foldr_res (remove_edge Augment) ?c (minus_edges G (D \<union> set c)) = Inr (minus_edges G (D \<union> set c \<union> set ?c))"
    using N(3) c(2) dist by (intro remove_all) auto
  then have rem: "foldr_res (remove_edge Augment) ?c (minus_edges G (D \<union> set c)) = Inr (minus_edges G (D \<union> set ?c))"
    unfolding eq(1) .
  have "cut_step G mode st c (minus_edges G (D \<union> set c)) = Some (Inr (minus_edges G (D \<union> set ?c), ?c, c \<noteq> ?c))"
    using N(1) u(1) rem Augment unfolding cut_step_def by (simp add: Let_def)
  moreover have "\<not> walks (idx_edges G - (D \<union> set ?c)) st" using N(4) unfolding eq(2) .
  ultimately show ?thesis using u(2) N(3) c(2,3) by (intro exI[of _ ?c]) auto
qed

subsection \<open>One pass\<close>

text \<open>Cuts: sorted, made of edges of the graph, and disjoint from each other and from \<open>D\<close>.\<close>

definition cuts_ok :: "dsts list \<Rightarrow> (nat \<times> nat) set \<Rightarrow> idx_cut list \<Rightarrow> bool" where
  "cuts_ok G D cuts \<longleftrightarrow> (\<forall>c \<in> set cuts. os_ok c) \<and> set (concat cuts) \<subseteq> idx_edges G - D \<and> distinct (concat cuts)"

lemma cuts_ok_Cons:
  "cuts_ok G D (c # cuts) \<longleftrightarrow> os_ok c \<and> set c \<subseteq> idx_edges G \<and> set c \<inter> D = {} \<and> cuts_ok G (D \<union> set c) cuts"
  by (auto simp: cuts_ok_def os_ok_distinct)

lemma cuts_ok_swap:
  "cuts_ok G D (c # cuts) \<Longrightarrow> set c \<inter> set (concat cuts) = {} \<and> cuts_ok G D cuts"
  by (auto simp: cuts_ok_def)

lemma cut_pass_law:
  assumes G: "graph_ok G" and "length sts = length cuts" "\<forall>st \<in> set sts. st_ok (length G) st" "cuts_ok G D cuts"
  shows "\<exists>cuts'. cut_pass G mode sts cuts (minus_edges G (D \<union> set (concat cuts))) =
       Some (Inr (minus_edges G (D \<union> set (concat cuts')), cuts', cuts \<noteq> cuts')) \<and>
     length cuts' = length cuts \<and> cuts_ok G D cuts' \<and>
     (cuts' = cuts \<longrightarrow> (\<forall>st \<in> set sts. \<not> walks (idx_edges G - (D \<union> set (concat cuts))) st)) \<and>
     (mode = Augment \<longrightarrow> list_all2 (\<lambda>c c'. set c \<subseteq> set c') cuts cuts')"
  using assms(2-)
proof (induction sts cuts arbitrary: D rule: list_induct2)
  case (Cons st sts c cuts)
  let ?R = "D \<union> set (concat cuts)"
  have st: "st_ok (length G) st" "\<forall>st \<in> set sts. st_ok (length G) st" using Cons.prems(1) by auto
  have c: "os_ok c" "set c \<subseteq> idx_edges G" "set c \<inter> ?R = {}"
    using Cons.prems(2) by (auto simp: cuts_ok_def)
  have eq1: "D \<union> set (concat (c # cuts)) = ?R \<union> set c" by auto
  from cut_step_law[OF G st(1) c, of mode] obtain c' where c':
    "cut_step G mode st c (minus_edges G (?R \<union> set c)) = Some (Inr (minus_edges G (?R \<union> set c'), c', c \<noteq> c'))"
    "os_ok c'" "set c' \<subseteq> idx_edges G" "set c' \<inter> ?R = {}" "\<not> walks (idx_edges G - (?R \<union> set c')) st"
    "mode = Augment \<longrightarrow> set c \<subseteq> set c'" by blast
  have "cuts_ok G (D \<union> set c') cuts" using Cons.prems(2) c'(3,4) by (auto simp: cuts_ok_def)
  from Cons.IH[OF st(2) this] obtain cuts' where r:
    "cut_pass G mode sts cuts (minus_edges G (D \<union> set c' \<union> set (concat cuts))) =
       Some (Inr (minus_edges G (D \<union> set c' \<union> set (concat cuts')), cuts', cuts \<noteq> cuts'))"
    "length cuts' = length cuts" "cuts_ok G (D \<union> set c') cuts'"
    "cuts' = cuts \<longrightarrow> (\<forall>st \<in> set sts. \<not> walks (idx_edges G - (D \<union> set c' \<union> set (concat cuts))) st)"
    "mode = Augment \<longrightarrow> list_all2 (\<lambda>c c'. set c \<subseteq> set c') cuts cuts'" by blast
  have eq2: "?R \<union> set c' = D \<union> set c' \<union> set (concat cuts)"
    "D \<union> set (concat (c' # cuts')) = D \<union> set c' \<union> set (concat cuts')" by auto
  have "cut_pass G mode (st # sts) (c # cuts) (minus_edges G (D \<union> set (concat (c # cuts)))) =
      Some (Inr (minus_edges G (D \<union> set (concat (c' # cuts'))), c' # cuts', c # cuts \<noteq> c' # cuts'))"
    unfolding eq1 cut_pass.simps c'(1) unfolding eq2 by (simp add: r(1) del: set_concat)
  moreover have "\<forall>st \<in> set (st # sts). \<not> walks (idx_edges G - (D \<union> set (concat (c # cuts)))) st"
    if "c' # cuts' = c # cuts"
    using c'(5) r(4) that unfolding eq1 eq2(1) by (simp add: Un_ac)
  moreover have "cuts_ok G D (c' # cuts')" using c'(2-4) r(3) by (auto simp: cuts_ok_Cons)
  ultimately show ?case using r(2,5) c'(6) by (intro exI[of _ "c' # cuts'"]) simp
qed (simp add: cuts_ok_def)

lemma check_redundant_ok: "check_redundant cuts = Inr ()"
proof -
  have "length (std_unique xs) = length xs" for xs :: "(nat \<times> nat) list"
    using remdups_adj_length[of xs] by (simp add: std_unique_def Let_def)
  then show ?thesis by (simp add: check_redundant_def Let_def)
qed

subsection \<open>The loop\<close>

lemma cuts_ok_card: "cuts_ok G {} cuts \<Longrightarrow> length (concat cuts) \<le> card (idx_edges G)"
  using finite_idx_edges[of G] card_mono[of "idx_edges G" "set (concat cuts)"]
  by (auto simp: cuts_ok_def dest: distinct_card simp del: set_concat)

lemma longer_cuts:
  assumes "list_all2 (\<lambda>c c'. set c \<subseteq> set c') cuts cuts'" "\<forall>c \<in> set cuts. os_ok c" "\<forall>c \<in> set cuts'. os_ok c"
  shows "length (concat cuts) \<le> length (concat cuts') \<and> (cuts \<noteq> cuts' \<longrightarrow> length (concat cuts) < length (concat cuts'))"
  using assms
proof (induction rule: list_all2_induct)
  case (Cons c cs c' cs')
  have d: "distinct c" "distinct c'" "os_ok c" "os_ok c'" using Cons.prems by (auto simp: os_ok_distinct)
  then have len: "length c = card (set c)" "length c' = card (set c')" by (simp_all add: distinct_card)
  have le: "length c \<le> length c'" unfolding len using Cons.hyps(1) by (simp add: card_mono)
  have "length c < length c'" if "c \<noteq> c'"
    unfolding len using that Cons.hyps(1) d os_ok_unique by (intro psubset_card_mono) auto
  with le Cons show ?case by auto
qed simp

definition cut_result :: "dsts list \<Rightarrow> idx_st list \<Rightarrow> idx_cut list run \<Rightarrow> bool" where
  "cut_result G sts r \<longleftrightarrow> (\<exists>cuts. r = Some (Inr cuts) \<and> set (concat cuts) \<subseteq> idx_edges G \<and> distinct (concat cuts) \<and>
     (\<forall>st \<in> set sts. \<not> walks (idx_edges G - set (concat cuts)) st))"

definition loop_start :: "dsts list \<Rightarrow> idx_st list \<Rightarrow> idx_cut list \<Rightarrow> bool" where
  "loop_start G sts cuts \<longleftrightarrow> graph_ok G \<and> length sts = length cuts \<and> (\<forall>st \<in> set sts. st_ok (length G) st) \<and>
     cuts_ok G {} cuts"

lemma loop_pass:
  assumes "loop_start G sts cuts"
  obtains cuts' where
    "cut_pass G mode sts cuts (minus_edges G (set (concat cuts))) =
       Some (Inr (minus_edges G (set (concat cuts')), cuts', cuts \<noteq> cuts'))"
    "loop_start G sts cuts'"
    "cuts' = cuts \<Longrightarrow> cut_result G sts (Some (Inr cuts'))"
    "mode = Augment \<Longrightarrow> cuts' \<noteq> cuts \<Longrightarrow> length (concat cuts) < length (concat cuts')"
proof -
  from assms have G: "graph_ok G" "length sts = length cuts" "\<forall>st \<in> set sts. st_ok (length G) st" "cuts_ok G {} cuts"
    by (auto simp: loop_start_def)
  from cut_pass_law[OF G, of mode] obtain cuts' where c:
    "cut_pass G mode sts cuts (minus_edges G (set (concat cuts))) =
       Some (Inr (minus_edges G (set (concat cuts')), cuts', cuts \<noteq> cuts'))"
    "length cuts' = length cuts" "cuts_ok G {} cuts'"
    "cuts' = cuts \<longrightarrow> (\<forall>st \<in> set sts. \<not> walks (idx_edges G - set (concat cuts)) st)"
    "mode = Augment \<longrightarrow> list_all2 (\<lambda>c c'. set c \<subseteq> set c') cuts cuts'" unfolding Un_empty_left by blast
  have "loop_start G sts cuts'" using G c(2,3) by (simp add: loop_start_def)
  moreover have "cut_result G sts (Some (Inr cuts'))" if "cuts' = cuts"
    using c(3,4) that by (auto simp: cut_result_def cuts_ok_def)
  moreover have "length (concat cuts) < length (concat cuts')" if "mode = Augment" "cuts' \<noteq> cuts"
    using longer_cuts[of cuts cuts'] c(3,5) G(4) that by (auto simp: cuts_ok_def)
  ultimately show ?thesis using that c(1) by blast
qed

lemma augment_loop:
  assumes "loop_start G sts cuts"
  shows "cut_result G sts (cut_loop timeout G sts Augment hist k cuts (minus_edges G (set (concat cuts)))) \<or>
     cut_loop timeout G sts Augment hist k cuts (minus_edges G (set (concat cuts))) = Some (Inl Assertion)"
  using assms
proof (induction "card (idx_edges G) - length (concat cuts)" arbitrary: cuts hist k rule: less_induct)
  case less
  obtain cuts' where c: "cut_pass G Augment sts cuts (minus_edges G (set (concat cuts))) =
       Some (Inr (minus_edges G (set (concat cuts')), cuts', cuts \<noteq> cuts'))"
    "loop_start G sts cuts'" "cuts' = cuts \<Longrightarrow> cut_result G sts (Some (Inr cuts'))"
    "cuts' \<noteq> cuts \<Longrightarrow> length (concat cuts) < length (concat cuts')"
    using loop_pass[OF less.prems, of Augment] by blast
  show ?case
  proof (cases "cuts' = cuts")
    case True
    have "cut_loop timeout G sts Augment hist k cuts (minus_edges G (set (concat cuts))) = Some (Inr cuts')"
      using c(1) True by (subst cut_loop.simps) (simp add: next_mode_def check_redundant_ok)
    with c(3)[OF True] show ?thesis by simp
  next
    case False
    have "length (concat cuts') \<le> card (idx_edges G)" using c(2) by (auto simp: loop_start_def cuts_ok_card)
    with c(4)[OF False] have dec: "card (idx_edges G) - length (concat cuts') < card (idx_edges G) - length (concat cuts)"
      by simp
    have "cut_loop timeout G sts Augment hist k cuts (minus_edges G (set (concat cuts))) =
      (if cuts' \<in> hist then Some (Inl Assertion)
       else cut_loop timeout G sts Augment (insert cuts' hist) (Suc k) cuts' (minus_edges G (set (concat cuts'))))"
      using c(1) False by (subst cut_loop.simps) (simp add: next_mode_def check_redundant_ok)
    with less.hyps[OF dec c(2), of "insert cuts' hist" "Suc k"] show ?thesis by simp
  qed
qed

lemma finite_cuts: "finite {cuts. length cuts = m \<and> cuts_ok G {} cuts}"
proof -
  let ?C = "{c. set c \<subseteq> idx_edges G \<and> distinct c}"
  have "finite ?C" using finite_idx_edges finite_subset_distinct by blast
  then have "finite {cuts. set cuts \<subseteq> ?C \<and> length cuts = m}" by (rule finite_lists_length_eq)
  moreover have "{cuts. length cuts = m \<and> cuts_ok G {} cuts} \<subseteq> {cuts. set cuts \<subseteq> ?C \<and> length cuts = m}"
    by (auto simp: cuts_ok_def os_ok_distinct)
  ultimately show ?thesis by (rule finite_subset[rotated])
qed

lemma cut_loop_returns:
  assumes "loop_start G sts cuts"
  shows "cut_result G sts (cut_loop timeout G sts Replace hist k cuts (minus_edges G (set (concat cuts)))) \<or>
     cut_loop timeout G sts Replace hist k cuts (minus_edges G (set (concat cuts))) = Some (Inl Assertion)"
  using assms
proof (induction "card ({cuts. length cuts = length sts \<and> cuts_ok G {} cuts} - hist)" arbitrary: cuts hist k
    rule: less_induct)
  case less
  let ?U = "{cuts. length cuts = length sts \<and> cuts_ok G {} cuts}"
  obtain cuts' where c: "cut_pass G Replace sts cuts (minus_edges G (set (concat cuts))) =
       Some (Inr (minus_edges G (set (concat cuts')), cuts', cuts \<noteq> cuts'))"
    "loop_start G sts cuts'" "cuts' = cuts \<Longrightarrow> cut_result G sts (Some (Inr cuts'))"
    using loop_pass[OF less.prems, of Replace] by blast
  show ?case
  proof (cases "cuts' = cuts")
    case True
    have "cut_loop timeout G sts Replace hist k cuts (minus_edges G (set (concat cuts))) = Some (Inr cuts')"
      using c(1) True by (subst cut_loop.simps) (simp add: next_mode_def check_redundant_ok)
    with c(3)[OF True] show ?thesis by simp
  next
    case False
    have eq: "cut_loop timeout G sts Replace hist k cuts (minus_edges G (set (concat cuts))) =
      cut_loop timeout G sts (if cuts' \<in> hist \<or> timeout k then Augment else Replace)
        (insert cuts' hist) (Suc k) cuts' (minus_edges G (set (concat cuts')))"
      using c(1) False by (subst cut_loop.simps) (auto simp: next_mode_def check_redundant_ok insert_absorb)
    show ?thesis
    proof (cases "cuts' \<in> hist \<or> timeout k")
      case True
      with augment_loop[OF c(2)] show ?thesis unfolding eq by simp
    next
      case fresh: False
      have "cuts' \<in> ?U" using c(2) by (auto simp: loop_start_def)
      with fresh have "card (?U - insert cuts' hist) < card (?U - hist)"
        using finite_cuts by (intro psubset_card_mono) auto
      from less.hyps[OF this c(2), of "Suc k"] fresh show ?thesis unfolding eq by simp
    qed
  qed
qed

subsection \<open>Numbering the nodes\<close>

definition idx_of :: "('n::linorder) list \<Rightarrow> 'n \<Rightarrow> nat" where
  "idx_of nodes x = length (takeWhile (\<lambda>y. y < x) nodes)"

lemma idx_of_nth: "os_ok nodes \<Longrightarrow> i < length nodes \<Longrightarrow> idx_of nodes (nodes ! i) = i"
proof -
  assume s: "os_ok nodes" and i: "i < length nodes"
  have "takeWhile (\<lambda>y. y < nodes ! i) nodes = take i nodes"
    using s i by (intro takeWhile_eq_take_P_nth) (auto simp: os_ok_def sorted_wrt_iff_nth_less)
  with i show ?thesis by (simp add: idx_of_def)
qed

lemma idx_of_in:
  assumes "os_ok nodes" "x \<in> set nodes"
  shows "idx_of nodes x < length nodes" "nodes ! idx_of nodes x = x" "node_to_idx nodes x = Inr (idx_of nodes x)"
proof -
  from assms(2) obtain i where i: "i < length nodes" "nodes ! i = x" by (auto simp: in_set_conv_nth)
  with idx_of_nth[OF assms(1) i(1)] show "idx_of nodes x < length nodes" "nodes ! idx_of nodes x = x"
    "node_to_idx nodes x = Inr (idx_of nodes x)"
    by (auto simp: node_to_idx_def idx_of_def)
qed

text \<open>A vector of maps is a store, one cell per pair of indices.\<close>

definition cell_get :: "dsts list \<Rightarrow> nat \<times> nat \<Rightarrow> nat option" where
  "cell_get G e = om_find (G ! fst e) (snd e)"

definition cell_put :: "dsts list \<Rightarrow> nat \<times> nat \<Rightarrow> nat option \<Rightarrow> dsts list" where
  "cell_put G e w = G[fst e := om_write (G ! fst e) (snd e) w]"

interpretation cells: store cell_get cell_put "\<lambda>G. length G = N \<and> (\<forall>r \<in> set G. om_ok r)" "\<lambda>e. fst e < N"
    "\<lambda>_. True" for N
proof unfold_locales
  fix G :: "dsts list" and k k' :: "nat \<times> nat" and v
  assume G: "length G = N \<and> (\<forall>r \<in> set G. om_ok r)" and k: "fst k < N"
  then have row: "om_ok (G ! fst k)" by auto
  assume "fst k' < N"
  with G k show "cell_get (cell_put G k v) k' = (if k' = k then v else cell_get G k')"
    using om.get_put[OF row, of "snd k" v "snd k'"]
    by (auto simp: cell_get_def cell_put_def nth_list_update prod_eq_iff)
next
  fix G :: "dsts list" and k :: "nat \<times> nat" and v
  assume G: "length G = N \<and> (\<forall>r \<in> set G. om_ok r)" and k: "fst k < N"
  then have "om_ok (G ! fst k)" by auto
  then have "om_ok (om_write (G ! fst k) (snd k) v)" by (rule om.valid_put) auto
  with G show "length (cell_put G k v) = N \<and> (\<forall>r \<in> set (cell_put G k v). om_ok r)"
    using set_update_subset_insert[of G "fst k" "om_write (G ! fst k) (snd k) v"] by (auto simp: cell_put_def)
qed

lemma in_fst_image: "x \<in> fst ` S \<longleftrightarrow> (\<exists>y. (x, y) \<in> S)"
  by force

definition mc_weight :: "('n::linorder) min_cut \<Rightarrow> 'n \<Rightarrow> 'n \<Rightarrow> nat option" where
  "mc_weight mc a b = (case om_find (mc_G mc) a of None \<Rightarrow> None | Some ds \<Rightarrow> om_find ds b)"

definition mc_edges :: "('n::linorder) min_cut \<Rightarrow> ('n \<times> 'n) set" where
  "mc_edges mc = {(a, b). mc_weight mc a b \<noteq> None}"

definition mc_ok :: "('n::linorder) min_cut \<Rightarrow> bool" where
  "mc_ok mc \<longleftrightarrow> om_ok (mc_G mc) \<and>
     (\<forall>(a, ds) \<in> set (mc_G mc). om_ok ds \<and> (\<forall>(b, w) \<in> set ds. 0 < w \<and> w < MAX_WEIGHT)) \<and>
     length (getNodes mc) < 2 ^ 32 \<and>
     (\<forall>st \<in> set (mc_sts mc). 2 \<le> length st \<and> length (getNodes mc) * length st < 2 ^ 32 \<and>
        (\<forall>S \<in> set st. set S \<subseteq> set (getNodes mc)))"

lemma mc_weight_in:
  assumes "mc_ok mc"
  shows "mc_weight mc a b = Some w \<longleftrightarrow> (\<exists>ds. (a, ds) \<in> set (mc_G mc) \<and> (b, w) \<in> set ds)"
proof -
  have "om_ok (mc_G mc)" and rows: "\<And>a ds. (a, ds) \<in> set (mc_G mc) \<Longrightarrow> om_ok ds"
    using assms by (auto simp: mc_ok_def)
  note rows = this(2)
  show ?thesis
  proof (cases "om_find (mc_G mc) a")
    case None
    then have "(a, ds) \<notin> set (mc_G mc)" for ds by (force simp: om_find_None)
    with None show ?thesis by (simp add: mc_weight_def)
  next
    case (Some ds)
    have ds: "(a, ds') \<in> set (mc_G mc) \<longleftrightarrow> ds' = ds" for ds'
      using om_find_in[OF \<open>om_ok (mc_G mc)\<close>, of a ds'] Some by auto
    then have "om_ok ds" using rows[of a ds] by simp
    from om_find_in[OF this, of b w] ds show ?thesis by (simp add: mc_weight_def Some)
  qed
qed

lemma set_getNodes: "set (getNodes mc) = (\<Union>p \<in> set (mc_G mc). insert (fst p) (fst ` set (snd p)))"
  by (simp add: getNodes_def split_beta)

lemma getNodes_in:
  assumes "(a, ds) \<in> set (mc_G mc)"
  shows "a \<in> set (getNodes mc)" "(b, w) \<in> set ds \<Longrightarrow> b \<in> set (getNodes mc)"
  unfolding set_getNodes by (rule UN_I[OF assms], simp) (rule UN_I[OF assms], force)

lemma idx_graph_law:
  assumes ok: "mc_ok mc"
  obtains G where "idx_graph (getNodes mc) mc = Inr G" "graph_ok G" "length G = length (getNodes mc)"
    "idx_edges G = {(i, j). i < length G \<and> j < length G \<and> (getNodes mc ! i, getNodes mc ! j) \<in> mc_edges mc}"
proof -
  let ?V = "getNodes mc" and ?N = "length (getNodes mc)" and ?id = "idx_of (getNodes mc)"
  have os: "os_ok ?V" by (simp add: getNodes_def)
  let ?row = "\<lambda>p. map (\<lambda>q. ((?id (fst p), ?id (fst q)), Some (snd q))) (snd p)"
  let ?ops = "concat (map ?row (mc_G mc))"
  define H where "H = cells.put_all ?ops (replicate ?N [])"
  have row: "idx_row ?V p G = Inr (cells.put_all (?row p) G)" if p: "p \<in> set (mc_G mc)" for p G
  proof -
    obtain a ds where a: "p = (a, ds)" by (cases p)
    with p have a_in: "(a, ds) \<in> set (mc_G mc)" by simp
    have "foldr_res (\<lambda>(dst, w) G. bindr (node_to_idx ?V dst) (\<lambda>idst. Inr (G[?id a := om_put (G ! ?id a) idst w]))) ds G =
       Inr (cells.put_all (concat (map (\<lambda>q. [((?id a, ?id (fst q)), Some (snd q))]) ds)) G)"
    proof (rule cells.foldr_res_put_all)
      fix q G assume "q \<in> set ds"
      with getNodes_in(2)[OF a_in, of "fst q" "snd q"] have "fst q \<in> set ?V" by simp
      from idx_of_in(3)[OF os this] show "(\<lambda>(dst, w) G. bindr (node_to_idx ?V dst)
          (\<lambda>idst. Inr (G[?id a := om_put (G ! ?id a) idst w]))) q G =
        Inr (cells.put_all [((?id a, ?id (fst q)), Some (snd q))] G)"
        by (simp add: split_beta cell_put_def om_write_def)
    qed
    moreover have "concat (map (\<lambda>q. [((?id a, ?id (fst q)), Some (snd q))]) ds) = ?row p"
      using a by (induction ds arbitrary: p) auto
    ultimately show ?thesis using idx_of_in(3)[OF os getNodes_in(1)[OF a_in]] a by (simp add: idx_row_def)
  qed
  have run: "idx_graph ?V mc = Inr H"
    unfolding idx_graph_def H_def by (rule cells.foldr_res_put_all) (rule row)
  have ops: "((i, j), v) \<in> set ?ops \<longleftrightarrow> (\<exists>a b w. i = ?id a \<and> j = ?id b \<and> v = Some w \<and> mc_weight mc a b = Some w)" for i j v
    unfolding mc_weight_in[OF ok] by (force simp: image_iff)
  have nodes: "a \<in> set ?V \<and> b \<in> set ?V" if "mc_weight mc a b = Some w" for a b w
    using that getNodes_in unfolding mc_weight_in[OF ok] by blast
  have start: "length (replicate ?N []) = ?N \<and> (\<forall>r \<in> set (replicate ?N []). om_ok r)" by auto
  have keys: "\<forall>p \<in> set ?ops. fst (fst p) < ?N \<and> True"
  proof
    fix p assume "p \<in> set ?ops"
    moreover obtain i j v where "p = ((i, j), v)" by (cases p) auto
    ultimately show "fst (fst p) < ?N \<and> True" using ops nodes idx_of_in(1)[OF os] by auto
  qed
  from cells.valid_put_all[OF start keys, folded H_def] have len: "length H = ?N" and rows: "\<forall>r \<in> set H. om_ok r" by auto
  have find: "om_find (H ! i) j = (if j < ?N then mc_weight mc (?V ! i) (?V ! j) else None)" if i: "i < ?N" for i j
  proof -
    have "cell_get H (i, j) = (\<lambda>e. if snd e < ?N then mc_weight mc (?V ! fst e) (?V ! snd e) else None) (i, j)"
      unfolding H_def
    proof (rule cells.get_put_all_fun[OF start keys])
      show "fst (i, j) < ?N" using i by simp
    next
      fix v assume "((i, j), v) \<in> set ?ops"
      then show "v = (if snd (i, j) < ?N then mc_weight mc (?V ! fst (i, j)) (?V ! snd (i, j)) else None)"
        using ops nodes idx_of_in(1,2)[OF os] by auto
    next
      assume no: "(i, j) \<notin> fst ` set ?ops"
      have "mc_weight mc (?V ! i) (?V ! j) = None" if "j < ?N"
      proof (rule ccontr)
        assume "mc_weight mc (?V ! i) (?V ! j) \<noteq> None"
        then obtain w where "mc_weight mc (?V ! i) (?V ! j) = Some w" by auto
        with ops[of i j "Some w"] idx_of_nth[OF os i] idx_of_nth[OF os that] have "((i, j), Some w) \<in> set ?ops" by metis
        with no show False by force
      qed
      with i show "cell_get (replicate ?N []) (i, j) =
          (if snd (i, j) < ?N then mc_weight mc (?V ! fst (i, j)) (?V ! snd (i, j)) else None)"
        by (simp add: cell_get_def)
    qed
    then show ?thesis by (simp add: cell_get_def)
  qed
  have mem: "(j, w) \<in> set (H ! i) \<longleftrightarrow> j < ?N \<and> mc_weight mc (?V ! i) (?V ! j) = Some w" if "i < ?N" for i j w
    using find[OF that, of j] rows len that by (simp add: om_find_in[symmetric])
  have "graph_ok H" unfolding graph_ok_def
  proof (intro conjI ballI)
    show "length H < 2 ^ 32" using ok len by (simp add: mc_ok_def)
  next
    fix r assume "r \<in> set H"
    with rows show "om_ok r" by blast
  next
    fix r p assume r: "r \<in> set H" and p: "p \<in> set r"
    then obtain i j w where i: "i < ?N" "r = H ! i" "p = (j, w)" using len by (cases p) (auto simp: in_set_conv_nth)
    with p mem have "j < ?N" "mc_weight mc (?V ! i) (?V ! j) = Some w" by auto
    moreover from this(2) obtain ds where "(?V ! i, ds) \<in> set (mc_G mc)" "(?V ! j, w) \<in> set ds"
      unfolding mc_weight_in[OF ok] by blast
    moreover from this ok have "0 < w \<and> w < MAX_WEIGHT" unfolding mc_ok_def by blast
    ultimately show "case p of (v, w) \<Rightarrow> v < length H \<and> 0 < w \<and> w < MAX_WEIGHT" using i len by simp
  qed
  moreover have "idx_edges H = {(i, j). i < length H \<and> j < length H \<and> (?V ! i, ?V ! j) \<in> mc_edges mc}"
  proof -
    have "j \<in> fst ` set (H ! i) \<longleftrightarrow> j < ?N \<and> mc_weight mc (?V ! i) (?V ! j) \<noteq> None" if "i < ?N" for i j
      by (auto simp: in_fst_image mem[OF that])
    then have "(i, j) \<in> idx_edges H \<longleftrightarrow> i < ?N \<and> j < ?N \<and> (?V ! i, ?V ! j) \<in> mc_edges mc" for i j
      unfolding idx_edges_iff len mc_edges_def mem_Collect_eq case_prod_conv by blast
    then show ?thesis unfolding len by blast
  qed
  ultimately show ?thesis using that run len by blast
qed

lemma idx_sts_law:
  assumes "mc_ok mc"
  shows "idx_sts (getNodes mc) mc =
     Inr (map (map (\<lambda>way. os_of (map (idx_of (getNodes mc)) way))) (mc_sts mc))"
    and "sts_ok (length (getNodes mc)) (map (map (\<lambda>way. os_of (map (idx_of (getNodes mc)) way))) (mc_sts mc))"
proof -
  have os: "os_ok (getNodes mc)" by (simp add: getNodes_def)
  have nodes: "x \<in> set (getNodes mc)" if "st \<in> set (mc_sts mc)" "way \<in> set st" "x \<in> set way" for st way x
    using that assms unfolding mc_ok_def by blast
  show "idx_sts (getNodes mc) mc =
     Inr (map (map (\<lambda>way. os_of (map (idx_of (getNodes mc)) way))) (mc_sts mc))"
    unfolding idx_sts_def
  proof (intro map_res_total)
    fix st way assume st: "st \<in> set (mc_sts mc)" "way \<in> set st"
    have "map_res (node_to_idx (getNodes mc)) way = Inr (map (idx_of (getNodes mc)) way)"
      using idx_of_in(3)[OF os nodes[OF st]] by (rule map_res_total)
    then show "bindr (map_res (node_to_idx (getNodes mc)) way) (\<lambda>is. Inr (os_of is)) =
        Inr (os_of (map (idx_of (getNodes mc)) way))" by simp
  qed
  show "sts_ok (length (getNodes mc)) (map (map (\<lambda>way. os_of (map (idx_of (getNodes mc)) way))) (mc_sts mc))"
    unfolding sts_ok_def st_ok_def
  proof (intro ballI conjI)
    fix st' assume "st' \<in> set (map (map (\<lambda>way. os_of (map (idx_of (getNodes mc)) way))) (mc_sts mc))"
    then obtain st where st: "st \<in> set (mc_sts mc)" "st' = map (\<lambda>way. os_of (map (idx_of (getNodes mc)) way)) st"
      by auto
    then show "2 \<le> length st'" "length (getNodes mc) * length st' < 2 ^ 32" using assms by (auto simp: mc_ok_def)
    fix S assume "S \<in> set st'"
    with st show "set_ok (length (getNodes mc)) S"
      using idx_of_in(1)[OF os nodes] by (auto simp: set_ok_def)
  qed
qed

text \<open>Walks between nodes are walks between their numbers.\<close>

lemma st_walk_idx:
  assumes V: "os_ok V" and R: "\<And>a b. (a, b) \<in> R \<Longrightarrow> (idx_of V a, idx_of V b) \<in> Q"
  shows "st_walk R Ws x \<Longrightarrow> st_walk Q (map ((`) (idx_of V)) Ws) (idx_of V x)"
proof (induction Ws arbitrary: x)
  case (Cons W Ws)
  then obtain y where y: "y \<in> W" "(x, y) \<in> R\<^sup>+" "st_walk R Ws y" by auto
  from y(2) have "(idx_of V x, idx_of V y) \<in> Q\<^sup>+"
    by (induction rule: trancl_induct) (auto intro: R trancl_into_trancl)
  with Cons.IH[OF y(3)] y(1) show ?case by auto
qed simp

lemma run_result:
  fixes mc :: "('n::linorder) min_cut"
  assumes ok: "mc_ok mc"
  shows "run timeout mc = Some (Inl Assertion) \<or>
     (\<exists>es. run timeout mc = Some (Inr (mc\<lparr>mc_cut_edges := mc_cut_edges mc @ es\<rparr>)) \<and> set es \<subseteq> mc_edges mc \<and> distinct es \<and>
        (\<forall>st \<in> set (mc_sts mc). \<forall>x \<in> set (hd st). \<not> st_walk (mc_edges mc - set es) (map set (tl st)) x))"
proof -
  let ?V = "getNodes mc" and ?id = "idx_of (getNodes mc)"
  have os: "os_ok ?V" by (simp add: getNodes_def)
  obtain G where G: "idx_graph ?V mc = Inr G" "graph_ok G" "length G = length ?V"
    "idx_edges G = {(i, j). i < length G \<and> j < length G \<and> (?V ! i, ?V ! j) \<in> mc_edges mc}"
    using idx_graph_law[OF ok] by blast
  define sts0 where "sts0 = map (map (\<lambda>way. os_of (map ?id way))) (mc_sts mc)"
  have sts0: "idx_sts ?V mc = Inr sts0" "sts_ok (length G) sts0"
    using idx_sts_law[OF ok] by (simp_all add: sts0_def G(3))
  obtain sts where sts: "optimize_sts sts0 G = Some (Inr sts)" "sts_ok (length G) sts"
    "\<And>E. E \<subseteq> idx_edges G \<Longrightarrow> any_walks E sts0 \<Longrightarrow> any_walks E sts"
    using optimize_sts_law[OF graph_ok_idx[OF G(2)] sts0(2)] by blast
  let ?c0 = "replicate (length sts) []"
  have "loop_start G sts ?c0"
    using G(2) sts(2) by (auto simp: loop_start_def sts_ok_def cuts_ok_def os_ok_def)
  from cut_loop_returns[OF this, of timeout "{}" 0]
  consider "cut_loop timeout G sts Replace {} 0 ?c0 G = Some (Inl Assertion)"
    | "cut_result G sts (cut_loop timeout G sts Replace {} 0 ?c0 G)" by auto
  then show ?thesis
  proof cases
    case 1
    with G(1) sts0(1) sts(1) show ?thesis by (simp add: run_def)
  next
    case 2
    then obtain cuts where c: "cut_loop timeout G sts Replace {} 0 ?c0 G = Some (Inr cuts)"
      "set (concat cuts) \<subseteq> idx_edges G" "\<forall>st \<in> set sts. \<not> walks (idx_edges G - set (concat cuts)) st"
      "distinct (concat cuts)"
      by (auto simp: cut_result_def)
    let ?es = "map (\<lambda>(s, d). (?V ! s, ?V ! d)) (concat cuts)"
    have "map_res (\<lambda>(s, d). bindr (idx_to_node ?V s) (\<lambda>a. bindr (idx_to_node ?V d) (\<lambda>b. Inr (a, b)))) (concat cuts)
        = Inr ?es"
    proof (rule map_res_total)
      fix e assume "e \<in> set (concat cuts)"
      with c(2) G(3,4) have "fst e < length ?V" "snd e < length ?V" by auto
      then show "(case e of (s, d) \<Rightarrow> bindr (idx_to_node ?V s) (\<lambda>a. bindr (idx_to_node ?V d) (\<lambda>b. Inr (a, b)))) =
          Inr (case e of (s, d) \<Rightarrow> (?V ! s, ?V ! d))"
        by (simp add: split_beta idx_to_node_def)
    qed
    with G(1) sts0(1) sts(1) c(1) have
      "run timeout mc = Some (Inr (mc\<lparr>mc_cut_edges := mc_cut_edges mc @ ?es\<rparr>))"
      by (simp add: run_def Let_def)
    moreover have "set ?es \<subseteq> mc_edges mc" using c(2) G(4) by auto
    moreover have "distinct ?es"
    proof -
      have "distinct ?V" using os by (simp add: os_ok_distinct)
      then have "inj_on (\<lambda>(s, d). (?V ! s, ?V ! d)) (idx_edges G)"
        using G(3,4) by (auto simp: inj_on_def nth_eq_iff_index_eq)
      with c(2,4) show ?thesis by (simp add: distinct_map inj_on_subset del: set_concat)
    qed
    moreover have "\<not> st_walk (mc_edges mc - set ?es) (map set (tl st)) x"
      if st: "st \<in> set (mc_sts mc)" and x: "x \<in> set (hd st)" for st x
    proof
      let ?Q = "idx_edges G - set (concat cuts)"
      assume w: "st_walk (mc_edges mc - set ?es) (map set (tl st)) x"
      have "(?id a, ?id b) \<in> ?Q" if ab: "(a, b) \<in> mc_edges mc - set ?es" for a b
      proof -
        have in_V: "a \<in> set ?V" "b \<in> set ?V"
          using ab getNodes_in mc_weight_in[OF ok] by (fastforce simp: mc_edges_def)+
        note i = idx_of_in[OF os in_V(1)] and j = idx_of_in[OF os in_V(2)]
        have "(?id a, ?id b) \<notin> set (concat cuts)"
        proof
          assume "(?id a, ?id b) \<in> set (concat cuts)"
          then have "(?V ! ?id a, ?V ! ?id b) \<in> set ?es" by (force simp del: set_concat)
          with ab i(2) j(2) show False by simp
        qed
        with ab i(1,2) j(1,2) G(3,4) show ?thesis by simp
      qed
      from st_walk_idx[OF os this w] have "st_walk ?Q (map ((`) ?id) (map set (tl st))) (?id x)" .
      moreover have "map ((`) ?id) (map set (tl st)) = map set (tl (map (\<lambda>way. os_of (map ?id way)) st))"
        by (cases st) simp_all
      moreover have "?id x \<in> set (hd (map (\<lambda>way. os_of (map ?id way)) st))"
      proof -
        have "2 \<le> length st" using st ok unfolding mc_ok_def by blast
        then have "st \<noteq> []" by auto
        with x show ?thesis by (simp add: hd_map)
      qed
      ultimately have "walks ?Q (map (\<lambda>way. os_of (map ?id way)) st)" unfolding walks_def by auto
      with st have "any_walks ?Q sts0" by (auto simp: any_walks_def sts0_def)
      with sts(3)[of ?Q] c(3) show False by (auto simp: any_walks_def)
    qed
    ultimately show ?thesis by blast
  qed
qed

subsection \<open>The double check\<close>

lemma check_succs_edges: "srel (check_succs C G) = idx_edges G - C"
  by (auto simp: check_succs_def idx_edges_def)

lemma check_particles_law:
  assumes G: "graph_ok G" and S: "\<forall>v \<in> set S. v < length G"
    and Ts: "\<forall>T \<in> set Ts. \<forall>v \<in> set T. v < length G"
  shows "\<exists>S'. check_particles C G S Ts = Inr S' \<and> set S' = reach_through (idx_edges G - C) (set S) (map set Ts)"
  using S Ts
proof (induction Ts arbitrary: S)
  case (Cons T Ts)
  obtain reach p where d: "dfs_push Bad_index [0..<length G] (check_succs C G) (rev S) {} Map.empty = Inr (reach, p)"
    and r: "reach = (srel (check_succs C G))\<^sup>+ `` set S"
    using dfs_push_total[of "rev S" "[0..<length G]" "check_succs C G" Bad_index "{}" Map.empty]
      dfs_push_reach[of Bad_index "[0..<length G]" "check_succs C G" "rev S"]
      idx_succs_in[OF graph_ok_idx[OF G]] Cons.prems(1)
    by (fastforce simp: check_succs_def)
  have "u < length G" if "u \<in> set S \<union> reach" for u
  proof (cases "u \<in> set S")
    case False
    with that r obtain s where "(s, u) \<in> (idx_edges G - C)\<^sup>+" by (auto simp: check_succs_edges)
    then obtain z where "(z, u) \<in> idx_edges G - C" by (meson tranclD2)
    with idx_succs_in[OF graph_ok_idx[OF G]] show ?thesis by (auto simp: idx_edges_def)
  qed (use Cons.prems in auto)
  then have pos: "\<forall>u \<in> set S \<union> reach. \<forall>(v, w) \<in> set (G ! u). w > 0"
    using G unfolding graph_ok_def by (metis (no_types, lifting) case_prodD case_prodI2 nth_mem)
  let ?S = "filter (\<lambda>t. t \<in> reach) T"
  from Cons.IH[of ?S] Cons.prems obtain S' where "check_particles C G ?S Ts = Inr S'"
    "set S' = reach_through (idx_edges G - C) (set ?S) (map set Ts)" by auto
  moreover have "set ?S = set T \<inter> (idx_edges G - C)\<^sup>+ `` set S" using r by (auto simp: check_succs_edges)
  ultimately show ?case using d pos by simp
qed simp

end
