(* ===== verification/CutProperties.thy ===== *)
theory CutProperties
  imports MinCutSound
begin

text \<open>
  The properties of the min-cut engine (\<open>src/FordFulkerson.cc\<close>,
  \<open>src/include/clou/MinCutGreedy.h\<close>), each with a concrete instance.
\<close>

lemma not_list_walk:
  assumes "Ws \<noteq> []" "\<forall>x \<in> hd Ws. \<not> st_walk E (tl Ws) x"
  shows "\<not> list_walk E Ws p pos"
  using assms list_walk_st_walk[of E "hd Ws" "tl Ws" p pos] by auto


definition chain3 :: "nat min_cut" where
  "chain3 = \<lparr>mc_G = [(0, [(1, 2)]), (1, [(2, 1)])], mc_sts = [[[0], [2]]], mc_cut_edges = []\<rparr>"



definition chain_graph :: "dsts list" where
  "chain_graph = [[(1, 2)], [(2, 1)], [(0, 5)]]"


text \<open>C34. When no walk meets the waypoint sets in order, \<open>ford_fulkerson_multi\<close> cuts nothing.\<close>

theorem ford_fulkerson_multi_cuts_nothing:
  assumes "instance_ok G wps" "separates (g_edges (ivg G)) {} (map set wps)"
  shows "ford_fulkerson_multi G wps = Some (Inr [])"
proof -
  have "wps \<noteq> []" using assms(1) by (auto simp: instance_ok_def)
  then have "hd (map set wps) = set (hd wps)" "tl (map set wps) = map set (tl wps)"
    by (simp_all add: hd_map map_tl)
  with assms show ?thesis by (intro ford_fulkerson_multi_nothing) (auto simp: separates_def)
qed

lemma ford_fulkerson_multi_cuts_nothing_witness:
  "ford_fulkerson_multi [[], [(0, 1)]] [[0], [1]] = Some (Inr [])"
proof (rule ford_fulkerson_multi_cuts_nothing)
  show "instance_ok [[], [(0, 1)]] [[0], [1]]"
    by (simp add: instance_ok_def om_ok_def MAX_WEIGHT_def)
  have "(0, y) \<notin> (g_edges (ivg [[], [(0, 1)]]))\<^sup>+" for y
    by (auto simp: g_edges_def ivg_def ivg_row_def dest!: tranclD)
  then show "separates (g_edges (ivg [[], [(0, 1)]])) {} (map set [[0], [1]])"
    by (auto simp: separates_def)
qed

text \<open>C8. \<open>optimize_sts\<close> returns, and simplifies waypoint lists without losing a walk: in any part
  of the graph where no simplified list has a walk, no given list has one.\<close>

theorem optimize_sts_keeps_walks:
  assumes "idx_ok G" "sts_ok (length G) sts"
  shows "\<exists>out. optimize_sts sts G = Some (Inr out) \<and> sts_ok (length G) out \<and>
    (\<forall>E \<subseteq> idx_edges G. (\<forall>st \<in> set out. \<not> walks E st) \<longrightarrow> (\<forall>st \<in> set sts. \<not> walks E st))"
  using optimize_sts_law[OF assms] unfolding any_walks_def by metis

lemma optimize_sts_keeps_walks_witness:
  "\<exists>out. optimize_sts [[[0], [1], [2]], [[0], [2]]] chain_graph = Some (Inr out) \<and> sts_ok 3 out \<and>
    \<not> (\<forall>st \<in> set out. \<not> walks (idx_edges chain_graph) st)"
proof -
  have ok: "idx_ok chain_graph" "sts_ok (length chain_graph) [[[0], [1], [2]], [[0], [2]]]"
    by (auto simp: idx_ok_def chain_graph_def sts_ok_def st_ok_def set_ok_def os_ok_def)
  have "(0, 2) \<in> (idx_edges chain_graph)\<^sup>+"
    by (rule trancl_into_trancl[OF r_into_trancl, of _ 1]) (simp_all add: idx_edges_iff chain_graph_def)
  then have "walks (idx_edges chain_graph) [[0], [2]]" by (simp add: walks_def)
  note w = this
  from optimize_sts_keeps_walks[OF ok] obtain out where
    o: "optimize_sts [[[0], [1], [2]], [[0], [2]]] chain_graph = Some (Inr out)" "sts_ok (length chain_graph) out"
    and keep: "\<forall>E \<subseteq> idx_edges chain_graph. (\<forall>st \<in> set out. \<not> walks E st) \<longrightarrow>
      (\<forall>st \<in> set [[[0], [1], [2]], [[0], [2]]]. \<not> walks E st)" by (elim exE conjE) (rule that)
  have "\<not> (\<forall>st \<in> set out. \<not> walks (idx_edges chain_graph) st)"
  proof
    assume "\<forall>st \<in> set out. \<not> walks (idx_edges chain_graph) st"
    with keep[rule_format, OF order_refl, of "[[0], [2]]"] w show False by simp
  qed
  moreover have "length chain_graph = 3" by (simp add: chain_graph_def)
  ultimately show ?thesis using o by (intro exI[of _ out]) simp
qed

text \<open>C35. \<open>optimize_sts_cull_sources\<close> keeps exactly the sources from which a sink is reached without
  passing through another source or sink first, whatever order they are removed in.\<close>

theorem cull_sources_exact:
  assumes "idx_ok G" "set_ok (length G) S"
  shows "\<exists>c. cull_set G T [] S = Inr (c, filter (good_source (idx_edges G) (set S) (set T)) S)"
  using cull_set_exact[OF assms(1), of "[]" S "set S" T] assms(2) by auto

lemma cull_sources_exact_witness:
  "\<exists>c. cull_set chain_graph [2] [] [0, 1] = Inr (c, [1])"
proof -
  have ok: "idx_ok chain_graph" "set_ok (length chain_graph) [0, 1]"
    by (auto simp: idx_ok_def chain_graph_def set_ok_def os_ok_def)
  have "good_source (idx_edges chain_graph) {0, 1} {2} 1"
    unfolding good_source_def by (intro exI[of _ 1] exI[of _ 2]) (simp add: idx_edges_iff chain_graph_def)
  moreover have "\<not> good_source (idx_edges chain_graph) {0, 1} {2} 0"
  proof
    assume "good_source (idx_edges chain_graph) {0, 1} {2} 0"
    then obtain u where u: "(0, u) \<in> (avoiding (idx_edges chain_graph) ({0, 1} \<union> {2}))\<^sup>*"
      "(u, 2) \<in> idx_edges chain_graph" by (auto simp: good_source_def)
    from u(1) have "u \<in> {0}"
      by (rule rtrancl_closed) (auto simp: avoiding_def idx_edges_iff chain_graph_def)
    with u(2) show False by (simp add: idx_edges_iff chain_graph_def)
  qed
  ultimately show ?thesis using cull_sources_exact[OF ok, of "[2]"] by simp
qed

text \<open>C36. \<open>checkCutST\<close> passes exactly when the cut leaves no walk through the waypoint sets; otherwise it
  reaches \<open>std::abort\<close>. None of its own assertions fail.\<close>

theorem checkCutST_exact:
  assumes "graph_ok G" "st_ok (length G) st"
  shows "checkCutST st C G = (if walks (idx_edges G - C) st then Inl Aborted else Inr ())"
proof -
  obtain S Ts where st: "st = S # Ts" using assms(2) by (cases st) (auto simp: st_ok_def)
  have "\<forall>v \<in> set S. v < length G" "\<forall>T \<in> set Ts. \<forall>v \<in> set T. v < length G"
    using assms(2) by (auto simp: st st_ok_def set_ok_def)
  from check_particles_law[OF assms(1) this, of C] obtain S' where
    "check_particles C G S Ts = Inr S'" "set S' = reach_through (idx_edges G - C) (set S) (map set Ts)" by blast
  moreover have "walks (idx_edges G - C) st \<longleftrightarrow> set S' \<noteq> {}"
    unfolding calculation(2) reach_through_walk by (simp add: walks_def st)
  ultimately show ?thesis using assms(2) by (auto simp: checkCutST_def st st_ok_def)
qed

lemma checkCutST_exact_witness:
  "checkCutST [[0], [2]] {(1, 2)} chain_graph = Inr ()"
proof -
  have ok: "graph_ok chain_graph" "st_ok (length chain_graph) [[0], [2]]"
    by (auto simp: graph_ok_def chain_graph_def om_ok_def MAX_WEIGHT_def st_ok_def set_ok_def os_ok_def)
  have "(0, y) \<in> (idx_edges chain_graph - {(1, 2)})\<^sup>+ \<Longrightarrow> y \<in> {0, 1}" for y
    by (erule trancl_closed[where B = "{0}"]) (auto simp: idx_edges_iff chain_graph_def)
  then have "\<not> walks (idx_edges chain_graph - {(1, 2)}) [[0], [2]]" by (force simp: walks_def)
  with checkCutST_exact[OF ok, of "{(1, 2)}"] show ?thesis by simp
qed

end
