(* ===== verification/IR.thy ===== *)
theory IR
  imports Containers Worklist "HOL-Library.Product_Lexorder"
begin

text \<open>
  The part of LLVM's IR the passes read: values, instructions, basic blocks and functions. A
  value is known by its address, a natural number, so that a \<open>std::set<Value *>\<close> is iterated in
  increasing order; \<open>0\<close> is the null pointer. A module maps addresses to descriptions. What LLVM
  computes itself from an instruction (\<open>isAssumeLikeIntrinsic\<close>, \<open>hasAddressTaken\<close>, the attribute
  \<open>norecurse\<close>) is a field; alias analysis, loop information, dominator trees and the data layout
  are arguments of the definitions that ask them.

  The intrinsics are those the sources name, grouped as LLVM groups their names; every other
  intrinsic is \<open>In_other\<close>.
\<close>

subsection \<open>Types and intrinsics\<close>

datatype ty = VoidTy | IntTy nat | FloatTy | PtrTy | VectorTy | AggregateTy | OtherTy

datatype (plugins only: code size) constrained =
    FCeil | FAdd | FCmp | FCmps | FDiv | FFloor | FMul | FMulAdd | FPExt | FPToSI | FPToUI
  | FPTrunc | FSub | FPowI | FRound | SIToFP | FTrunc | UIToFP

datatype (plugins only: code size) reduction =
    ReduceAdd | ReduceAnd | ReduceMul | ReduceOr | ReduceSMax | ReduceSMin | ReduceUMax
  | ReduceUMin | ReduceXor

datatype (plugins only: code size) x86_op =
    aesni_aesenc | aesni_aesenclast | aesni_aeskeygenassist | pclmulqdq | rdrand_32
  | sse2_lfence | sse2_mfence

datatype (plugins only: code size) intrinsic =
    In_abs | In_annotation | In_bitreverse | In_bswap | In_ctlz | In_ctpop | In_cttz
  | In_eh_typeid_for | In_fabs | In_floor | In_fmuladd | In_fshl | In_fshr | In_masked_gather
  | In_masked_load | In_masked_store | In_memcpy | In_memcpy_inline | In_memmove | In_memset
  | In_prefetch | In_read_register | In_smax | In_smin | In_stackrestore | In_stacksave | In_trap
  | In_uadd_sat | In_uadd_with_overflow | In_umax | In_umin | In_umul_with_overflow | In_usub_sat
  | In_vacopy | In_vaend | In_vastart
  | experimental_constrained constrained | vector_reduce reduction | x86 x86_op
  | In_other nat

datatype (plugins only: code size) opcode =
    Load | Store | AtomicRMW | AtomicCmpXchg | Fence | VAArg
  | Br | Switch | IndirectBr | Ret | Resume | Unreachable | OtherTerminator
  | Call | Invoke | CallBr
  | UDiv | SDiv | OtherBinary | FNeg | Cmp | BitCast | IntToPtr | OtherCast | PHI | Alloca
  | GetElementPtr | ShuffleVector | InsertElement | ExtractElement | Select | ExtractValue
  | InsertValue | Freeze | LandingPad | OtherInst

subsection \<open>Values\<close>

text \<open>
  \<open>operands\<close> are in LLVM's order: a load has its pointer, a store the value and then the
  pointer, a call its arguments and last the callee, a conditional branch the condition and then
  its blocks. \<open>nargs\<close> is \<open>arg_size()\<close> of a call, \<open>iid\<close> the intrinsic a call calls, \<open>succs\<close> the
  blocks a terminator may continue with, \<open>ordering\<close> the atomic ordering of a memory access
  (\<open>0\<close> not atomic, \<open>1\<close> unordered).
\<close>

record inst =
  opc :: opcode
  ity :: ty
  operands :: "nat list"
  nargs :: nat
  iid :: "intrinsic option"
  assume_like :: bool
  succs :: "nat list"
  volatile :: bool
  ordering :: nat
  alloc_ty :: ty
  md :: "string list"

record bb =
  bb_id :: nat
  bb_insts :: "nat list"

datatype linkage = ExternalLinkage | AvailableExternallyLinkage | LinkOnceAnyLinkage | LinkOnceODRLinkage
  | WeakAnyLinkage | WeakODRLinkage | AppendingLinkage | InternalLinkage | PrivateLinkage
  | ExternalWeakLinkage | CommonLinkage

record func =
  fn_name :: string
  fn_linkage :: linkage
  fn_addr_taken :: bool
  fn_norecurse :: bool
  fn_attrs :: "string list"
  fn_args :: "nat list"
  fn_blocks :: "bb list"

datatype constexpr = CGEP | CBitCast | CIntToPtr | COtherExpr

datatype vdesc = Undef | Inst inst | Argument nat nat ty | GlobalVariable | Function func
  | BasicBlock | InlineAsm | ConstantInt int ty | ConstantExpr constexpr "nat list" ty
  | ConstantData ty | MetadataAsValue

record ir_module =
  vals :: "nat \<Rightarrow> vdesc"
  vbound :: nat
  fn_list :: "nat list"

definition null :: nat where
  "null = 0"

definition inst0 :: inst where
  "inst0 = \<lparr>opc = OtherInst, ity = VoidTy, operands = [], nargs = 0, iid = None, assume_like = False,
     succs = [], volatile = False, ordering = 0, alloc_ty = VoidTy, md = []\<rparr>"

definition func0 :: func where
  "func0 = \<lparr>fn_name = [], fn_linkage = ExternalLinkage, fn_addr_taken = True, fn_norecurse = False,
     fn_attrs = [], fn_args = [], fn_blocks = []\<rparr>"

definition isDeclaration :: "func \<Rightarrow> bool" where
  "isDeclaration F = (fn_blocks F = [])"

text \<open>\<open>ins m v\<close> is the instruction at an address known to be one, \<open>opnd i k\<close> its operand \<open>k\<close>.\<close>

definition ins :: "ir_module \<Rightarrow> nat \<Rightarrow> inst" where
  "ins m v = (case vals m v of Inst i \<Rightarrow> i | _ \<Rightarrow> inst0)"

definition is_inst :: "ir_module \<Rightarrow> nat \<Rightarrow> bool" where
  "is_inst m v = (case vals m v of Inst i \<Rightarrow> True | _ \<Rightarrow> False)"

definition opnd :: "inst \<Rightarrow> nat \<Rightarrow> nat" where
  "opnd i k = (if k < length (operands i) then operands i ! k else null)"

definition isa :: "ir_module \<Rightarrow> nat \<Rightarrow> opcode list \<Rightarrow> bool" where
  "isa m v os = (is_inst m v \<and> opc (ins m v) \<in> set os)"

abbreviation "CallBase \<equiv> [Call, Invoke, CallBr]"
abbreviation "BinaryOperator \<equiv> [UDiv, SDiv, OtherBinary]"
abbreviation "CastInst \<equiv> [BitCast, IntToPtr, OtherCast]"
abbreviation "Terminator \<equiv> [Br, Switch, IndirectBr, Ret, Resume, Unreachable, OtherTerminator, Invoke, CallBr]"

definition intrinsic_id :: "ir_module \<Rightarrow> nat \<Rightarrow> intrinsic option" where
  "intrinsic_id m v = (if isa m v [Call] then iid (ins m v) else None)"

definition call_args :: "inst \<Rightarrow> nat list" where
  "call_args i = take (nargs i) (operands i)"

definition getCalledOperand :: "inst \<Rightarrow> nat" where
  "getCalledOperand i = opnd i (length (operands i) - 1)"

fun is_constant :: "vdesc \<Rightarrow> bool" where
  "is_constant GlobalVariable = True"
| "is_constant (Function _) = True"
| "is_constant (ConstantInt _ _) = True"
| "is_constant (ConstantExpr _ _ _) = True"
| "is_constant (ConstantData _) = True"
| "is_constant _ = False"

fun ty_of :: "vdesc \<Rightarrow> ty" where
  "ty_of (Inst i) = ity i"
| "ty_of (Argument _ _ t) = t"
| "ty_of GlobalVariable = PtrTy"
| "ty_of (Function _) = PtrTy"
| "ty_of InlineAsm = PtrTy"
| "ty_of (ConstantInt _ t) = t"
| "ty_of (ConstantExpr _ _ t) = t"
| "ty_of (ConstantData t) = t"
| "ty_of _ = OtherTy"

definition is_void :: "ir_module \<Rightarrow> nat \<Rightarrow> bool" where
  "is_void m v = (ty_of (vals m v) = VoidTy)"

definition is_ptr :: "ir_module \<Rightarrow> nat \<Rightarrow> bool" where
  "is_ptr m v = (ty_of (vals m v) = PtrTy)"

definition is_argument :: "ir_module \<Rightarrow> nat \<Rightarrow> bool" where
  "is_argument m v = (case vals m v of Argument _ _ _ \<Rightarrow> True | _ \<Rightarrow> False)"

subsection \<open>The instructions of a function\<close>

definition insts :: "func \<Rightarrow> nat list" where
  "insts F = concat (map bb_insts (fn_blocks F))"

definition insts_of :: "ir_module \<Rightarrow> func \<Rightarrow> opcode list \<Rightarrow> nat list" where
  "insts_of m F os = filter (\<lambda>I. isa m I os) (insts F)"

definition entry_inst :: "func \<Rightarrow> nat" where
  "entry_inst F = (case insts F of [] \<Rightarrow> null | I # _ \<Rightarrow> I)"

definition next_in :: "nat list \<Rightarrow> nat \<Rightarrow> nat option" where
  "next_in xs x = (case dropWhile (\<lambda>y. y \<noteq> x) xs of _ # y # _ \<Rightarrow> Some y | _ \<Rightarrow> None)"

definition block_of :: "func \<Rightarrow> nat \<Rightarrow> bb option" where
  "block_of F I = find (\<lambda>B. I \<in> set (bb_insts B)) (fn_blocks F)"

definition block_at :: "func \<Rightarrow> nat \<Rightarrow> bb option" where
  "block_at F b = find (\<lambda>B. bb_id B = b) (fn_blocks F)"

definition getNextNode :: "func \<Rightarrow> nat \<Rightarrow> nat option" where
  "getNextNode F I = (case block_of F I of None \<Rightarrow> None | Some B \<Rightarrow> next_in (bb_insts B) I)"

definition getPrevNode :: "func \<Rightarrow> nat \<Rightarrow> nat option" where
  "getPrevNode F I = (case block_of F I of None \<Rightarrow> None | Some B \<Rightarrow> next_in (rev (bb_insts B)) I)"

definition isTerminator :: "ir_module \<Rightarrow> nat \<Rightarrow> bool" where
  "isTerminator m I = isa m I Terminator"

definition front_of :: "func \<Rightarrow> nat \<Rightarrow> nat list" where
  "front_of F b = (case block_at F b of Some B \<Rightarrow> take 1 (bb_insts B) | None \<Rightarrow> [])"

text \<open>\<open>llvm::predecessors(BB)\<close>: one entry per edge.\<close>

definition pred_blocks :: "ir_module \<Rightarrow> func \<Rightarrow> nat \<Rightarrow> bb list" where
  "pred_blocks m F b =
     concat (map (\<lambda>P. map (\<lambda>_. P) (filter (\<lambda>s. s = b) (succs (ins m (last (bb_insts P))))))
       (fn_blocks F))"

subsection \<open>Options and alias analysis\<close>

text \<open>The command line flags the passes read, and the answers of LLVM's alias analysis.\<close>

record options =
  UnsafeAA :: bool
  StrictCallingConv :: bool
  ExpandSTs :: bool
  NCASAll :: bool
  WeightGraph :: bool
  InsertTrapAfterMitigations :: bool
  en_fps :: bool
  en_ncas_xmit :: bool
  en_ncas_ctrl :: bool
  en_ncal_xmit :: bool
  en_ncal_glob :: bool
  en_entry_xmit :: bool
  en_load_xmit :: bool
  en_call_xmit :: bool

datatype alias_result = NoAlias | MayAlias | PartialAlias | MustAlias

fun isDefinitelyMustAlias :: "options \<Rightarrow> alias_result \<Rightarrow> bool res" where
  "isDefinitelyMustAlias opt MustAlias = Inr True"
| "isDefinitelyMustAlias opt MayAlias = Inr (UnsafeAA opt)"
| "isDefinitelyMustAlias opt NoAlias = Inr False"
| "isDefinitelyMustAlias opt PartialAlias = Inl Aborted"

fun isDefinitelyNoAlias :: "options \<Rightarrow> alias_result \<Rightarrow> bool res" where
  "isDefinitelyNoAlias opt NoAlias = Inr True"
| "isDefinitelyNoAlias opt MayAlias = Inr (UnsafeAA opt)"
| "isDefinitelyNoAlias opt MustAlias = Inr False"
| "isDefinitelyNoAlias opt PartialAlias = Inl Aborted"

end
