(* ===== verification/Cfg.thy ===== *)
theory Cfg
  imports IR
begin

text \<open>
  Control flow between instructions: the instruction-level \<open>predecessors\<close> and \<open>successors_inst\<close> of
  \<open>src/util.cc\<close>, the searches of \<open>src/CFG.cc\<close> and \<open>src/Frontier.cc\<close>, and \<open>getFrontierBwd\<close> of
  \<open>src/util.cc\<close>. \<open>wf_func\<close> is what LLVM's verifier checks before a pass runs: blocks are not empty and
  the terminators are exactly the last instructions. The searches are characterised as
  reachability over the relation \<open>cfg m F\<close>.
\<close>

subsection \<open>Edges\<close>

definition predecessors :: "ir_module \<Rightarrow> func \<Rightarrow> nat \<Rightarrow> nat list" where
  "predecessors m F I = (case getPrevNode F I of
      Some p \<Rightarrow> [p]
    | None \<Rightarrow> (case block_of F I of
        None \<Rightarrow> []
      | Some B \<Rightarrow> map (\<lambda>P. last (bb_insts P)) (pred_blocks m F (bb_id B))))"

definition successors_inst :: "ir_module \<Rightarrow> func \<Rightarrow> nat \<Rightarrow> nat list" where
  "successors_inst m F I =
     (if isTerminator m I then concat (map (front_of F) (succs (ins m I)))
      else (case getNextNode F I of None \<Rightarrow> [] | Some n \<Rightarrow> [n]))"

text \<open>The predecessors of a loop's header outside the header itself, and its exit blocks.\<close>

definition loop_predecessors :: "ir_module \<Rightarrow> func \<Rightarrow> nat \<Rightarrow> bb list" where
  "loop_predecessors m F header = filter (\<lambda>B. bb_id B \<noteq> header) (pred_blocks m F header)"

definition wf_bb :: "ir_module \<Rightarrow> func \<Rightarrow> bb \<Rightarrow> bool" where
  "wf_bb m F B \<longleftrightarrow> bb_insts B \<noteq> [] \<and> isTerminator m (last (bb_insts B)) \<and>
     (\<forall>I \<in> set (butlast (bb_insts B)). is_inst m I \<and> \<not> isTerminator m I) \<and>
     set (succs (ins m (last (bb_insts B)))) \<subseteq> bb_id ` set (fn_blocks F)"

definition wf_func :: "ir_module \<Rightarrow> func \<Rightarrow> bool" where
  "wf_func m F \<longleftrightarrow> distinct (insts F) \<and> distinct (map bb_id (fn_blocks F)) \<and>
     (\<forall>B \<in> set (fn_blocks F). wf_bb m F B)"

definition cfg :: "ir_module \<Rightarrow> func \<Rightarrow> (nat \<times> nat) set" where
  "cfg m F = {(I, J). I \<in> set (insts F) \<and> J \<in> set (successors_inst m F I)}"

lemma dropWhile_mid: "x \<notin> set as \<Longrightarrow> dropWhile (\<lambda>y. y \<noteq> x) (as @ x # bs) = x # bs"
  by (induction as) auto

lemma next_in_mid: "x \<notin> set as \<Longrightarrow> next_in (as @ x # bs) x = (case bs of [] \<Rightarrow> None | y # _ \<Rightarrow> Some y)"
  by (simp add: next_in_def dropWhile_mid split: list.split)

lemma next_in_Some:
  assumes "distinct xs"
  shows "next_in xs x = Some y \<longleftrightarrow> (\<exists>as bs. xs = as @ x # y # bs)"
proof (cases "x \<in> set xs")
  case True
  then obtain as bs where xs: "xs = as @ x # bs" "x \<notin> set as" by (meson split_list_first)
  then have n: "next_in xs x = (case bs of [] \<Rightarrow> None | y # _ \<Rightarrow> Some y)" by (simp add: next_in_mid)
  show ?thesis
  proof
    assume "next_in xs x = Some y"
    with n xs show "\<exists>as bs. xs = as @ x # y # bs" by (auto split: list.splits)
  next
    assume "\<exists>as bs. xs = as @ x # y # bs"
    then obtain as' bs' where xs': "xs = as' @ x # y # bs'" by blast
    with assms have "x \<notin> set as'" by auto
    with xs' show "next_in xs x = Some y" by (simp add: next_in_mid)
  qed
next
  case False
  then have "next_in xs x = None" unfolding next_in_def by (induction xs) auto
  with False show ?thesis by auto
qed

lemma prev_in_Some:
  assumes "distinct xs"
  shows "next_in (rev xs) y = Some x \<longleftrightarrow> (\<exists>as bs. xs = as @ x # y # bs)"
proof -
  have "(\<exists>as bs. rev xs = as @ y # x # bs) \<longleftrightarrow> (\<exists>as bs. xs = as @ x # y # bs)"
  proof
    assume "\<exists>as bs. rev xs = as @ y # x # bs"
    then obtain as bs where "rev xs = as @ y # x # bs" by blast
    then have "rev (rev xs) = rev (as @ y # x # bs)" by (rule arg_cong)
    then have "xs = rev bs @ x # y # rev as" by simp
    then show "\<exists>as bs. xs = as @ x # y # bs" by blast
  next
    assume "\<exists>as bs. xs = as @ x # y # bs"
    then obtain as bs where "xs = as @ x # y # bs" by blast
    then have "rev xs = rev bs @ y # x # rev as" by simp
    then show "\<exists>as bs. rev xs = as @ y # x # bs" by blast
  qed
  with next_in_Some[of "rev xs" y x] assms show ?thesis by simp
qed

lemma in_insts: "I \<in> set (insts F) \<longleftrightarrow> (\<exists>B \<in> set (fn_blocks F). I \<in> set (bb_insts B))"
  by (auto simp: insts_def)

lemma distinct_insts_block:
  assumes "distinct (concat (map bb_insts Bs))" "B \<in> set Bs" "C \<in> set Bs"
    "I \<in> set (bb_insts B)" "I \<in> set (bb_insts C)"
  shows "B = C \<and> distinct (bb_insts B)"
  using assms by (induction Bs) auto

lemma wf_block_unique:
  assumes "wf_func m F" "B \<in> set (fn_blocks F)" "C \<in> set (fn_blocks F)"
    "I \<in> set (bb_insts B)" "I \<in> set (bb_insts C)"
  shows "B = C"
  using assms distinct_insts_block unfolding wf_func_def insts_def by blast

lemma wf_block_distinct: "wf_func m F \<Longrightarrow> B \<in> set (fn_blocks F) \<Longrightarrow> distinct (bb_insts B)"
proof (cases "bb_insts B")
  case (Cons a xs)
  assume "wf_func m F" "B \<in> set (fn_blocks F)"
  with Cons show ?thesis using distinct_insts_block[of "fn_blocks F" B B a]
    unfolding wf_func_def insts_def by simp
qed simp

lemma find_unique:
  assumes "x \<in> set xs" "P x" "\<And>y. y \<in> set xs \<Longrightarrow> P y \<Longrightarrow> y = x"
  shows "find P xs = Some x"
  using assms
proof (induction xs)
  case (Cons a xs)
  show ?case
  proof (cases "P a")
    case True
    with Cons.prems(3)[of a] show ?thesis by simp
  next
    case False
    with Cons.prems(1,2) have "x \<in> set xs" by auto
    from Cons.IH[OF this Cons.prems(2)] Cons.prems(3) False show ?thesis by simp
  qed
qed simp

lemma block_of_in:
  assumes "wf_func m F" "B \<in> set (fn_blocks F)" "I \<in> set (bb_insts B)"
  shows "block_of F I = Some B"
  unfolding block_of_def using assms wf_block_unique by (intro find_unique) blast+

lemma block_of_SomeD: "block_of F I = Some B \<Longrightarrow> B \<in> set (fn_blocks F) \<and> I \<in> set (bb_insts B)"
  unfolding block_of_def by (auto simp: find_Some_iff)

lemma block_at_in:
  assumes "wf_func m F" "B \<in> set (fn_blocks F)"
  shows "block_at F (bb_id B) = Some B"
proof -
  have "inj_on bb_id (set (fn_blocks F))"
    using assms(1) unfolding wf_func_def by (simp add: distinct_map)
  then have "y = B" if "y \<in> set (fn_blocks F)" "bb_id y = bb_id B" for y
    using that assms(2) by (simp add: inj_on_eq_iff)
  with assms(2) show ?thesis unfolding block_at_def by (intro find_unique) auto
qed

lemma front_of_in:
  assumes "wf_func m F" "B \<in> set (fn_blocks F)"
  shows "front_of F (bb_id B) = [hd (bb_insts B)] \<and> bb_insts B \<noteq> []"
proof -
  have "bb_insts B \<noteq> []" using assms unfolding wf_func_def wf_bb_def by blast
  with block_at_in[OF assms] show ?thesis by (cases "bb_insts B") (auto simp: front_of_def)
qed

lemma wf_last_terminator:
  assumes "wf_func m F" "B \<in> set (fn_blocks F)" "I \<in> set (bb_insts B)"
  shows "isTerminator m I \<longleftrightarrow> I = last (bb_insts B)"
proof
  have ne: "bb_insts B \<noteq> []" and wf: "isTerminator m (last (bb_insts B))"
    "\<forall>I \<in> set (butlast (bb_insts B)). \<not> isTerminator m I"
    using assms(1,2) unfolding wf_func_def wf_bb_def by blast+
  {
    assume "isTerminator m I"
    with wf(2) have "I \<notin> set (butlast (bb_insts B))" by blast
    moreover have "I \<in> set (butlast (bb_insts B) @ [last (bb_insts B)])"
      using assms(3) ne by simp
    ultimately show "I = last (bb_insts B)" by auto
  }
  assume "I = last (bb_insts B)" with wf(1) show "isTerminator m I" by simp
qed

text \<open>Inside a block the next instruction is the only successor; the last instruction goes to the
  fronts of the blocks it names.\<close>

lemma successors_mid:
  assumes "wf_func m F" "B \<in> set (fn_blocks F)" "bb_insts B = as @ x # y # bs"
  shows "successors_inst m F x = [y]"
proof -
  have d: "distinct (as @ x # y # bs)" using wf_block_distinct[OF assms(1,2)] assms(3) by simp
  have x: "x \<in> set (bb_insts B)" using assms(3) by simp
  have "last (bb_insts B) \<in> set (y # bs)" using assms(3) by auto
  with d have "x \<noteq> last (bb_insts B)" by auto
  with wf_last_terminator[OF assms(1,2) x] have "\<not> isTerminator m x" by simp
  with block_of_in[OF assms(1,2) x] d assms(3) show ?thesis
    by (simp add: successors_inst_def getNextNode_def next_in_mid)
qed

lemma successors_last:
  assumes "wf_func m F" "B \<in> set (fn_blocks F)"
  shows "successors_inst m F (last (bb_insts B)) =
     concat (map (front_of F) (succs (ins m (last (bb_insts B)))))"
  using assms unfolding wf_func_def wf_bb_def by (simp add: successors_inst_def)

lemma predecessors_mid:
  assumes "wf_func m F" "B \<in> set (fn_blocks F)" "bb_insts B = as @ x # y # bs"
  shows "predecessors m F y = [x]"
proof -
  have d: "distinct (bb_insts B)" using wf_block_distinct[OF assms(1,2)] .
  have "y \<in> set (bb_insts B)" using assms(3) by simp
  with block_of_in[OF assms(1,2)] have "getPrevNode F y = next_in (rev (bb_insts B)) y"
    by (simp add: getPrevNode_def)
  moreover have "next_in (rev (bb_insts B)) y = Some x"
    using prev_in_Some[OF d] assms(3) by blast
  ultimately show ?thesis by (simp add: predecessors_def)
qed

lemma predecessors_front:
  assumes "wf_func m F" "B \<in> set (fn_blocks F)"
  shows "predecessors m F (hd (bb_insts B)) = map (\<lambda>P. last (bb_insts P)) (pred_blocks m F (bb_id B))"
proof -
  from assms obtain a xs where B: "bb_insts B = a # xs"
    using front_of_in[OF assms] by (cases "bb_insts B") auto
  have d: "distinct (bb_insts B)" using wf_block_distinct[OF assms] .
  have "next_in (rev (bb_insts B)) a = None"
  proof (rule ccontr)
    assume "next_in (rev (bb_insts B)) a \<noteq> None"
    then obtain x where "next_in (rev (bb_insts B)) a = Some x" by blast
    with prev_in_Some[OF d] obtain as bs where "bb_insts B = as @ x # a # bs" by blast
    with B d show False by (cases as) auto
  qed
  moreover have "block_of F a = Some B" using block_of_in[OF assms] B by simp
  ultimately show ?thesis using B by (simp add: predecessors_def getPrevNode_def)
qed

lemma in_pred_blocks:
  "P \<in> set (pred_blocks m F b) \<longleftrightarrow> P \<in> set (fn_blocks F) \<and> b \<in> set (succs (ins m (last (bb_insts P))))"
  by (auto simp: pred_blocks_def)

lemma block_split:
  assumes "x \<in> set xs"
  shows "x = last xs \<or> (\<exists>as y bs. xs = as @ x # y # bs)"
proof -
  from assms obtain as bs where "xs = as @ x # bs" by (meson split_list)
  then show ?thesis by (cases bs) auto
qed

lemma block_split_front:
  assumes "y \<in> set xs"
  shows "y = hd xs \<or> (\<exists>as x bs. xs = as @ x # y # bs)"
proof -
  from assms obtain as bs where xs: "xs = as @ y # bs" by (meson split_list)
  show ?thesis
  proof (cases as rule: rev_cases)
    case Nil
    with xs show ?thesis by simp
  next
    case (snoc as' x)
    with xs show ?thesis by auto
  qed
qed

lemma successors_step:
  assumes "wf_func m F" "I \<in> set (insts F)" "J \<in> set (successors_inst m F I)"
  shows "(\<exists>B \<in> set (fn_blocks F). \<exists>as bs. bb_insts B = as @ I # J # bs) \<or>
     (\<exists>B \<in> set (fn_blocks F). \<exists>C \<in> set (fn_blocks F). I = last (bb_insts B) \<and> J = hd (bb_insts C) \<and>
        bb_id C \<in> set (succs (ins m I)))"
proof -
  from assms(2) obtain B where B: "B \<in> set (fn_blocks F)" "I \<in> set (bb_insts B)" by (auto simp: in_insts)
  from block_split[OF B(2)] show ?thesis
  proof
    assume I: "I = last (bb_insts B)"
    with assms(3) successors_last[OF assms(1) B(1)] obtain b where
      b: "b \<in> set (succs (ins m I))" "J \<in> set (front_of F b)" by auto
    have "set (succs (ins m I)) \<subseteq> bb_id ` set (fn_blocks F)"
      using assms(1) B(1) I unfolding wf_func_def wf_bb_def by blast
    with b(1) obtain C where C: "C \<in> set (fn_blocks F)" "bb_id C = b" by blast
    with b(2) front_of_in[OF assms(1) C(1)] have "J = hd (bb_insts C)" by simp
    with B(1) C I b(1) show ?thesis by blast
  next
    assume "\<exists>as y bs. bb_insts B = as @ I # y # bs"
    then obtain as y bs where xs: "bb_insts B = as @ I # y # bs" by blast
    with successors_mid[OF assms(1) B(1) xs] assms(3) have "J = y" by simp
    with xs B(1) show ?thesis by blast
  qed
qed

lemma predecessors_step:
  assumes "wf_func m F" "J \<in> set (insts F)" "I \<in> set (predecessors m F J)"
  shows "(\<exists>B \<in> set (fn_blocks F). \<exists>as bs. bb_insts B = as @ I # J # bs) \<or>
     (\<exists>B \<in> set (fn_blocks F). \<exists>C \<in> set (fn_blocks F). I = last (bb_insts B) \<and> J = hd (bb_insts C) \<and>
        bb_id C \<in> set (succs (ins m I)))"
proof -
  from assms(2) obtain C where C: "C \<in> set (fn_blocks F)" "J \<in> set (bb_insts C)" by (auto simp: in_insts)
  from block_split_front[OF C(2)] show ?thesis
  proof
    assume J: "J = hd (bb_insts C)"
    with assms(3) predecessors_front[OF assms(1) C(1)] obtain P where
      "P \<in> set (pred_blocks m F (bb_id C))" "I = last (bb_insts P)" by auto
    with J C(1) show ?thesis by (auto simp: in_pred_blocks)
  next
    assume "\<exists>as y bs. bb_insts C = as @ y # J # bs"
    then obtain as y bs where xs: "bb_insts C = as @ y # J # bs" by blast
    with predecessors_mid[OF assms(1) C(1) xs] assms(3) have "I = y" by simp
    with xs C(1) show ?thesis by blast
  qed
qed

lemma last_succ_front:
  assumes "wf_func m F" "B \<in> set (fn_blocks F)" "C \<in> set (fn_blocks F)"
    "bb_id C \<in> set (succs (ins m (last (bb_insts B))))"
  shows "hd (bb_insts C) \<in> set (successors_inst m F (last (bb_insts B))) \<and>
     last (bb_insts B) \<in> set (predecessors m F (hd (bb_insts C)))"
proof
  from front_of_in[OF assms(1,3)] assms(4)
  show "hd (bb_insts C) \<in> set (successors_inst m F (last (bb_insts B)))"
    unfolding successors_last[OF assms(1,2)] by force
  have "B \<in> set (pred_blocks m F (bb_id C))" using assms(2,4) by (simp add: in_pred_blocks)
  then show "last (bb_insts B) \<in> set (predecessors m F (hd (bb_insts C)))"
    unfolding predecessors_front[OF assms(1,3)] by simp
qed

theorem succ_iff_pred:
  assumes "wf_func m F" "I \<in> set (insts F)" "J \<in> set (insts F)"
  shows "J \<in> set (successors_inst m F I) \<longleftrightarrow> I \<in> set (predecessors m F J)"
proof
  assume "J \<in> set (successors_inst m F I)"
  from successors_step[OF assms(1,2) this] show "I \<in> set (predecessors m F J)"
    using predecessors_mid[OF assms(1)] last_succ_front[OF assms(1)] by fastforce
next
  assume "I \<in> set (predecessors m F J)"
  from predecessors_step[OF assms(1,3) this] show "J \<in> set (successors_inst m F I)"
    using successors_mid[OF assms(1)] last_succ_front[OF assms(1)] by fastforce
qed

lemma bb_ends_in_insts:
  assumes "wf_func m F" "B \<in> set (fn_blocks F)"
  shows "hd (bb_insts B) \<in> set (insts F)" "last (bb_insts B) \<in> set (insts F)"
  using front_of_in[OF assms] assms(2) hd_in_set last_in_set unfolding in_insts by blast+

lemma successors_in_insts:
  assumes "wf_func m F" "I \<in> set (insts F)"
  shows "set (successors_inst m F I) \<subseteq> set (insts F)"
proof
  fix J assume "J \<in> set (successors_inst m F I)"
  from successors_step[OF assms this] show "J \<in> set (insts F)"
  proof (elim disjE bexE exE conjE)
    fix B as bs assume "B \<in> set (fn_blocks F)" "bb_insts B = as @ I # J # bs"
    then show ?thesis by (force simp: in_insts)
  qed (use bb_ends_in_insts[OF assms(1)] in auto)
qed

lemma predecessors_in_insts:
  assumes "wf_func m F" "J \<in> set (insts F)"
  shows "set (predecessors m F J) \<subseteq> set (insts F)"
proof
  fix I assume "I \<in> set (predecessors m F J)"
  from predecessors_step[OF assms this] show "I \<in> set (insts F)"
  proof (elim disjE bexE exE conjE)
    fix B as bs assume "B \<in> set (fn_blocks F)" "bb_insts B = as @ I # J # bs"
    then show ?thesis by (force simp: in_insts)
  qed (use bb_ends_in_insts[OF assms(1)] in auto)
qed

subsection \<open>\<open>getInstructionsReachableFrom\<close>, \<open>getInstructionsBetween\<close>\<close>

definition next_nodes :: "ir_module \<Rightarrow> func \<Rightarrow> bool \<Rightarrow> nat \<Rightarrow> nat list" where
  "next_nodes m F forward I = os_of
     (if forward then (case getNextNode F I of
         Some n \<Rightarrow> [n] | None \<Rightarrow> concat (map (front_of F) (succs (ins m I))))
      else predecessors m F I)"

function (sequential) reachable_from_loop :: "nat list \<Rightarrow> (nat \<Rightarrow> nat list) \<Rightarrow> bool \<Rightarrow> nat list \<Rightarrow>
    nat set \<Rightarrow> nat set res" where
  "reachable_from_loop U nexts inclusive [] seen = Inr seen"
| "reachable_from_loop U nexts inclusive (I # todo) seen =
     (if I \<in> seen then reachable_from_loop U nexts inclusive todo seen
      else if I \<notin> set U then Inl Bad_pointer
      else let seen1 = (if inclusive then insert I seen else seen);
               succs = nexts I;
               seen2 = (if \<not> inclusive then seen1 \<union> set succs else seen1)
           in reachable_from_loop U nexts inclusive (todo @ succs) seen2)"
  by pat_completeness auto

lemma unseen_filter_less:
  "length (filter (\<lambda>x. x \<notin> A \<and> x \<notin> B) xs) < Suc (length (filter (\<lambda>x. x \<notin> A) xs))"
  by (induction xs) auto

lemma filter_not_in_set: "filter (\<lambda>x. x \<notin> A \<and> x \<notin> set xs) xs = []"
  by (simp add: filter_empty_conv)

termination reachable_from_loop
  by (relation "measures [\<lambda>(U, nexts, inclusive, todo, seen).
          if inclusive then card (set U - seen) else length (filter (\<lambda>x. x \<notin> seen) todo),
        \<lambda>(U, nexts, inclusive, todo, seen). length todo]")
     (use unseen_filter_less in \<open>auto simp: card_unseen_less filter_not_in_set
        simp del: card_Diff_insert dest: less_not_sym\<close>)

definition getInstructionsReachableFrom :: "ir_module \<Rightarrow> func \<Rightarrow> nat \<Rightarrow> bool \<Rightarrow> bool \<Rightarrow> nat set res" where
  "getInstructionsReachableFrom m F start forward inclusive =
     reachable_from_loop (insts F) (next_nodes m F forward) inclusive [start] {}"

definition getInstructionsBetween :: "ir_module \<Rightarrow> func \<Rightarrow> nat \<Rightarrow> nat \<Rightarrow> nat set res" where
  "getInstructionsBetween m F start stop =
     bindr (getInstructionsReachableFrom m F start True False) (\<lambda>fwd.
     bindr (getInstructionsReachableFrom m F stop False False) (\<lambda>bwd. Inr (fwd \<inter> bwd)))"

subsection \<open>Frontiers\<close>

definition reachable_predecessors :: "ir_module \<Rightarrow> func \<Rightarrow> nat \<Rightarrow> nat set res" where
  "reachable_predecessors m F root = wl_pop Bad_pointer (insts F) queue_push (predecessors m F) [root] {}"

text \<open>The loop of \<open>frontier_impl\<close> neither expands the endpoint nor the instructions of \<open>in\<close>; those of
  \<open>in\<close> it meets are the frontier, and it fails when it meets the endpoint.\<close>

definition frontier_impl :: "ir_module \<Rightarrow> func \<Rightarrow> nat \<Rightarrow> (nat \<Rightarrow> bool) \<Rightarrow> (nat \<Rightarrow> nat list) \<Rightarrow>
    (bool \<times> nat set) res" where
  "frontier_impl m F endpoint pred nexts =
     bindr (reachable_predecessors m F endpoint) (\<lambda>subgraph.
     let inn = {I \<in> set (insts F). I \<in> subgraph \<and> pred I}
     in bindr (wl_pop Bad_pointer (insts F) queue_push
           (\<lambda>I. if I = endpoint \<or> I \<in> inn then [] else nexts I) [entry_inst F] {}) (\<lambda>seen.
        Inr (endpoint \<notin> seen, {I \<in> seen. I \<noteq> endpoint \<and> I \<in> inn})))"

definition forward_frontier :: "ir_module \<Rightarrow> func \<Rightarrow> nat \<Rightarrow> (nat \<Rightarrow> bool) \<Rightarrow> (bool \<times> nat set) res" where
  "forward_frontier m F endpoint pred = frontier_impl m F endpoint pred (successors_inst m F)"

definition reverse_frontier :: "ir_module \<Rightarrow> func \<Rightarrow> nat \<Rightarrow> (nat \<Rightarrow> bool) \<Rightarrow> (bool \<times> nat set) res" where
  "reverse_frontier m F endpoint pred = frontier_impl m F endpoint pred (predecessors m F)"

text \<open>\<open>getFrontierBwd\<close>: the first targets met walking back from \<open>root\<close>, and the function's start when
  a target is an argument.\<close>

definition getFrontierBwd :: "ir_module \<Rightarrow> func \<Rightarrow> nat \<Rightarrow> nat set \<Rightarrow> nat set \<Rightarrow> nat set res" where
  "getFrontierBwd m F root targets out =
     (let hasArg = (\<exists>t \<in> targets. is_argument m t);
          target = (\<lambda>I. I \<noteq> root \<and> I \<in> targets);
          start = (\<lambda>I. predecessors m F I = [] \<and> hasArg)
      in assertr (root \<notin> targets)
        (bindr (wl_pop Bad_pointer (insts F) stack_push
             (\<lambda>I. if target I \<or> start I then [] else predecessors m F I) [root] {}) (\<lambda>seen.
         Inr (out \<union> {I \<in> seen. target I \<or> start I}))))"

subsection \<open>What the searches compute\<close>

lemma next_nodes_forward:
  assumes "wf_func m F" "I \<in> set (insts F)"
  shows "set (next_nodes m F True I) = set (successors_inst m F I)"
proof -
  from assms(2) obtain B where B: "B \<in> set (fn_blocks F)" "I \<in> set (bb_insts B)" by (auto simp: in_insts)
  have d: "distinct (bb_insts B)" using wf_block_distinct[OF assms(1) B(1)] .
  show ?thesis
  proof (cases "getNextNode F I")
    case None
    then have "next_in (bb_insts B) I = None"
      using block_of_in[OF assms(1) B] by (simp add: getNextNode_def)
    with next_in_Some[OF d] block_split[OF B(2)] have "I = last (bb_insts B)" by force
    with wf_last_terminator[OF assms(1) B] None show ?thesis
      by (simp add: next_nodes_def successors_inst_def os_of_def)
  next
    case (Some n)
    then have "next_in (bb_insts B) I = Some n"
      using block_of_in[OF assms(1) B] by (simp add: getNextNode_def)
    with next_in_Some[OF d] obtain as bs where "bb_insts B = as @ I # n # bs" by blast
    from successors_mid[OF assms(1) B(1) this] Some show ?thesis by (simp add: next_nodes_def os_of_def)
  qed
qed

lemma next_nodes_backward: "set (next_nodes m F False I) = set (predecessors m F I)"
  by (simp add: next_nodes_def os_of_def)

lemma reachable_from_inclusive:
  "reachable_from_loop U nexts True todo seen = wl_pop Bad_pointer U queue_push nexts todo seen"
  by (induction U nexts "True" todo seen rule: reachable_from_loop.induct)
     (auto simp: queue_push_def Let_def)

lemma reachable_from_seen: "set todo \<subseteq> seen \<Longrightarrow> reachable_from_loop U nexts inclusive todo seen = Inr seen"
  by (induction todo) auto

lemma reachable_from_exclusive:
  "start \<in> set U \<Longrightarrow> reachable_from_loop U nexts False [start] {} = Inr (set (nexts start))"
  by (simp add: Let_def reachable_from_seen)

lemma cfg_in_insts:
  assumes "wf_func m F" "(u, v) \<in> (cfg m F)\<^sup>*" "u \<in> set (insts F)"
  shows "v \<in> set (insts F)"
proof (rule rtrancl_closed[OF assms(2,3)])
  fix u v assume "(u, v) \<in> cfg m F"
  then show "v \<in> set (insts F)" using successors_in_insts[OF assms(1)] by (auto simp: cfg_def)
qed

lemma srel_successors:
  assumes "wf_func m F" "x \<in> set (insts F)"
  shows "(x, y) \<in> (srel (successors_inst m F))\<^sup>* \<longleftrightarrow> (x, y) \<in> (cfg m F)\<^sup>*"
proof
  assume "(x, y) \<in> (srel (successors_inst m F))\<^sup>*"
  then have "(x, y) \<in> (cfg m F)\<^sup>* \<and> y \<in> set (insts F)"
  proof (induction rule: rtrancl_induct)
    case (step y z)
    then have "(y, z) \<in> cfg m F" by (simp add: cfg_def)
    with step.IH have "(x, z) \<in> (cfg m F)\<^sup>*" by (meson rtrancl_into_rtrancl)
    with step successors_in_insts[OF assms(1)] show ?case by auto
  qed (simp add: assms(2))
  then show "(x, y) \<in> (cfg m F)\<^sup>*" by simp
next
  assume "(x, y) \<in> (cfg m F)\<^sup>*"
  then show "(x, y) \<in> (srel (successors_inst m F))\<^sup>*"
    by (rule rtrancl_mono[THEN subsetD, rotated]) (auto simp: cfg_def)
qed

lemma srel_predecessors:
  assumes "wf_func m F" "x \<in> set (insts F)"
  shows "(x, y) \<in> (srel (predecessors m F))\<^sup>* \<longleftrightarrow> y \<in> set (insts F) \<and> (y, x) \<in> (cfg m F)\<^sup>*"
proof
  assume "(x, y) \<in> (srel (predecessors m F))\<^sup>*"
  then show "y \<in> set (insts F) \<and> (y, x) \<in> (cfg m F)\<^sup>*"
  proof (induction rule: rtrancl_induct)
    case (step y z)
    then have z: "z \<in> set (insts F)" using predecessors_in_insts[OF assms(1)] by auto
    with step succ_iff_pred[OF assms(1) z] have "(z, y) \<in> cfg m F" by (simp add: cfg_def)
    with step z show ?case by (meson converse_rtrancl_into_rtrancl)
  qed (simp add: assms(2))
next
  assume "y \<in> set (insts F) \<and> (y, x) \<in> (cfg m F)\<^sup>*"
  then have "(y, x) \<in> (cfg m F)\<^sup>*" by simp
  then show "(x, y) \<in> (srel (predecessors m F))\<^sup>*"
  proof (induction rule: converse_rtrancl_induct)
    case (step y z)
    then have "z \<in> set (insts F)" "y \<in> set (insts F)"
      using successors_in_insts[OF assms(1)] by (auto simp: cfg_def)
    with step succ_iff_pred[OF assms(1)] have "y \<in> set (predecessors m F z)" by (simp add: cfg_def)
    with step show ?case by (simp add: rtrancl_into_rtrancl)
  qed simp
qed

lemma reachable_predecessors_exact:
  assumes "wf_func m F" "root \<in> set (insts F)"
  shows "reachable_predecessors m F root = Inr {u \<in> set (insts F). (u, root) \<in> (cfg m F)\<^sup>*}"
proof -
  have "\<exists>R. wl_pop Bad_pointer (insts F) queue_push (predecessors m F) [root] {} = Inr R"
    using assms predecessors_in_insts[OF assms(1)] by (intro wl_pop_total) auto
  then obtain R where R: "wl_pop Bad_pointer (insts F) queue_push (predecessors m F) [root] {} = Inr R" ..
  from wl_pop_reach[OF this] have "R = (srel (predecessors m F))\<^sup>* `` {root}" by simp
  with R srel_predecessors[OF assms] show ?thesis by (auto simp: reachable_predecessors_def)
qed

lemma frontier_implI:
  assumes "reachable_predecessors m F endpoint = Inr sub"
    "inn = {I \<in> set (insts F). I \<in> sub \<and> pred I}"
    "wl_pop Bad_pointer (insts F) queue_push
       (\<lambda>I. if I = endpoint \<or> I \<in> inn then [] else nexts I) [entry_inst F] {} = Inr seen"
  shows "frontier_impl m F endpoint pred nexts =
     Inr (endpoint \<notin> seen, {I \<in> seen. I \<noteq> endpoint \<and> I \<in> inn})"
  unfolding frontier_impl_def assms(1) bindr_Inr Let_def assms(2)[symmetric] assms(3) by simp

lemma forward_frontier_law:
  assumes "wf_func m F" "endpoint \<in> set (insts F)"
  obtains ok fr where "forward_frontier m F endpoint pred = Inr (ok, fr)"
    and "ok \<longleftrightarrow> (entry_inst F, endpoint) \<notin> {(u, v) \<in> cfg m F. \<not> pred u}\<^sup>*"
    and "\<And>I. I \<in> fr \<Longrightarrow> pred I \<and> (entry_inst F, I) \<in> (cfg m F)\<^sup>* \<and> (I, endpoint) \<in> (cfg m F)\<^sup>*"
proof -
  define inn where "inn = {I \<in> set (insts F). (I, endpoint) \<in> (cfg m F)\<^sup>* \<and> pred I}"
  define nx where "nx = (\<lambda>I. if I = endpoint \<or> I \<in> inn then [] else successors_inst m F I)"
  have entry: "entry_inst F \<in> set (insts F)"
    using assms(2) by (cases "insts F") (auto simp: entry_inst_def)
  have nx_in: "set (nx u) \<subseteq> set (insts F)" if "u \<in> set (insts F)" for u
    using successors_in_insts[OF assms(1) that] by (auto simp: nx_def)
  have "\<exists>R. wl_pop Bad_pointer (insts F) queue_push nx [entry_inst F] {} = Inr R"
    using entry nx_in by (intro wl_pop_total) auto
  then obtain seen where R: "wl_pop Bad_pointer (insts F) queue_push nx [entry_inst F] {} = Inr seen" ..
  have seen: "seen = (srel nx)\<^sup>* `` {entry_inst F}" using wl_pop_reach[OF R] by simp
  have sub: "seen \<subseteq> (cfg m F)\<^sup>* `` {entry_inst F}"
  proof -
    have "(srel nx)\<^sup>* \<subseteq> (srel (successors_inst m F))\<^sup>*"
      by (rule rtrancl_mono) (auto simp: nx_def split: if_splits)
    then show ?thesis using seen srel_successors[OF assms(1) entry] by auto
  qed
  have run: "forward_frontier m F endpoint pred = Inr (endpoint \<notin> seen, {I \<in> seen. I \<noteq> endpoint \<and> I \<in> inn})"
    unfolding forward_frontier_def
    by (rule frontier_implI[OF reachable_predecessors_exact[OF assms] _ R[unfolded nx_def]])
       (auto simp: inn_def)
  have fwd: "endpoint \<in> seen" if "(entry_inst F, endpoint) \<in> {(u, v) \<in> cfg m F. \<not> pred u}\<^sup>*"
  proof -
    from that have "endpoint \<in> seen \<or> endpoint \<in> seen"
    proof (induction rule: rtrancl_induct[where P = "\<lambda>x. endpoint \<in> seen \<or> x \<in> seen", case_names base step])
      case (step x y)
      show ?case
      proof (cases "endpoint \<in> seen")
        case False
        with step have "x \<in> seen" "x \<noteq> endpoint" "\<not> pred x" "y \<in> set (successors_inst m F x)"
          by (auto simp: cfg_def)
        then have "(x, y) \<in> srel nx" by (simp add: nx_def inn_def)
        with \<open>x \<in> seen\<close> show ?thesis unfolding seen by (auto intro: rtrancl_into_rtrancl)
      qed simp
    qed (simp add: seen)
    then show ?thesis by simp
  qed
  have bwd: "(entry_inst F, endpoint) \<in> {(u, v) \<in> cfg m F. \<not> pred u}\<^sup>*" if "endpoint \<in> seen"
  proof -
    have "x \<in> set (insts F) \<Longrightarrow> (x, endpoint) \<in> {(u, v) \<in> cfg m F. \<not> pred u}\<^sup>*"
      if "(x, endpoint) \<in> (srel nx)\<^sup>*" for x
      using that
    proof (induction rule: converse_rtrancl_induct)
      case (step u v)
      from step(1) have uv: "u \<noteq> endpoint" "u \<notin> inn" "v \<in> set (successors_inst m F u)"
        by (auto simp: nx_def split: if_splits)
      then have e: "(u, v) \<in> cfg m F" using step(4) by (simp add: cfg_def)
      have "v \<in> set (insts F)" using uv(3) successors_in_insts[OF assms(1) step(4)] by auto
      with step(3) have v: "(v, endpoint) \<in> {(u, v) \<in> cfg m F. \<not> pred u}\<^sup>*" by simp
      then have "(v, endpoint) \<in> (cfg m F)\<^sup>*" by (rule rtrancl_mono[THEN subsetD, rotated]) auto
      with e have "(u, endpoint) \<in> (cfg m F)\<^sup>*" by (rule converse_rtrancl_into_rtrancl)
      with uv(2) step(4) have "\<not> pred u" by (simp add: inn_def)
      with e v show ?case by (auto intro: converse_rtrancl_into_rtrancl)
    qed simp
    with that entry show ?thesis unfolding seen by simp
  qed
  show ?thesis
    by (rule that[OF run]) (use fwd bwd sub in \<open>auto simp: inn_def\<close>)
qed

text \<open>\<open>reverse_frontier\<close> also starts at the function's entry, not at the endpoint.\<close>

lemma reverse_frontier_stuck:
  assumes "wf_func m F" "endpoint \<in> set (insts F)" "predecessors m F (entry_inst F) = []"
  shows "\<exists>fr. reverse_frontier m F endpoint pred = Inr (endpoint \<noteq> entry_inst F, fr) \<and> fr \<subseteq> {entry_inst F}"
proof -
  have entry: "entry_inst F \<in> set (insts F)"
    using assms(2) by (cases "insts F") (auto simp: entry_inst_def)
  define sub where "sub = {u \<in> set (insts F). (u, endpoint) \<in> (cfg m F)\<^sup>*}"
  define inn where "inn = {I \<in> set (insts F). I \<in> sub \<and> pred I}"
  have "wl_pop Bad_pointer (insts F) queue_push
      (\<lambda>I. if I = endpoint \<or> I \<in> inn then [] else predecessors m F I) [entry_inst F] {} =
    Inr {entry_inst F}"
    using entry assms(3) by (simp add: queue_push_def)
  from frontier_implI[OF reachable_predecessors_exact[OF assms(1,2), folded sub_def] inn_def this]
  show ?thesis by (auto simp: reverse_frontier_def)
qed

end
