(* ===== verification/Util.thy ===== *)
theory Util
  imports Cfg
begin

text \<open>
  The queries of \<open>src/util.cc\<close> and \<open>src/include/clou/util.h\<close> on functions, calls, addresses and
  operands. Where the code recurses along operands, the model counts the depth down from the
  number of values of the module: a deeper recursion meets a value twice on one path, so the code
  does not return (\<open>Diverges\<close>).
\<close>

subsection \<open>Functions and calls\<close>

fun linkageTypeToString :: "linkage \<Rightarrow> string" where
  "linkageTypeToString PrivateLinkage = ''private''"
| "linkageTypeToString InternalLinkage = ''internal''"
| "linkageTypeToString AvailableExternallyLinkage = ''available_externally''"
| "linkageTypeToString LinkOnceAnyLinkage = ''linkonce_any''"
| "linkageTypeToString LinkOnceODRLinkage = ''linkonce_odr''"
| "linkageTypeToString WeakAnyLinkage = ''weak_any''"
| "linkageTypeToString WeakODRLinkage = ''weak_odr''"
| "linkageTypeToString CommonLinkage = ''common''"
| "linkageTypeToString AppendingLinkage = ''appending''"
| "linkageTypeToString ExternalLinkage = ''external''"
| "linkageTypeToString _ = ''unknown_linkage_type''"

definition functionIsDirectCallOnly :: "func \<Rightarrow> bool" where
  "functionIsDirectCallOnly F =
     (if fn_addr_taken F then False
      else case fn_linkage F of InternalLinkage \<Rightarrow> True | PrivateLinkage \<Rightarrow> True | _ \<Rightarrow> False)"

definition not_lowered :: "intrinsic list" where
  "not_lowered =
     [In_fshr, In_fshl, x86 aesni_aesenc, x86 aesni_aeskeygenassist, x86 aesni_aesenclast,
      vector_reduce ReduceAnd, vector_reduce ReduceOr, In_umax, In_umin, In_smax, In_smin, In_ctpop,
      In_bswap, x86 pclmulqdq, x86 rdrand_32, In_vastart, In_vaend, vector_reduce ReduceAdd, In_abs,
      In_umul_with_overflow, In_bitreverse, In_cttz, In_usub_sat, In_fmuladd, In_annotation,
      x86 sse2_mfence, In_fabs, In_floor, x86 sse2_lfence, In_memcpy_inline,
      experimental_constrained FCmp, experimental_constrained FSub, experimental_constrained FMul,
      experimental_constrained FCmps, experimental_constrained SIToFP,
      experimental_constrained UIToFP, experimental_constrained FAdd,
      experimental_constrained FPToSI, experimental_constrained FDiv,
      experimental_constrained FPToUI, experimental_constrained FPExt,
      experimental_constrained FFloor, experimental_constrained FCeil, In_vacopy,
      experimental_constrained FPTrunc, experimental_constrained FMulAdd, In_masked_load,
      In_masked_gather, In_stacksave, In_stackrestore, In_masked_store, vector_reduce ReduceMul,
      vector_reduce ReduceUMax, vector_reduce ReduceUMin, vector_reduce ReduceSMax,
      vector_reduce ReduceSMin, vector_reduce ReduceXor, In_trap, In_eh_typeid_for,
      In_uadd_with_overflow, In_ctlz, experimental_constrained FPowI,
      experimental_constrained FTrunc, experimental_constrained FRound, In_prefetch, In_uadd_sat]"

definition mayLowerToFunctionCall :: "ir_module \<Rightarrow> nat \<Rightarrow> bool res" where
  "mayLowerToFunctionCall m C = (case intrinsic_id m C of
      Some k \<Rightarrow>
        if assume_like (ins m C) then Inr False
        else if k \<in> set not_lowered then Inr False
        else if k \<in> {In_memset, In_memcpy, In_memmove} then Inr True
        else Inl Unhandled
    | None \<Rightarrow> Inr True)"

fun getCalledFunctionRec :: "ir_module \<Rightarrow> nat \<Rightarrow> nat \<Rightarrow> nat option res" where
  "getCalledFunctionRec m 0 V = Inl Diverges"
| "getCalledFunctionRec m (Suc n) V = (case vals m V of
      Function _ \<Rightarrow> Inr (Some V)
    | ConstantExpr CBitCast ops _ \<Rightarrow> assertr (length ops = 1) (getCalledFunctionRec m n (ops ! 0))
    | Inst i \<Rightarrow> if opc i = BitCast
        then assertr (length (operands i) = 1) (getCalledFunctionRec m n (opnd i 0))
        else Inr None
    | Argument _ _ _ \<Rightarrow> Inr None
    | InlineAsm \<Rightarrow> Inr None
    | _ \<Rightarrow> Inl Unhandled)"

definition getCalledFunction :: "ir_module \<Rightarrow> nat \<Rightarrow> nat option res" where
  "getCalledFunction m C = getCalledFunctionRec m (Suc (vbound m)) (getCalledOperand (ins m C))"

definition fn_of :: "ir_module \<Rightarrow> nat \<Rightarrow> func" where
  "fn_of m f = (case vals m f of Function F \<Rightarrow> F | _ \<Rightarrow> func0)"

text \<open>\<open>llvm::all_of\<close> with a predicate that has a state.\<close>

fun all_of_st :: "('a \<Rightarrow> 's \<Rightarrow> (bool \<times> 's) res) \<Rightarrow> 'a list \<Rightarrow> 's \<Rightarrow> (bool \<times> 's) res" where
  "all_of_st f [] s = Inr (True, s)"
| "all_of_st f (x # xs) s = bindr (f x s) (\<lambda>(b, s'). if b then all_of_st f xs s' else Inr (False, s'))"

fun doesNotRecurseRec :: "ir_module \<Rightarrow> nat \<Rightarrow> nat \<Rightarrow> nat set \<Rightarrow> (bool \<times> nat set) res" where
  "doesNotRecurseRec m 0 f seen = Inl Diverges"
| "doesNotRecurseRec m (Suc n) f seen =
     (let F = fn_of m f
      in if f \<in> seen then Inr (False, seen)
         else if fn_norecurse F then Inr (True, insert f seen)
         else if isDeclaration F then Inr (False, insert f seen)
         else all_of_st (\<lambda>I seen.
             if isa m I CallBase then
               if intrinsic_id m I \<noteq> None then Inr (True, seen)
               else bindr (getCalledFunction m I) (\<lambda>callee. case callee of
                   None \<Rightarrow> Inr (False, seen)
                 | Some g \<Rightarrow> doesNotRecurseRec m n g seen)
             else Inr (True, seen)) (insts F) (insert f seen))"

definition doesNotRecurse :: "ir_module \<Rightarrow> nat \<Rightarrow> bool res" where
  "doesNotRecurse m f = bindr (doesNotRecurseRec m (Suc (vbound m)) f {}) (\<lambda>(b, _). Inr b)"

subsection \<open>Addresses\<close>

fun getBaseAddresses :: "ir_module \<Rightarrow> nat \<Rightarrow> nat \<Rightarrow> nat list res" where
  "getBaseAddresses m 0 V = Inl Diverges"
| "getBaseAddresses m (Suc n) V = (case vals m V of
      Argument _ _ _ \<Rightarrow> Inr [V]
    | GlobalVariable \<Rightarrow> Inr [V]
    | Inst i \<Rightarrow>
        if opc i \<in> set (Load # Alloca # CallBase) then Inr [V]
        else if opc i \<in> {GetElementPtr, BitCast} then getBaseAddresses m n (opnd i 0)
        else if opc i = Select then
          bindr (getBaseAddresses m n (opnd i 1)) (\<lambda>bs1.
          bindr (getBaseAddresses m n (opnd i 2)) (\<lambda>bs2. Inr (bs1 @ bs2)))
        else if opc i = IntToPtr then Inr [V]
        else Inl Unhandled
    | ConstantExpr c ops _ \<Rightarrow>
        (case c of
           CGEP \<Rightarrow> (case ops of p # _ \<Rightarrow> getBaseAddresses m n p | [] \<Rightarrow> Inl Bad_pointer)
         | CBitCast \<Rightarrow> (case ops of p # _ \<Rightarrow> getBaseAddresses m n p | [] \<Rightarrow> Inl Bad_pointer)
         | CIntToPtr \<Rightarrow> Inr [V]
         | COtherExpr \<Rightarrow> Inl Unhandled)
    | _ \<Rightarrow> Inl Unhandled)"

definition isGlobalAddress :: "ir_module \<Rightarrow> nat \<Rightarrow> bool res" where
  "isGlobalAddress m V = bindr (getBaseAddresses m (Suc (vbound m)) V) (\<lambda>bases.
     Inr (list_all (\<lambda>V. vals m V = GlobalVariable) bases))"

definition isStackAddress :: "ir_module \<Rightarrow> nat \<Rightarrow> bool res" where
  "isStackAddress m V = bindr (getBaseAddresses m (Suc (vbound m)) V) (\<lambda>bases.
     Inr (list_all (\<lambda>V. isa m V [Alloca]) bases))"

definition getPointerOperand :: "inst \<Rightarrow> nat" where
  "getPointerOperand i =
     (if opc i = Store then opnd i 1
      else if opc i = Load then opnd i 0
      else if opc i = AtomicRMW then opnd i 0
      else if opc i = AtomicCmpXchg then opnd i 0
      else null)"

definition isGlobalAddressStore :: "ir_module \<Rightarrow> nat \<Rightarrow> bool res" where
  "isGlobalAddressStore m I =
     (let SA = getPointerOperand (ins m I) in if SA \<noteq> null then isGlobalAddress m SA else Inr False)"

definition isStackAccess :: "ir_module \<Rightarrow> nat \<Rightarrow> bool res" where
  "isStackAccess m I =
     (let A = getPointerOperand (ins m I) in if A \<noteq> null then isStackAddress m A else Inr False)"

subsection \<open>Operands\<close>

definition getAccessOperands :: "ir_module \<Rightarrow> nat \<Rightarrow> nat list" where
  "getAccessOperands m I = (let i = ins m I in
     if opc i = Store then [opnd i 0]
     else if opc i = Load then [I]
     else if opc i = AtomicRMW then [opnd i 1, I]
     else if opc i = AtomicCmpXchg then [opnd i 1, opnd i 2, I]
     else [])"

definition getValueOperands :: "inst \<Rightarrow> nat list res" where
  "getValueOperands i =
     (if opc i = Store then Inr [opnd i 0]
      else if opc i = AtomicRMW then Inr [opnd i 1]
      else if opc i = AtomicCmpXchg then Inr [opnd i 1, opnd i 2]
      else Inl Unhandled)"

text \<open>A conditional branch has three operands, an unconditional one its block only.\<close>

definition getConditionOperand :: "inst \<Rightarrow> nat" where
  "getConditionOperand i =
     (if opc i = Br then (if length (operands i) = 3 then opnd i 0 else null)
      else if opc i = Switch then opnd i 0
      else null)"

definition is_ExtCallBase :: "ir_module \<Rightarrow> nat \<Rightarrow> bool" where
  "is_ExtCallBase m V = (isa m V CallBase \<and> intrinsic_id m V = None)"

definition nonvoid_instructions :: "ir_module \<Rightarrow> func \<Rightarrow> nat list" where
  "nonvoid_instructions m F = filter (\<lambda>I. \<not> is_void m I) (insts F)"

definition countNonDebugInstructions :: "ir_module \<Rightarrow> bb \<Rightarrow> nat" where
  "countNonDebugInstructions m B =
     length (filter (\<lambda>I. if intrinsic_id m I \<noteq> None then \<not> assume_like (ins m I) else True) (bb_insts B))"

text \<open>\<open>get_incoming_loads\<close>: the arguments, loads and calls a value is computed from. The recursion
  with its \<open>seen\<close> set visits the operands in the order of a worklist that pushes them in front.\<close>

definition incoming_leaf :: "ir_module \<Rightarrow> nat \<Rightarrow> bool" where
  "incoming_leaf m v = (is_argument m v \<or> isa m v (Load # CallBase))"

definition incoming_values :: "ir_module \<Rightarrow> nat \<Rightarrow> nat list" where
  "incoming_values m v =
     (if incoming_leaf m v then [] else if is_inst m v then operands (ins m v) else [])"

definition get_incoming_loads :: "ir_module \<Rightarrow> nat \<Rightarrow> nat set res" where
  "get_incoming_loads m V =
     bindr (wl_pop Bad_pointer [1..<vbound m] (@) (incoming_values m) [V] {}) (\<lambda>seen.
       Inr {v \<in> seen. incoming_leaf m v})"

text \<open>\<open>LI\<close> and \<open>DT\<close> answer for a block the depth of its innermost loop and its level in the
  dominator tree.\<close>

definition instruction_loop_nest_depth :: "func \<Rightarrow> nat \<Rightarrow> (nat \<Rightarrow> nat option) \<Rightarrow> nat" where
  "instruction_loop_nest_depth F I LI = (case block_of F I of
      None \<Rightarrow> 0
    | Some B \<Rightarrow> (case LI (bb_id B) of Some depth \<Rightarrow> u32 (depth + 1) | None \<Rightarrow> 0))"

definition instruction_dominator_depth :: "func \<Rightarrow> nat \<Rightarrow> (nat \<Rightarrow> nat option) \<Rightarrow> nat" where
  "instruction_dominator_depth F I DT = (case block_of F I of
      None \<Rightarrow> 0
    | Some B \<Rightarrow> (case DT (bb_id B) of Some level \<Rightarrow> level | None \<Rightarrow> 0))"

text \<open>\<open>dominators\<close>: the instructions of one kind that dominate \<open>I\<close>, nearest first; \<open>idoms\<close> are the
  blocks that strictly dominate its block, from the immediate dominator up.\<close>

definition dominators :: "ir_module \<Rightarrow> func \<Rightarrow> (nat \<Rightarrow> nat list) \<Rightarrow> opcode list \<Rightarrow> nat \<Rightarrow> nat list" where
  "dominators m F idoms kind I = (case block_of F I of
      None \<Rightarrow> []
    | Some B \<Rightarrow> filter (\<lambda>J. isa m J kind)
        (dropWhile (\<lambda>J. J \<noteq> I) (rev (bb_insts B)) @
         concat (map (\<lambda>b. case block_at F b of Some C \<Rightarrow> rev (bb_insts C) | None \<Rightarrow> []) (idoms (bb_id B)))))"

subsection \<open>Incoming loads\<close>

lemma isa_inst: "isa m V os \<Longrightarrow> is_inst m V"
  by (simp add: isa_def)

lemma intrinsic_id_isa: "intrinsic_id m V = Some k \<Longrightarrow> isa m V [Call]"
  by (auto simp: intrinsic_id_def split: if_splits)

definition wf_module :: "ir_module \<Rightarrow> bool" where
  "wf_module m \<longleftrightarrow> (\<forall>v. vals m v \<noteq> Undef \<longrightarrow> 1 \<le> v \<and> v < vbound m) \<and>
     (\<forall>v. is_inst m v \<longrightarrow> (\<forall>u \<in> set (operands (ins m v)). 1 \<le> u \<and> u < vbound m))"

text \<open>\<open>computed_from m\<close>: one step from a value to an operand, through instructions that are neither
  loads nor calls.\<close>

definition computed_from :: "ir_module \<Rightarrow> (nat \<times> nat) set" where
  "computed_from m = {(v, u). is_inst m v \<and> \<not> incoming_leaf m v \<and> u \<in> set (operands (ins m v))}"

lemma srel_incoming: "srel (incoming_values m) = computed_from m"
  by (auto simp: computed_from_def incoming_values_def split: if_splits)

lemma get_incoming_loads_result:
  assumes "get_incoming_loads m V = Inr S"
  shows "S = {v. (V, v) \<in> (computed_from m)\<^sup>* \<and> incoming_leaf m v}"
proof -
  from assms obtain seen where
    seen: "wl_pop Bad_pointer [1..<vbound m] (@) (incoming_values m) [V] {} = Inr seen"
    and S: "S = {v \<in> seen. incoming_leaf m v}"
    by (auto simp: get_incoming_loads_def bindr_eq_Inr)
  from wl_pop_reach[OF seen] srel_incoming have "seen = (computed_from m)\<^sup>* `` {V}" by simp
  with S show ?thesis by auto
qed

lemma get_incoming_loads_total:
  assumes "wf_module m" "1 \<le> V" "V < vbound m"
  shows "get_incoming_loads m V = Inr {v. (V, v) \<in> (computed_from m)\<^sup>* \<and> incoming_leaf m v}"
proof -
  have "set (incoming_values m u) \<subseteq> set [1..<vbound m]" for u
    using assms(1) by (auto simp: incoming_values_def wf_module_def)
  then have "\<exists>R. wl_pop Bad_pointer [1..<vbound m] (@) (incoming_values m) [V] {} = Inr R"
    using assms(2,3) by (intro wl_pop_total) auto
  then obtain S where "get_incoming_loads m V = Inr S" by (auto simp: get_incoming_loads_def)
  with get_incoming_loads_result[OF this] show ?thesis by simp
qed

subsection \<open>Recursion\<close>

text \<open>The direct calls of a function that is defined and not marked \<open>norecurse\<close>; a function is
  \<open>closed_fn\<close> when it is marked, or all its calls are direct.\<close>

definition ext_call :: "ir_module \<Rightarrow> nat \<Rightarrow> bool" where
  "ext_call m I \<longleftrightarrow> isa m I CallBase \<and> intrinsic_id m I = None"

definition direct_calls :: "ir_module \<Rightarrow> (nat \<times> nat) set" where
  "direct_calls m = {(f, g). \<not> fn_norecurse (fn_of m f) \<and> \<not> isDeclaration (fn_of m f) \<and>
     (\<exists>I \<in> set (insts (fn_of m f)). ext_call m I \<and> getCalledFunction m I = Inr (Some g))}"

definition closed_fn :: "ir_module \<Rightarrow> nat \<Rightarrow> bool" where
  "closed_fn m f \<longleftrightarrow> fn_norecurse (fn_of m f) \<or> \<not> isDeclaration (fn_of m f) \<and>
     (\<forall>I \<in> set (insts (fn_of m f)). ext_call m I \<longrightarrow> (\<exists>g. getCalledFunction m I = Inr (Some g)))"

definition no_recursion :: "ir_module \<Rightarrow> nat \<Rightarrow> bool" where
  "no_recursion m f \<longleftrightarrow>
     (\<forall>g. (f, g) \<in> (direct_calls m)\<^sup>* \<longrightarrow> closed_fn m g \<and> (g, g) \<notin> (direct_calls m)\<^sup>+)"

definition dnr_step :: "ir_module \<Rightarrow> nat \<Rightarrow> nat \<Rightarrow> nat set \<Rightarrow> (bool \<times> nat set) res" where
  "dnr_step m n I seen =
     (if ext_call m I then bindr (getCalledFunction m I) (\<lambda>callee. case callee of
          None \<Rightarrow> Inr (False, seen) | Some g \<Rightarrow> doesNotRecurseRec m n g seen)
      else Inr (True, seen))"

lemma doesNotRecurseRec_Suc:
  "doesNotRecurseRec m (Suc n) f seen =
     (if f \<in> seen then Inr (False, seen)
      else if fn_norecurse (fn_of m f) then Inr (True, insert f seen)
      else if isDeclaration (fn_of m f) then Inr (False, insert f seen)
      else all_of_st (dnr_step m n) (insts (fn_of m f)) (insert f seen))"
proof -
  have "(\<lambda>I seen. if isa m I CallBase then
               if intrinsic_id m I \<noteq> None then Inr (True, seen)
               else bindr (getCalledFunction m I) (\<lambda>callee. case callee of
                   None \<Rightarrow> Inr (False, seen)
                 | Some g \<Rightarrow> doesNotRecurseRec m n g seen)
             else Inr (True, seen)) = dnr_step m n"
    by (intro ext) (auto simp: dnr_step_def ext_call_def)
  then show ?thesis unfolding doesNotRecurseRec.simps Let_def by simp
qed

declare doesNotRecurseRec.simps(2) [simp del]

lemma no_recursion_step:
  assumes "closed_fn m f" "\<And>g. (f, g) \<in> direct_calls m \<Longrightarrow> no_recursion m g \<and> (g, f) \<notin> (direct_calls m)\<^sup>*"
  shows "no_recursion m f"
  unfolding no_recursion_def
proof (intro allI impI)
  fix h assume "(f, h) \<in> (direct_calls m)\<^sup>*"
  then show "closed_fn m h \<and> (h, h) \<notin> (direct_calls m)\<^sup>+"
  proof (cases rule: converse_rtranclE)
    case base
    have "(f, f) \<notin> (direct_calls m)\<^sup>+"
      using assms(2) by (meson tranclD)
    with base assms(1) show ?thesis by simp
  next
    case (step g)
    with assms(2)[of g] show ?thesis unfolding no_recursion_def by blast
  qed
qed

lemma dnr_steps_law:
  assumes IH: "\<And>g seen seen'. doesNotRecurseRec m n g seen = Inr (True, seen') \<Longrightarrow>
      seen \<subseteq> seen' \<and> (direct_calls m)\<^sup>* `` {g} \<subseteq> seen' - seen \<and> no_recursion m g"
    and "all_of_st (dnr_step m n) xs s = Inr (True, s')"
  shows "s \<subseteq> s' \<and> (\<forall>I \<in> set xs. ext_call m I \<longrightarrow> (\<exists>g. getCalledFunction m I = Inr (Some g) \<and>
      (direct_calls m)\<^sup>* `` {g} \<subseteq> s' - s \<and> no_recursion m g))"
  using assms(2)
proof (induction xs arbitrary: s)
  case (Cons I xs)
  from Cons.prems obtain s1 where s1: "dnr_step m n I s = Inr (True, s1)"
    "all_of_st (dnr_step m n) xs s1 = Inr (True, s')"
    by (auto simp: bindr_eq_Inr split: if_splits)
  note rest = Cons.IH[OF s1(2)]
  show ?case
  proof (cases "ext_call m I")
    case True
    with s1(1) obtain g where g: "getCalledFunction m I = Inr (Some g)"
      "doesNotRecurseRec m n g s = Inr (True, s1)"
      by (auto simp: dnr_step_def bindr_eq_Inr split: option.splits)
    from IH[OF g(2)] have "s \<subseteq> s1" "(direct_calls m)\<^sup>* `` {g} \<subseteq> s1 - s" "no_recursion m g" by auto
    with rest g(1) True show ?thesis by fastforce
  next
    case False
    with s1(1) have "s1 = s" by (simp add: dnr_step_def)
    with rest False show ?thesis by auto
  qed
qed simp

lemma doesNotRecurseRec_law:
  "doesNotRecurseRec m n f seen = Inr (True, seen') \<Longrightarrow>
     seen \<subseteq> seen' \<and> (direct_calls m)\<^sup>* `` {f} \<subseteq> seen' - seen \<and> no_recursion m f"
proof (induction n arbitrary: f seen seen')
  case (Suc n)
  from Suc.prems have f: "f \<notin> seen" by (auto simp: doesNotRecurseRec_Suc)
  show ?case
  proof (cases "fn_norecurse (fn_of m f)")
    case True
    then have none: "(f, g) \<notin> direct_calls m" for g by (simp add: direct_calls_def)
    then have "(direct_calls m)\<^sup>* `` {f} \<subseteq> {f}" by (auto elim: converse_rtranclE)
    moreover have "no_recursion m f"
      by (rule no_recursion_step) (use True none in \<open>auto simp: closed_fn_def\<close>)
    ultimately show ?thesis using Suc.prems f True by (auto simp: doesNotRecurseRec_Suc)
  next
    case False
    with Suc.prems f have d: "\<not> isDeclaration (fn_of m f)"
      and run: "all_of_st (dnr_step m n) (insts (fn_of m f)) (insert f seen) = Inr (True, seen')"
      by (auto simp: doesNotRecurseRec_Suc split: if_splits)
    from dnr_steps_law[OF Suc.IH run] have sub: "insert f seen \<subseteq> seen'"
      and calls: "\<And>I. I \<in> set (insts (fn_of m f)) \<Longrightarrow> ext_call m I \<Longrightarrow>
        \<exists>g. getCalledFunction m I = Inr (Some g) \<and>
          (direct_calls m)\<^sup>* `` {g} \<subseteq> seen' - insert f seen \<and> no_recursion m g"
      by blast+
    have callee: "(direct_calls m)\<^sup>* `` {g} \<subseteq> seen' - insert f seen \<and> no_recursion m g"
      if "(f, g) \<in> direct_calls m" for g
      using that calls by (fastforce simp: direct_calls_def)
    have "(direct_calls m)\<^sup>* `` {f} \<subseteq> seen' - seen"
    proof
      fix h assume "h \<in> (direct_calls m)\<^sup>* `` {f}"
      then have "(f, h) \<in> (direct_calls m)\<^sup>*" by simp
      then show "h \<in> seen' - seen"
        by (cases rule: converse_rtranclE) (use callee sub f in auto)
    qed
    moreover have "no_recursion m f"
    proof (rule no_recursion_step)
      show "closed_fn m f" using d calls by (fastforce simp: closed_fn_def)
      show "no_recursion m g \<and> (g, f) \<notin> (direct_calls m)\<^sup>*" if "(f, g) \<in> direct_calls m" for g
        using callee[OF that] by auto
    qed
    ultimately show ?thesis using sub by auto
  qed
qed simp

lemma doesNotRecurse_sound: "doesNotRecurse m f = Inr True \<Longrightarrow> no_recursion m f"
  using doesNotRecurseRec_law by (fastforce simp: doesNotRecurse_def bindr_eq_Inr)

lemma doesNotRecurseRec_mono: "doesNotRecurseRec m n f seen = Inr (b, seen') \<Longrightarrow> seen \<subseteq> seen'"
proof (induction n arbitrary: f seen b seen')
  case (Suc n)
  have "all_of_st (dnr_step m n) xs s = Inr (b, s') \<Longrightarrow> s \<subseteq> s'" for xs s b s'
  proof (induction xs arbitrary: s)
    case (Cons I xs)
    from Cons.prems obtain c s1 where s1: "dnr_step m n I s = Inr (c, s1)"
      "(if c then all_of_st (dnr_step m n) xs s1 else Inr (False, s1)) = Inr (b, s')"
      by (auto simp: bindr_eq_Inr)
    have "s \<subseteq> s1" using s1(1)
      by (auto simp: dnr_step_def bindr_eq_Inr split: if_splits option.splits dest!: Suc.IH)
    with s1(2) Cons.IH[of s1] show ?case by (auto split: if_splits)
  qed simp
  with Suc.prems show ?case by (fastforce simp: doesNotRecurseRec_Suc split: if_splits)
qed simp

text \<open>The depth counter suffices: every nested call marks one more function.\<close>

lemma doesNotRecurseRec_total:
  assumes "\<And>f I. I \<in> set (insts (fn_of m f)) \<Longrightarrow> ext_call m I \<Longrightarrow>
      \<exists>c. getCalledFunction m I = Inr c \<and> (\<forall>g. c = Some g \<longrightarrow> g < vbound m)"
    and "card ({..<vbound m} - seen) < n" "f < vbound m"
  shows "\<exists>r. doesNotRecurseRec m n f seen = Inr r"
  using assms(2,3)
proof (induction n arbitrary: f seen)
  case (Suc n)
  have step: "\<exists>r. all_of_st (dnr_step m n) xs s = Inr r"
    if "set xs \<subseteq> set (insts (fn_of m f))" "insert f seen \<subseteq> s" "f \<notin> seen" for xs s
    using that(1,2)
  proof (induction xs arbitrary: s)
    case (Cons I xs)
    have "card ({..<vbound m} - s) \<le> card ({..<vbound m} - insert f seen)"
      by (rule card_mono) (use Cons.prems in auto)
    also have "\<dots> < card ({..<vbound m} - seen)"
      by (rule psubset_card_mono) (use that(3) Suc.prems(2) in auto)
    finally have n: "card ({..<vbound m} - s) < n" using Suc.prems(1) by simp
    have "\<exists>r. dnr_step m n I s = Inr r"
    proof (cases "ext_call m I")
      case True
      with assms(1)[of I f] Cons.prems obtain c where
        c: "getCalledFunction m I = Inr c" "\<forall>g. c = Some g \<longrightarrow> g < vbound m" by auto
      with Suc.IH[OF n] True show ?thesis by (cases c) (auto simp: dnr_step_def)
    qed (auto simp: dnr_step_def)
    then obtain b s1 where s1: "dnr_step m n I s = Inr (b, s1)" by auto
    have "s \<subseteq> s1" using s1
      by (auto simp: dnr_step_def bindr_eq_Inr split: if_splits option.splits
          dest!: doesNotRecurseRec_mono)
    have "\<exists>r. all_of_st (dnr_step m n) xs s1 = Inr r"
      by (rule Cons.IH) (use Cons.prems \<open>s \<subseteq> s1\<close> in auto)
    with s1 show ?case by (cases b) auto
  qed auto
  show ?case
  proof (cases "f \<in> seen \<or> fn_norecurse (fn_of m f) \<or> isDeclaration (fn_of m f)")
    case False
    with step[OF subset_refl subset_refl] show ?thesis by (simp add: doesNotRecurseRec_Suc)
  qed (auto simp: doesNotRecurseRec_Suc)
qed simp

lemma getCalledFunctionRec_function:
  "getCalledFunctionRec m n V = Inr (Some g) \<Longrightarrow> \<exists>F. vals m g = Function F"
  by (induction m n V rule: getCalledFunctionRec.induct)
     (auto split: vdesc.splits constexpr.splits if_splits)

lemma doesNotRecurse_total:
  assumes "wf_module m" "f < vbound m"
    "\<And>f I. I \<in> set (insts (fn_of m f)) \<Longrightarrow> ext_call m I \<Longrightarrow> \<exists>c. getCalledFunction m I = Inr c"
  shows "\<exists>b. doesNotRecurse m f = Inr b"
proof -
  have "g < vbound m" if "getCalledFunction m I = Inr (Some g)" for I g
    using getCalledFunctionRec_function[OF that[unfolded getCalledFunction_def]] assms(1)
    by (auto simp: wf_module_def)
  then have "\<exists>r. doesNotRecurseRec m (Suc (vbound m)) f {} = Inr r"
    using assms(2,3) by (intro doesNotRecurseRec_total) (auto simp: lessThan_def[symmetric], blast)
  then show ?thesis by (auto simp: doesNotRecurse_def)
qed

end
