(* ===== verification/Transmitter.thy ===== *)
theory Transmitter
  imports Util
begin

text \<open>
  The operands through which an instruction can leak (\<open>src/include/clou/Transmitter.h\<close>,
  \<open>src/Transmitter.cc\<close>) and the instructions the mitigations are made of
  (\<open>MitigationInst::classof\<close> of \<open>src/Mitigation.cc\<close>).
\<close>

datatype tkind = TRUE | PSEUDO

instantiation tkind :: linorder
begin

definition less_eq_tkind :: "tkind \<Rightarrow> tkind \<Rightarrow> bool" where
  "less_eq_tkind a b = (a = TRUE \<or> b = PSEUDO)"

definition less_tkind :: "tkind \<Rightarrow> tkind \<Rightarrow> bool" where
  "less_tkind a b = (a = TRUE \<and> b = PSEUDO)"

instance
proof
  fix x y z :: tkind
  show "x < y \<longleftrightarrow> x \<le> y \<and> \<not> y \<le> x" by (cases x; cases y) (auto simp: less_eq_tkind_def less_tkind_def)
  show "x \<le> x" by (cases x) (auto simp: less_eq_tkind_def)
  show "x \<le> y \<Longrightarrow> y \<le> z \<Longrightarrow> x \<le> z" by (auto simp: less_eq_tkind_def)
  show "x \<le> y \<Longrightarrow> y \<le> x \<Longrightarrow> x = y" by (cases x; cases y) (auto simp: less_eq_tkind_def)
  show "x \<le> y \<or> y \<le> x" by (cases x; cases y) (auto simp: less_eq_tkind_def)
qed

end

type_synonym transmitter_operand = "tkind \<times> nat"

definition is_MitigationInst :: "ir_module \<Rightarrow> nat \<Rightarrow> bool" where
  "is_MitigationInst m V = (intrinsic_id m V = Some (x86 sse2_lfence))"

definition no_leak_intrinsics :: "intrinsic list" where
  "no_leak_intrinsics =
     [vector_reduce ReduceAdd, vector_reduce ReduceAnd, vector_reduce ReduceOr, In_fshl, In_ctpop,
      x86 aesni_aeskeygenassist, x86 aesni_aesenc, x86 aesni_aesenclast, In_bswap, x86 pclmulqdq,
      In_umin, In_umax, In_smax, In_smin, In_abs, In_umul_with_overflow, In_bitreverse, In_cttz,
      In_usub_sat, In_fmuladd, In_fabs, In_ctlz, experimental_constrained FCmp,
      experimental_constrained FSub, experimental_constrained FMul,
      experimental_constrained SIToFP, experimental_constrained UIToFP,
      experimental_constrained FPToUI, experimental_constrained FCmps,
      experimental_constrained FAdd, experimental_constrained FPToSI,
      experimental_constrained FPExt, experimental_constrained FFloor,
      experimental_constrained FCeil, experimental_constrained FPTrunc,
      experimental_constrained FMulAdd, In_fshr, vector_reduce ReduceMul,
      vector_reduce ReduceUMax, vector_reduce ReduceUMin, vector_reduce ReduceSMax,
      vector_reduce ReduceSMin, vector_reduce ReduceXor, In_uadd_with_overflow,
      experimental_constrained FPowI, experimental_constrained FTrunc,
      experimental_constrained FRound, In_uadd_sat]"

definition leaked_args :: "intrinsic \<Rightarrow> nat \<Rightarrow> nat list res" where
  "leaked_args k n =
     (if k = In_memset then Inr [0, 2, 3]
      else if k = In_memcpy then Inr [0..<n]
      else if k = experimental_constrained FDiv then Inr [0..<n]
      else if k = In_masked_load then Inr [0, 1]
      else if k = In_masked_gather then Inr [0, 1]
      else if k = In_eh_typeid_for then Inr [0]
      else if k \<in> set no_leak_intrinsics then Inr []
      else Inl Unhandled)"

definition intrinsic_transmits :: "ir_module \<Rightarrow> nat \<Rightarrow> intrinsic \<Rightarrow> transmitter_operand list res" where
  "intrinsic_transmits m I k =
     (if \<not> assume_like (ins m I) \<and> \<not> is_void m I \<and> nargs (ins m I) > 0 \<and> k \<noteq> In_annotation
      then bindr (leaked_args k (nargs (ins m I))) (\<lambda>leaked.
        map_res (\<lambda>a. if a < length (call_args (ins m I)) then Inr (PSEUDO, call_args (ins m I) ! a)
                     else Inl Bad_index) leaked)
      else Inr [])"

definition sensitive_operands :: "ir_module \<Rightarrow> nat \<Rightarrow> transmitter_operand list res" where
  "sensitive_operands m I =
     (let i = ins m I in
      if operands i = [] then Inr []
      else if opc i \<in> set [Load, Store, AtomicCmpXchg, AtomicRMW] then Inr [(TRUE, getPointerOperand i)]
      else if opc i \<in> set [Br, Switch] then
        (let c = getConditionOperand i in Inr (if c \<noteq> null then [(TRUE, c)] else []))
      else if opc i \<in> set CallBase then
        (case intrinsic_id m I of
           Some k \<Rightarrow> intrinsic_transmits m I k
         | None \<Rightarrow> Inr ((TRUE, getCalledOperand i) # map (\<lambda>a. (PSEUDO, a)) (call_args i)))
      else if opc i \<in> set [Ret, Resume] then Inr (if opnd i 0 \<noteq> null then [(PSEUDO, opnd i 0)] else [])
      else if opc i \<in> set BinaryOperator then
        Inr (if opc i \<in> set [UDiv, SDiv] then map (\<lambda>a. (TRUE, a)) (operands i) else [])
      else if opc i \<in> set ([Cmp, PHI, Alloca, GetElementPtr, ShuffleVector, InsertElement, Select,
          ExtractElement, ExtractValue, Freeze, FNeg, LandingPad, InsertValue] @ CastInst) then Inr []
      else Inl Unhandled)"

definition get_transmitter_sensitive_operands :: "ir_module \<Rightarrow> nat \<Rightarrow> transmitter_operand list res" where
  "get_transmitter_sensitive_operands m I = bindr (sensitive_operands m I) (\<lambda>ops. Inr (os_of ops))"

text \<open>\<open>callDoesNotTransmit\<close>; \<open>dbg\<close> stands for \<open>isa<DbgInfoIntrinsic>\<close>.\<close>

definition callDoesNotTransmit :: "ir_module \<Rightarrow> (nat \<Rightarrow> bool) \<Rightarrow> nat \<Rightarrow> bool res" where
  "callDoesNotTransmit m dbg C = (case intrinsic_id m C of
      Some k \<Rightarrow>
        if is_MitigationInst m C \<or> dbg C \<or> assume_like (ins m C) then Inr True
        else if k \<in> {In_fshr, In_fshl} then Inr True
        else Inl Unhandled
    | None \<Rightarrow> Inr True)"

lemma opnd_in: "opnd i k = null \<or> opnd i k \<in> set (operands i)"
  by (auto simp: opnd_def)

lemma call_args_in: "set (call_args i) \<subseteq> set (operands i)"
  unfolding call_args_def by (rule set_take_subset)

lemma intrinsic_transmits_operands:
  assumes "intrinsic_transmits m I k = Inr ops" "(t, V) \<in> set ops"
  shows "V \<in> set (operands (ins m I)) \<and> \<not> is_void m I"
proof -
  from assms obtain leaked where
    "map_res (\<lambda>a. if a < length (call_args (ins m I)) then Inr (PSEUDO, call_args (ins m I) ! a)
       else Inl Bad_index) leaked = Inr ops" and v: "\<not> is_void m I"
    by (auto simp: intrinsic_transmits_def bindr_eq_Inr split: if_splits)
  from map_res_InrD[OF this(1)] assms(2) obtain a where
    "(if a < length (call_args (ins m I)) then Inr (PSEUDO, call_args (ins m I) ! a) else Inl Bad_index) = Inr (t, V)"
    by (auto simp: list_all2_conv_all_nth in_set_conv_nth)
  then have "V \<in> set (call_args (ins m I))" by (auto split: if_splits)
  with v call_args_in show ?thesis by blast
qed

lemma sensitive_operands_in:
  assumes "sensitive_operands m I = Inr ops" "(t, V) \<in> set ops"
  shows "V = null \<or> V \<in> set (operands (ins m I))"
proof -
  define i where "i = ins m I"
  have "getPointerOperand i = null \<or> getPointerOperand i \<in> set (operands i)"
    using opnd_in[of i] by (auto simp: getPointerOperand_def)
  moreover have "getConditionOperand i = null \<or> getConditionOperand i \<in> set (operands i)"
    using opnd_in[of i] by (auto simp: getConditionOperand_def)
  moreover have "getCalledOperand i = null \<or> getCalledOperand i \<in> set (operands i)"
    unfolding getCalledOperand_def by (rule opnd_in)
  moreover have "set (call_args i) \<subseteq> set (operands i)" by (rule call_args_in)
  moreover have "opnd i 0 = null \<or> opnd i 0 \<in> set (operands i)" by (rule opnd_in)
  moreover have "V \<in> set (operands i)" if "intrinsic_transmits m I k = Inr ops" for k
    using intrinsic_transmits_operands[OF that assms(2)] by (simp add: i_def)
  moreover obtain c1 c2 c3 c4 c5 c6 c7 c8 where "sensitive_operands m I =
      (if c1 then Inr [] else if c2 then Inr [(TRUE, getPointerOperand i)]
       else if c3 then (let c = getConditionOperand i in Inr (if c \<noteq> null then [(TRUE, c)] else []))
       else if c4 then (case intrinsic_id m I of Some k \<Rightarrow> intrinsic_transmits m I k
         | None \<Rightarrow> Inr ((TRUE, getCalledOperand i) # map (\<lambda>a. (PSEUDO, a)) (call_args i)))
       else if c5 then Inr (if opnd i 0 \<noteq> null then [(PSEUDO, opnd i 0)] else [])
       else if c6 then Inr (if c7 then map (\<lambda>a. (TRUE, a)) (operands i) else [])
       else if c8 then Inr [] else Inl Unhandled)"
    unfolding sensitive_operands_def Let_def i_def[symmetric] by blast
  ultimately show ?thesis
    using assms unfolding i_def[symmetric] Let_def by (auto split: if_splits option.splits)
qed

lemma get_transmitter_sensitive_operands_in:
  assumes "get_transmitter_sensitive_operands m I = Inr ops" "(t, V) \<in> set ops"
  shows "V = null \<or> V \<in> set (operands (ins m I))"
  using assms sensitive_operands_in[of m I _ t V]
  by (auto simp: get_transmitter_sensitive_operands_def bindr_eq_Inr)

text \<open>An intrinsic without a result never transmits: its cases for \<open>memset\<close> and \<open>memcpy\<close>, which have
  none, are never reached.\<close>

lemma void_intrinsic_transmits:
  assumes "intrinsic_id m I \<noteq> None" "is_void m I" "operands (ins m I) \<noteq> []"
  shows "get_transmitter_sensitive_operands m I = Inr []"
proof -
  have "opc (ins m I) = Call" using assms(1) by (auto simp: intrinsic_id_def isa_def split: if_splits)
  with assms show ?thesis
    by (auto simp: get_transmitter_sensitive_operands_def sensitive_operands_def Let_def
        intrinsic_transmits_def os_of_def)
qed

end
