(* ===== verification/Fixpoint.thy ===== *)
theory Fixpoint
  imports Transmitter
begin

text \<open>
  The loop all the analyses share: run a round over the function, and again until the result
  (\<open>key\<close>, what the code compares with its backup) is the same as before the round. \<open>stable_loop\<close>
  is the contract of such a loop with a measure, \<open>growing_loop\<close> the case of a result that only
  grows inside a finite set; the analyses interpret it.
\<close>

partial_function (option) until_stable :: "('s \<Rightarrow> 'a) \<Rightarrow> ('s \<Rightarrow> 's res) \<Rightarrow> 's \<Rightarrow> 's run" where
  "until_stable key body s =
     bindo (Some (body s)) (\<lambda>s'. if key s' = key s then Some (Inr s') else until_stable key body s')"

declare until_stable.simps [code]

locale stable_loop =
  fixes key :: "'s \<Rightarrow> 'a" and body :: "'s \<Rightarrow> 's res" and inv :: "'s \<Rightarrow> bool" and meas :: "'s \<Rightarrow> nat"
  assumes inv_step: "inv s \<Longrightarrow> body s = Inr s' \<Longrightarrow> inv s'"
    and meas_step: "inv s \<Longrightarrow> body s = Inr s' \<Longrightarrow> key s' \<noteq> key s \<Longrightarrow> meas s' < meas s"
begin

lemma returns: "inv s \<Longrightarrow> \<exists>r. until_stable key body s = Some r"
proof (induction "meas s" arbitrary: s rule: less_induct)
  case less
  show ?case
  proof (cases "body s")
    case (Inr s')
    with less.hyps[of s'] meas_step[OF less.prems Inr] inv_step[OF less.prems Inr] show ?thesis
      by (cases "key s' = key s") (auto simp: until_stable.simps[of key body s])
  qed (auto simp: until_stable.simps[of key body s])
qed

lemma result:
  assumes "inv s" "until_stable key body s = Some (Inr s')"
  shows "\<exists>s0. inv s0 \<and> body s0 = Inr s' \<and> key s' = key s0"
  using assms
proof (induction "meas s" arbitrary: s rule: less_induct)
  case less
  then obtain s1 where s1: "body s = Inr s1"
    and rest: "(if key s1 = key s then Some (Inr s1) else until_stable key body s1) = Some (Inr s')"
    by (cases "body s") (auto simp: until_stable.simps[of key body s])
  show ?case
  proof (cases "key s1 = key s")
    case True
    with rest s1 less.prems(1) show ?thesis by auto
  next
    case False
    with less.hyps[OF meas_step[OF less.prems(1) s1 False] inv_step[OF less.prems(1) s1]] rest
    show ?thesis by simp
  qed
qed

lemma result_inv: "inv s \<Longrightarrow> until_stable key body s = Some (Inr s') \<Longrightarrow> inv s'"
  using result inv_step by blast

lemma result_preserves:
  assumes "inv s" "until_stable key body s = Some (Inr s')" "P s"
    "\<And>s s'. inv s \<Longrightarrow> P s \<Longrightarrow> body s = Inr s' \<Longrightarrow> P s'"
  shows "P s'"
  using assms(1-3)
proof (induction "meas s" arbitrary: s rule: less_induct)
  case less
  from less.prems(2) obtain s1 where s1: "body s = Inr s1"
    and rest: "(if key s1 = key s then Some (Inr s1) else until_stable key body s1) = Some (Inr s')"
    by (cases "body s") (auto simp: until_stable.simps[of key body s])
  have p: "P s1" by (rule assms(4)[OF less.prems(1,3) s1])
  show ?case
  proof (cases "key s1 = key s")
    case False
    with less.hyps[OF meas_step[OF less.prems(1) s1 False] inv_step[OF less.prems(1) s1] _ p] rest
    show ?thesis by simp
  qed (use rest p in simp)
qed

lemma fails:
  assumes "inv s" "until_stable key body s = Some (Inl e)"
  shows "\<exists>s0. inv s0 \<and> body s0 = Inl e"
  using assms
proof (induction "meas s" arbitrary: s rule: less_induct)
  case less
  show ?case
  proof (cases "body s")
    case (Inl e')
    with less.prems show ?thesis by (auto simp: until_stable.simps[of key body s])
  next
    case (Inr s1)
    with less.prems have "key s1 \<noteq> key s" "until_stable key body s1 = Some (Inl e)"
      by (auto simp: until_stable.simps[of key body s] split: if_splits)
    with less.hyps[OF meas_step inv_step] less.prems(1) Inr show ?thesis by blast
  qed
qed

end

locale growing_loop =
  fixes key :: "'s \<Rightarrow> 'a set" and body :: "'s \<Rightarrow> 's res" and inv :: "'s \<Rightarrow> bool" and U :: "'a set"
  assumes grow_inv: "inv s \<Longrightarrow> body s = Inr s' \<Longrightarrow> inv s'"
    and grows: "inv s \<Longrightarrow> body s = Inr s' \<Longrightarrow> key s \<subseteq> key s'"
    and bounded: "inv s \<Longrightarrow> key s \<subseteq> U"
    and finite_U: "finite U"
begin

lemma grow_measure:
  assumes "inv s" "body s = Inr s'" "key s' \<noteq> key s"
  shows "card (U - key s') < card (U - key s)"
proof (rule psubset_card_mono)
  show "finite (U - key s)" using finite_U by simp
  show "U - key s' \<subset> U - key s"
    using grows[OF assms(1,2)] bounded[OF grow_inv[OF assms(1,2)]] assms(3) by blast
qed

end

sublocale growing_loop \<subseteq> stable_loop key body inv "\<lambda>s. card (U - key s)"
  by unfold_locales (use grow_inv grow_measure in auto)

text \<open>A round is made of steps that only add to the result: what holds after each step, and what
  a round that adds nothing says of its steps.\<close>

lemma foldr_res_inv:
  assumes "foldr_res f xs s = Inr s'" "P s"
    "\<And>x s s'. x \<in> set xs \<Longrightarrow> P s \<Longrightarrow> f x s = Inr s' \<Longrightarrow> P s'"
  shows "P s'"
  using assms
proof (induction xs arbitrary: s)
  case (Cons x xs)
  from Cons.prems(1) obtain s1 where s1: "f x s = Inr s1" "foldr_res f xs s1 = Inr s'"
    by (auto simp: bindr_eq_Inr)
  have "P s1" by (rule Cons.prems(3)[OF _ Cons.prems(2) s1(1)]) simp
  from Cons.IH[OF s1(2) this] Cons.prems(3) show ?case by (meson list.set_intros(2))
qed simp

lemma foldr_res_grows:
  assumes "foldr_res f xs s = Inr s'" "\<And>x s s'. x \<in> set xs \<Longrightarrow> f x s = Inr s' \<Longrightarrow> key s \<subseteq> key s'"
  shows "key s \<subseteq> key s'"
  using foldr_res_inv[OF assms(1), of "\<lambda>t. key s \<subseteq> key t"] assms(2) by blast

lemma foldr_res_stable:
  assumes "foldr_res f xs s = Inr s'" "key s' = key s"
    "\<And>x s s'. x \<in> set xs \<Longrightarrow> f x s = Inr s' \<Longrightarrow> key s \<subseteq> key s'" "x \<in> set xs"
  shows "\<exists>s1 s2. f x s1 = Inr s2 \<and> key s1 = key s \<and> key s2 = key s"
  using assms
proof (induction xs arbitrary: s)
  case (Cons y xs)
  from Cons.prems(1) obtain s1 where s1: "f y s = Inr s1" "foldr_res f xs s1 = Inr s'"
    by (auto simp: bindr_eq_Inr)
  have g: "key s \<subseteq> key s1" by (rule Cons.prems(3)[OF _ s1(1)]) simp
  have g': "key s1 \<subseteq> key s'" by (rule foldr_res_grows[OF s1(2)]) (use Cons.prems(3) in auto)
  with g Cons.prems(2) have k: "key s1 = key s" "key s' = key s1" by auto
  show ?case
  proof (cases "x = y")
    case True
    with s1(1) k(1) show ?thesis by blast
  next
    case False
    with Cons.prems(4) have x: "x \<in> set xs" by simp
    have "\<And>z t t'. z \<in> set xs \<Longrightarrow> f z t = Inr t' \<Longrightarrow> key t \<subseteq> key t'"
      by (rule Cons.prems(3)) auto
    from Cons.IH[OF s1(2) k(2) this x] k(1) show ?thesis by simp
  qed
qed simp

end
