(* ===== verification/NonspeculativeTaint.thy ===== *)
theory NonspeculativeTaint
  imports Fixpoint
begin

text \<open>
  \<open>src/analysis/NonspeculativeTaintAnalysis.cc\<close>: the values that are public in every
  nonspeculative execution. \<open>pub\<close> is \<open>pub_vals\<close>; \<open>AA p q\<close> is what \<open>AA.alias(p, q)\<close> answers. A round
  of the loop is calls, memory, returns, the remaining instructions; the set of memory accesses
  already propagated lives across rounds. \<open>nst_public\<close> states the rules of the analysis, and
  \<open>nst_exact\<close> that the loop computes the least set closed under them.
\<close>

subsection \<open>The analysis\<close>

definition nst_passthrough :: "intrinsic list" where
  "nst_passthrough =
     [vector_reduce ReduceAnd, vector_reduce ReduceAdd, vector_reduce ReduceOr, In_fshl, In_ctpop,
      x86 aesni_aeskeygenassist, x86 aesni_aesenc, x86 aesni_aesenclast, In_bswap, x86 pclmulqdq,
      In_umin, In_umax, In_smin, In_smax, In_abs, x86 rdrand_32, In_umul_with_overflow,
      In_bitreverse, In_cttz, In_usub_sat, In_fmuladd, In_fabs, experimental_constrained FCmp,
      experimental_constrained FSub, experimental_constrained FMul,
      experimental_constrained SIToFP, experimental_constrained UIToFP,
      experimental_constrained FCmps, experimental_constrained FAdd,
      experimental_constrained FPToSI, experimental_constrained FDiv,
      experimental_constrained FPToUI, experimental_constrained FPExt,
      experimental_constrained FFloor, experimental_constrained FCeil,
      experimental_constrained FPTrunc, experimental_constrained FMulAdd, In_masked_load,
      In_masked_gather, In_stacksave, In_fshr, vector_reduce ReduceMul, vector_reduce ReduceUMax,
      vector_reduce ReduceUMin, vector_reduce ReduceSMax, vector_reduce ReduceSMin,
      vector_reduce ReduceXor, In_eh_typeid_for, In_uadd_with_overflow, In_ctlz,
      experimental_constrained FPowI, experimental_constrained FTrunc,
      experimental_constrained FRound, In_uadd_sat]"

definition isa_public_operand :: "ir_module \<Rightarrow> nat \<Rightarrow> bool" where
  "isa_public_operand m v \<longleftrightarrow> vals m v = BasicBlock \<or> vals m v = InlineAsm \<or> is_constant (vals m v) \<or>
     isa m v [LandingPad]"

definition nst_init :: "options \<Rightarrow> ir_module \<Rightarrow> func \<Rightarrow> nat set res" where
  "nst_init opt m F =
     bindr (map_res (get_transmitter_sensitive_operands m) (insts F)) (\<lambda>opss.
     let pub1 = {v \<in> set (map snd (concat opss)). is_inst m v};
         pub2 = pub1 \<union> set (filter (is_ptr m) (insts F));
         pub3 = pub2 \<union> set (filter (isa_public_operand m) (concat (map (\<lambda>I. operands (ins m I)) (insts F))))
     in Inr (if StrictCallingConv opt then pub3 \<union> set (fn_args F) else pub3))"

definition nst_call :: "options \<Rightarrow> ir_module \<Rightarrow> nat \<Rightarrow> nat set \<Rightarrow> nat set res" where
  "nst_call opt m CB pub = (case intrinsic_id m CB of
      Some k \<Rightarrow>
        if \<not> is_void m CB \<and> \<not> assume_like (ins m CB) then
          if k \<in> {In_memset, In_memcpy, x86 sse2_lfence} then assertr (is_void m CB) (Inr pub)
          else if k \<in> set nst_passthrough then
            Inr (if CB \<in> pub then pub \<union> set (call_args (ins m CB)) else pub)
          else if k = In_annotation then Inr (if CB \<in> pub then insert (opnd (ins m CB) 0) pub else pub)
          else Inl Unhandled
        else Inr pub
    | None \<Rightarrow>
        Inr (if StrictCallingConv opt then insert CB (pub \<union> set (call_args (ins m CB))) else pub))"

definition nst_mem_dst :: "options \<Rightarrow> (nat \<Rightarrow> nat \<Rightarrow> alias_result) \<Rightarrow> ir_module \<Rightarrow> nat \<Rightarrow> nat \<Rightarrow>
    nat set \<Rightarrow> nat set res" where
  "nst_mem_dst opt AA m src_ptr dst pub =
     (let dst_ptr = getPointerOperand (ins m dst) in
      if dst_ptr \<noteq> null then
        bindr (isDefinitelyMustAlias opt (AA src_ptr dst_ptr)) (\<lambda>must.
          Inr (if must then pub \<union> set (getAccessOperands m dst) else pub))
      else Inr pub)"

definition nst_mem :: "options \<Rightarrow> (nat \<Rightarrow> nat \<Rightarrow> alias_result) \<Rightarrow> ir_module \<Rightarrow> func \<Rightarrow> nat \<Rightarrow>
    nat set \<times> nat set \<Rightarrow> (nat set \<times> nat set) res" where
  "nst_mem opt AA m F src = (\<lambda>(pub, seen).
     if src \<in> seen then Inr (pub, seen)
     else
       let src_ptr = getPointerOperand (ins m src);
           src_vals_tainted = isa m src [Load, AtomicRMW, AtomicCmpXchg] \<and> src \<in> pub
       in if src_ptr \<noteq> null \<and> src_vals_tainted then
            bindr (foldr_res (nst_mem_dst opt AA m src_ptr) (insts F)
                (pub \<union> set (getAccessOperands m src))) (\<lambda>pub'. Inr (pub', insert src seen))
          else Inr (pub, seen))"

definition nst_returns :: "options \<Rightarrow> ir_module \<Rightarrow> func \<Rightarrow> nat set" where
  "nst_returns opt m F =
     (if StrictCallingConv opt then (\<lambda>RI. opnd (ins m RI) 0) ` set (insts_of m F [Ret]) else {})"

abbreviation "nst_forwarding \<equiv> [Cmp, Select, PHI, Freeze, FNeg] @ CastInst @ BinaryOperator"
abbreviation "nst_ignored \<equiv> [Load, Alloca, AtomicRMW, AtomicCmpXchg, LandingPad, InsertElement,
   ShuffleVector, ExtractElement, ExtractValue, InsertValue] @ CallBase"

definition nst_inst :: "ir_module \<Rightarrow> nat \<Rightarrow> nat set \<Rightarrow> nat set res" where
  "nst_inst m I pub =
     (if isa m I [GetElementPtr] then Inr (pub \<union> set (operands (ins m I)))
      else if isa m I nst_forwarding then
        Inr (if I \<in> pub then pub \<union> set (operands (ins m I)) else pub)
      else if isa m I nst_ignored then Inr pub
      else Inl Unhandled)"

definition nst_round :: "options \<Rightarrow> (nat \<Rightarrow> nat \<Rightarrow> alias_result) \<Rightarrow> ir_module \<Rightarrow> func \<Rightarrow>
    nat set \<times> nat set \<Rightarrow> (nat set \<times> nat set) res" where
  "nst_round opt AA m F = (\<lambda>(pub, seen).
     bindr (foldr_res (nst_call opt m) (insts_of m F CallBase) pub) (\<lambda>pub1.
     bindr (foldr_res (nst_mem opt AA m F) (insts F) (pub1, seen)) (\<lambda>(pub2, seen').
     bindr (foldr_res (nst_inst m) (nonvoid_instructions m F) (pub2 \<union> nst_returns opt m F)) (\<lambda>pub3.
     Inr (pub3, seen')))))"

definition nst_runOnFunction :: "options \<Rightarrow> (nat \<Rightarrow> nat \<Rightarrow> alias_result) \<Rightarrow> ir_module \<Rightarrow> func \<Rightarrow> nat set run" where
  "nst_runOnFunction opt AA m F =
     bindo (Some (nst_init opt m F)) (\<lambda>pub.
     bindo (until_stable fst (nst_round opt AA m F) (pub, {})) (\<lambda>(pub', _). Some (Inr pub')))"

definition nst_secret :: "ir_module \<Rightarrow> nat set \<Rightarrow> nat \<Rightarrow> bool" where
  "nst_secret m pub V = (if is_inst m V then V \<notin> pub else False)"

subsection \<open>The rules\<close>

inductive_set nst_public :: "options \<Rightarrow> (nat \<Rightarrow> nat \<Rightarrow> alias_result) \<Rightarrow> ir_module \<Rightarrow> func \<Rightarrow> nat set"
  for opt :: options and AA :: "nat \<Rightarrow> nat \<Rightarrow> alias_result" and m :: ir_module and F :: func where
  transmitter: "I \<in> set (insts F) \<Longrightarrow> get_transmitter_sensitive_operands m I = Inr ops \<Longrightarrow> (t, v) \<in> set ops \<Longrightarrow>
    is_inst m v \<Longrightarrow> v \<in> nst_public opt AA m F"
| pointer: "I \<in> set (insts F) \<Longrightarrow> is_ptr m I \<Longrightarrow> I \<in> nst_public opt AA m F"
| operand: "I \<in> set (insts F) \<Longrightarrow> v \<in> set (operands (ins m I)) \<Longrightarrow> isa_public_operand m v \<Longrightarrow>
    v \<in> nst_public opt AA m F"
| argument: "StrictCallingConv opt \<Longrightarrow> v \<in> set (fn_args F) \<Longrightarrow> v \<in> nst_public opt AA m F"
| passthrough: "I \<in> set (insts_of m F CallBase) \<Longrightarrow> intrinsic_id m I = Some k \<Longrightarrow> \<not> is_void m I \<Longrightarrow>
    \<not> assume_like (ins m I) \<Longrightarrow> k \<in> set nst_passthrough \<Longrightarrow> I \<in> nst_public opt AA m F \<Longrightarrow>
    v \<in> set (call_args (ins m I)) \<Longrightarrow> v \<in> nst_public opt AA m F"
| annotated: "I \<in> set (insts_of m F CallBase) \<Longrightarrow> intrinsic_id m I = Some In_annotation \<Longrightarrow> \<not> is_void m I \<Longrightarrow>
    \<not> assume_like (ins m I) \<Longrightarrow> I \<in> nst_public opt AA m F \<Longrightarrow> opnd (ins m I) 0 \<in> nst_public opt AA m F"
| called: "I \<in> set (insts_of m F CallBase) \<Longrightarrow> intrinsic_id m I = None \<Longrightarrow> StrictCallingConv opt \<Longrightarrow>
    v \<in> insert I (set (call_args (ins m I))) \<Longrightarrow> v \<in> nst_public opt AA m F"
| memory: "I \<in> set (insts F) \<Longrightarrow> isa m I [Load, AtomicRMW, AtomicCmpXchg] \<Longrightarrow> I \<in> nst_public opt AA m F \<Longrightarrow>
    getPointerOperand (ins m I) \<noteq> null \<Longrightarrow> v \<in> set (getAccessOperands m I) \<Longrightarrow> v \<in> nst_public opt AA m F"
| aliased: "I \<in> set (insts F) \<Longrightarrow> isa m I [Load, AtomicRMW, AtomicCmpXchg] \<Longrightarrow> I \<in> nst_public opt AA m F \<Longrightarrow>
    getPointerOperand (ins m I) \<noteq> null \<Longrightarrow> J \<in> set (insts F) \<Longrightarrow> getPointerOperand (ins m J) \<noteq> null \<Longrightarrow>
    isDefinitelyMustAlias opt (AA (getPointerOperand (ins m I)) (getPointerOperand (ins m J))) = Inr True \<Longrightarrow>
    v \<in> set (getAccessOperands m J) \<Longrightarrow> v \<in> nst_public opt AA m F"
| returned: "v \<in> nst_returns opt m F \<Longrightarrow> v \<in> nst_public opt AA m F"
| gep: "I \<in> set (nonvoid_instructions m F) \<Longrightarrow> isa m I [GetElementPtr] \<Longrightarrow> v \<in> set (operands (ins m I)) \<Longrightarrow>
    v \<in> nst_public opt AA m F"
| forwarded: "I \<in> set (nonvoid_instructions m F) \<Longrightarrow> isa m I nst_forwarding \<Longrightarrow> I \<in> nst_public opt AA m F \<Longrightarrow>
    v \<in> set (operands (ins m I)) \<Longrightarrow> v \<in> nst_public opt AA m F"

subsection \<open>The loop computes the rules\<close>

text \<open>A function of a well-formed module: its instructions and arguments are values of it.\<close>

definition fn_ok :: "ir_module \<Rightarrow> func \<Rightarrow> bool" where
  "fn_ok m F \<longleftrightarrow> wf_module m \<and> (\<forall>I \<in> set (insts F). is_inst m I \<and> I < vbound m) \<and>
     (\<forall>A \<in> set (fn_args F). A < vbound m)"

lemma fn_ok_operands:
  assumes "fn_ok m F" "I \<in> set (insts F)" "v \<in> set (operands (ins m I))"
  shows "1 \<le> v \<and> v < vbound m"
  using assms by (auto simp: fn_ok_def wf_module_def)

lemma fn_ok_opnd: "fn_ok m F \<Longrightarrow> I \<in> set (insts F) \<Longrightarrow> opnd (ins m I) k \<le> vbound m"
  using opnd_in[of "ins m I" k] fn_ok_operands[of m F I] by (fastforce simp: null_def)

lemma fn_ok_access:
  assumes "fn_ok m F" "I \<in> set (insts F)" "v \<in> set (getAccessOperands m I)"
  shows "v \<le> vbound m"
proof -
  have "I \<le> vbound m" using assms(1,2) by (auto simp: fn_ok_def)
  with assms fn_ok_opnd[OF assms(1,2)] show ?thesis
    by (auto simp: getAccessOperands_def Let_def split: if_splits)
qed

lemma insts_of_in: "I \<in> set (insts_of m F os) \<longleftrightarrow> I \<in> set (insts F) \<and> isa m I os"
  by (simp add: insts_of_def)

lemma nonvoid_in: "I \<in> set (nonvoid_instructions m F) \<longleftrightarrow> I \<in> set (insts F) \<and> \<not> is_void m I"
  by (simp add: nonvoid_instructions_def)

lemma nst_public_bounded: "v \<in> nst_public opt AA m F \<Longrightarrow> fn_ok m F \<Longrightarrow> v \<le> vbound m"
proof (induction rule: nst_public.induct)
  case (transmitter I ops t v)
  from get_transmitter_sensitive_operands_in[OF transmitter(2,3)] show ?case
  proof
    assume "v \<in> set (operands (ins m I))"
    from fn_ok_operands[OF transmitter(5,1) this] show ?thesis by simp
  qed (simp add: null_def)
next
  case (operand I v)
  then show ?case using fn_ok_operands[of m F I v] by auto
next
  case (passthrough I k v)
  with call_args_in[of "ins m I"] fn_ok_operands[of m F I v] show ?case by (auto simp: insts_of_in)
next
  case (called I v)
  with call_args_in[of "ins m I"] fn_ok_operands[of m F I v] show ?case
    by (auto simp: insts_of_in fn_ok_def)
next
  case (memory I v)
  then show ?case by (meson fn_ok_access)
next
  case (aliased I J v)
  then show ?case by (meson fn_ok_access)
next
  case (returned v)
  then show ?case by (auto simp: nst_returns_def insts_of_in fn_ok_opnd split: if_splits)
next
  case (gep I v)
  then show ?case using fn_ok_operands[of m F I v] by (auto simp: nonvoid_in)
next
  case (forwarded I v)
  then show ?case using fn_ok_operands[of m F I v] by (auto simp: nonvoid_in)
qed (auto simp: fn_ok_def insts_of_in intro: fn_ok_opnd dest: fn_ok_operands)

lemma map_res_set:
  assumes "map_res f xs = Inr ys"
  shows "y \<in> set ys \<longleftrightarrow> (\<exists>x \<in> set xs. f x = Inr y)"
  using map_res_InrD[OF assms] by (auto simp: list_all2_conv_all_nth in_set_conv_nth) force+

lemma transmitter_operands_set:
  assumes "map_res (get_transmitter_sensitive_operands m) xs = Inr opss"
  shows "v \<in> set (map snd (concat opss)) \<longleftrightarrow> (\<exists>I \<in> set xs. \<exists>ops t.
     get_transmitter_sensitive_operands m I = Inr ops \<and> (t, v) \<in> set ops)"
  using map_res_set[OF assms] by force

lemma nst_init_set:
  assumes "nst_init opt m F = Inr pub"
  shows "pub = {v. is_inst m v \<and> (\<exists>I \<in> set (insts F). \<exists>ops t.
        get_transmitter_sensitive_operands m I = Inr ops \<and> (t, v) \<in> set ops)} \<union>
      {I \<in> set (insts F). is_ptr m I} \<union>
      {v. isa_public_operand m v \<and> (\<exists>I \<in> set (insts F). v \<in> set (operands (ins m I)))} \<union>
      {v. StrictCallingConv opt \<and> v \<in> set (fn_args F)}"
proof -
  from assms obtain opss where o: "map_res (get_transmitter_sensitive_operands m) (insts F) = Inr opss"
    by (auto simp: nst_init_def bindr_eq_Inr)
  have "v \<in> set (map snd (concat opss)) \<longleftrightarrow> (\<exists>I \<in> set (insts F). \<exists>ops t.
        get_transmitter_sensitive_operands m I = Inr ops \<and> (t, v) \<in> set ops)" for v
    by (rule transmitter_operands_set[OF o])
  with assms o show ?thesis by (auto simp: nst_init_def Let_def split: if_splits)
qed

lemma nst_init_sound: "nst_init opt m F = Inr pub \<Longrightarrow> pub \<subseteq> nst_public opt AA m F"
  using nst_init_set[of opt m F pub] by (auto intro: nst_public.intros)

text \<open>Each step only adds values the rules make public.\<close>

lemma nst_call_law:
  assumes "CB \<in> set (insts_of m F CallBase)" "nst_call opt m CB pub = Inr pub'"
  shows "pub \<subseteq> pub'" and "pub \<subseteq> nst_public opt AA m F \<Longrightarrow> pub' \<subseteq> nst_public opt AA m F"
  using assms by (auto simp: nst_call_def split: option.splits if_splits
      intro: nst_public.passthrough nst_public.annotated nst_public.called)

lemma nst_mem_dst_law:
  assumes "nst_mem_dst opt AA m p J pub = Inr pub'"
  shows "pub \<subseteq> pub'"
    and "v \<in> pub' \<Longrightarrow> v \<in> pub \<or> getPointerOperand (ins m J) \<noteq> null \<and>
      isDefinitelyMustAlias opt (AA p (getPointerOperand (ins m J))) = Inr True \<and> v \<in> set (getAccessOperands m J)"
    and "getPointerOperand (ins m J) \<noteq> null \<Longrightarrow>
      isDefinitelyMustAlias opt (AA p (getPointerOperand (ins m J))) = Inr True \<Longrightarrow>
      set (getAccessOperands m J) \<subseteq> pub'"
  using assms by (auto simp: nst_mem_dst_def Let_def bindr_eq_Inr split: if_splits)

definition mem_done :: "options \<Rightarrow> (nat \<Rightarrow> nat \<Rightarrow> alias_result) \<Rightarrow> ir_module \<Rightarrow> func \<Rightarrow> nat \<Rightarrow> nat set \<Rightarrow> bool" where
  "mem_done opt AA m F I pub \<longleftrightarrow> set (getAccessOperands m I) \<subseteq> pub \<and>
     (\<forall>J \<in> set (insts F). getPointerOperand (ins m J) \<noteq> null \<longrightarrow>
        isDefinitelyMustAlias opt (AA (getPointerOperand (ins m I)) (getPointerOperand (ins m J))) = Inr True \<longrightarrow>
        set (getAccessOperands m J) \<subseteq> pub)"

lemma mem_done_mono: "mem_done opt AA m F I pub \<Longrightarrow> pub \<subseteq> pub' \<Longrightarrow> mem_done opt AA m F I pub'"
  unfolding mem_done_def by blast

lemma nst_mem_dsts:
  assumes "foldr_res (nst_mem_dst opt AA m p) Js pub = Inr pub'"
  shows "pub \<subseteq> pub' \<and> (\<forall>J \<in> set Js. getPointerOperand (ins m J) \<noteq> null \<longrightarrow>
      isDefinitelyMustAlias opt (AA p (getPointerOperand (ins m J))) = Inr True \<longrightarrow>
      set (getAccessOperands m J) \<subseteq> pub')"
  using assms
proof (induction Js arbitrary: pub)
  case (Cons J Js)
  from Cons.prems obtain pub1 where 1: "nst_mem_dst opt AA m p J pub = Inr pub1"
    "foldr_res (nst_mem_dst opt AA m p) Js pub1 = Inr pub'" by (auto simp: bindr_eq_Inr)
  from Cons.IH[OF 1(2)] nst_mem_dst_law[OF 1(1)] show ?case by auto
qed simp

lemma nst_mem_law:
  assumes "nst_mem opt AA m F I (pub, seen) = Inr (pub', seen')" "I \<in> set (insts F)"
  shows "pub \<subseteq> pub'" and "pub \<subseteq> nst_public opt AA m F \<Longrightarrow> pub' \<subseteq> nst_public opt AA m F"
    and "\<forall>J \<in> seen. mem_done opt AA m F J pub \<Longrightarrow> \<forall>J \<in> seen'. mem_done opt AA m F J pub'"
    and "I \<in> pub \<Longrightarrow> isa m I [Load, AtomicRMW, AtomicCmpXchg] \<Longrightarrow> getPointerOperand (ins m I) \<noteq> null \<Longrightarrow>
      I \<in> seen'"
proof -
  define p where "p = getPointerOperand (ins m I)"
  define active where "active \<longleftrightarrow> I \<notin> seen \<and> p \<noteq> null \<and> isa m I [Load, AtomicRMW, AtomicCmpXchg] \<and> I \<in> pub"
  have "\<not> active \<Longrightarrow> pub' = pub \<and> seen' = seen"
    and run: "active \<Longrightarrow> foldr_res (nst_mem_dst opt AA m p) (insts F) (pub \<union> set (getAccessOperands m I)) = Inr pub'
      \<and> seen' = insert I seen"
    using assms(1) by (auto simp: nst_mem_def Let_def p_def[symmetric] active_def bindr_eq_Inr split: if_splits)
  note idle = this(1)
  have grow: "active \<Longrightarrow> pub \<subseteq> pub' \<and> mem_done opt AA m F I pub'"
    using run nst_mem_dsts[of opt AA m p "insts F"] by (fastforce simp: mem_done_def p_def)
  show "pub \<subseteq> pub'" using grow idle by blast
  show "\<forall>J \<in> seen. mem_done opt AA m F J pub \<Longrightarrow> \<forall>J \<in> seen'. mem_done opt AA m F J pub'"
    using grow idle run mem_done_mono[of opt AA m F _ pub pub'] by (cases active) auto
  show "I \<in> pub \<Longrightarrow> isa m I [Load, AtomicRMW, AtomicCmpXchg] \<Longrightarrow> getPointerOperand (ins m I) \<noteq> null \<Longrightarrow>
      I \<in> seen'"
    using idle run by (cases active) (auto simp: active_def p_def)
  assume pub: "pub \<subseteq> nst_public opt AA m F"
  show "pub' \<subseteq> nst_public opt AA m F"
  proof (cases active)
    case True
    then have I: "I \<in> nst_public opt AA m F" "p \<noteq> null" "isa m I [Load, AtomicRMW, AtomicCmpXchg]"
      using pub by (auto simp: active_def)
    have src: "set (getAccessOperands m I) \<subseteq> nst_public opt AA m F"
      using nst_public.memory[OF assms(2) I(3,1)] I(2) by (auto simp: p_def)
    from run[OF True] have "foldr_res (nst_mem_dst opt AA m p) (insts F)
        (pub \<union> set (getAccessOperands m I)) = Inr pub'" by simp
    then show ?thesis
    proof (rule foldr_res_inv[where P = "\<lambda>X. X \<subseteq> nst_public opt AA m F"])
      show "pub \<union> set (getAccessOperands m I) \<subseteq> nst_public opt AA m F" using pub src by simp
      fix J X X' assume J: "J \<in> set (insts F)" "X \<subseteq> nst_public opt AA m F"
        "nst_mem_dst opt AA m p J X = Inr X'"
      show "X' \<subseteq> nst_public opt AA m F"
      proof
        fix v assume "v \<in> X'"
        from nst_mem_dst_law(2)[OF J(3) this] show "v \<in> nst_public opt AA m F"
          using J(2) nst_public.aliased[OF assms(2) I(3,1) _ J(1)] I(2) by (auto simp: p_def)
      qed
    qed
  qed (use idle pub in simp)
qed

lemma nst_inst_law:
  assumes "I \<in> set (nonvoid_instructions m F)" "nst_inst m I pub = Inr pub'"
  shows "pub \<subseteq> pub'" and "pub \<subseteq> nst_public opt AA m F \<Longrightarrow> pub' \<subseteq> nst_public opt AA m F"
proof -
  show "pub \<subseteq> pub'" using assms(2) by (auto simp: nst_inst_def split: if_splits)
  assume p: "pub \<subseteq> nst_public opt AA m F"
  show "pub' \<subseteq> nst_public opt AA m F"
  proof (cases "isa m I [GetElementPtr]")
    case True
    with assms(2) have "pub' = pub \<union> set (operands (ins m I))" by (simp add: nst_inst_def)
    with p True nst_public.gep[OF assms(1) True] show ?thesis by auto
  next
    case False
    show ?thesis
    proof (cases "isa m I nst_forwarding \<and> I \<in> pub")
      case True
      with assms(2) False have "pub' = pub \<union> set (operands (ins m I))" by (simp add: nst_inst_def)
      with p True nst_public.forwarded[OF assms(1)] show ?thesis by auto
    next
      case no: False
      with assms(2) False have "pub' = pub" by (auto simp: nst_inst_def split: if_splits)
      with p show ?thesis by simp
    qed
  qed
qed

subsection \<open>Rounds\<close>

lemma nst_roundE:
  assumes "nst_round opt AA m F (pub, seen) = Inr (pub', seen')"
  obtains pub1 pub2 where "foldr_res (nst_call opt m) (insts_of m F CallBase) pub = Inr pub1"
    and "foldr_res (nst_mem opt AA m F) (insts F) (pub1, seen) = Inr (pub2, seen')"
    and "foldr_res (nst_inst m) (nonvoid_instructions m F) (pub2 \<union> nst_returns opt m F) = Inr pub'"
  using assms by (auto simp: nst_round_def bindr_eq_Inr)

definition nst_inv :: "options \<Rightarrow> (nat \<Rightarrow> nat \<Rightarrow> alias_result) \<Rightarrow> ir_module \<Rightarrow> func \<Rightarrow> nat set \<times> nat set \<Rightarrow> bool" where
  "nst_inv opt AA m F s \<longleftrightarrow> fn_ok m F \<and> fst s \<subseteq> nst_public opt AA m F \<and>
     (\<forall>J \<in> snd s. mem_done opt AA m F J (fst s)) \<and> (\<exists>pub0. nst_init opt m F = Inr pub0 \<and> pub0 \<subseteq> fst s)"

lemma nst_mem_fold:
  assumes "foldr_res (nst_mem opt AA m F) Is s = Inr s'" "set Is \<subseteq> set (insts F)"
  shows "fst s \<subseteq> fst s' \<and> (fst s \<subseteq> nst_public opt AA m F \<longrightarrow> fst s' \<subseteq> nst_public opt AA m F) \<and>
    ((\<forall>J \<in> snd s. mem_done opt AA m F J (fst s)) \<longrightarrow> (\<forall>J \<in> snd s'. mem_done opt AA m F J (fst s')))"
  using assms
proof (induction Is arbitrary: s)
  case (Cons I Is)
  obtain pub seen where s: "s = (pub, seen)" by (cases s)
  from Cons.prems(1) obtain s1 where s1: "nst_mem opt AA m F I (pub, seen) = Inr s1"
    "foldr_res (nst_mem opt AA m F) Is s1 = Inr s'" by (auto simp: bindr_eq_Inr s)
  obtain pub1 seen1 where e: "s1 = (pub1, seen1)" by (cases s1)
  have I: "I \<in> set (insts F)" using Cons.prems(2) by simp
  note law = nst_mem_law[OF s1(1)[unfolded e] I]
  from Cons.IH[OF s1(2)] Cons.prems(2) law s e show ?case by (auto dest: subsetD)
qed simp

lemma nst_round_law:
  assumes "nst_round opt AA m F (pub, seen) = Inr (pub', seen')"
  shows "pub \<subseteq> pub'" and "nst_inv opt AA m F (pub, seen) \<Longrightarrow> nst_inv opt AA m F (pub', seen')"
proof -
  obtain pub1 pub2 where
    1: "foldr_res (nst_call opt m) (insts_of m F CallBase) pub = Inr pub1" and
    2: "foldr_res (nst_mem opt AA m F) (insts F) (pub1, seen) = Inr (pub2, seen')" and
    3: "foldr_res (nst_inst m) (nonvoid_instructions m F) (pub2 \<union> nst_returns opt m F) = Inr pub'"
    using nst_roundE[OF assms] by blast
  have g1: "pub \<subseteq> pub1"
    by (rule foldr_res_grows[OF 1, of "\<lambda>x. x"]) (rule nst_call_law(1))
  have g2: "pub1 \<subseteq> pub2" using nst_mem_fold[OF 2] by simp
  have g3: "pub2 \<union> nst_returns opt m F \<subseteq> pub'"
    by (rule foldr_res_grows[OF 3, of "\<lambda>x. x"]) (rule nst_inst_law(1))
  show g: "pub \<subseteq> pub'" using g1 g2 g3 by blast
  assume inv: "nst_inv opt AA m F (pub, seen)"
  then have p: "pub \<subseteq> nst_public opt AA m F" by (simp add: nst_inv_def)
  have p1: "pub1 \<subseteq> nst_public opt AA m F"
    by (rule foldr_res_inv[OF 1, where P = "\<lambda>X. X \<subseteq> nst_public opt AA m F", OF p])
       (rule nst_call_law(2))
  with nst_mem_fold[OF 2] have p2: "pub2 \<subseteq> nst_public opt AA m F" by simp
  then have "pub2 \<union> nst_returns opt m F \<subseteq> nst_public opt AA m F" by (auto intro: nst_public.returned)
  then have p3: "pub' \<subseteq> nst_public opt AA m F"
    by (rule foldr_res_inv[OF 3, where P = "\<lambda>X. X \<subseteq> nst_public opt AA m F"])
       (rule nst_inst_law(2))
  have "\<forall>J \<in> seen. mem_done opt AA m F J pub1"
    using inv g1 by (auto simp: nst_inv_def intro: mem_done_mono)
  with nst_mem_fold[OF 2] have "\<forall>J \<in> seen'. mem_done opt AA m F J pub2" by simp
  then have "\<forall>J \<in> seen'. mem_done opt AA m F J pub'" using g3 by (auto intro: mem_done_mono)
  with inv p3 g show "nst_inv opt AA m F (pub', seen')" by (fastforce simp: nst_inv_def)
qed

interpretation nst: growing_loop fst "nst_round opt AA m F" "nst_inv opt AA m F" "{..vbound m}"
  for opt AA m F
proof
  fix s s' assume "nst_inv opt AA m F s" "nst_round opt AA m F s = Inr s'"
  then show "nst_inv opt AA m F s'" "fst s \<subseteq> fst s'"
    using nst_round_law[of opt AA m F "fst s" "snd s" "fst s'" "snd s'"] by auto
next
  fix s :: "nat set \<times> nat set" assume "nst_inv opt AA m F s"
  then show "fst s \<subseteq> {..vbound m}" using nst_public_bounded by (fastforce simp: nst_inv_def)
qed simp

text \<open>A round that adds nothing has applied every rule.\<close>

lemma nst_stable_closed:
  assumes "nst_inv opt AA m F (pub, seen)" "nst_round opt AA m F (pub, seen) = Inr (pub, seen')"
  shows "nst_public opt AA m F \<subseteq> pub"
proof
  obtain pub1 pub2 where
    1: "foldr_res (nst_call opt m) (insts_of m F CallBase) pub = Inr pub1" and
    2: "foldr_res (nst_mem opt AA m F) (insts F) (pub1, seen) = Inr (pub2, seen')" and
    3: "foldr_res (nst_inst m) (nonvoid_instructions m F) (pub2 \<union> nst_returns opt m F) = Inr pub"
    using nst_roundE[OF assms(2)] by blast
  have g1: "pub \<subseteq> pub1" by (rule foldr_res_grows[OF 1, of "\<lambda>x. x"]) (rule nst_call_law(1))
  have g2: "pub1 \<subseteq> pub2" using nst_mem_fold[OF 2] by simp
  have g3: "pub2 \<union> nst_returns opt m F \<subseteq> pub"
    by (rule foldr_res_grows[OF 3, of "\<lambda>x. x"]) (rule nst_inst_law(1))
  from g1 g2 g3 have eq: "pub1 = pub" "pub2 = pub" "pub2 \<union> nst_returns opt m F = pub" by auto
  have inv': "nst_inv opt AA m F (pub, seen')" using nst_round_law(2)[OF assms(2,1)] .
  have call: "nst_call opt m I pub = Inr pub" if "I \<in> set (insts_of m F CallBase)" for I
  proof -
    have "pub1 = pub" using eq by simp
    from foldr_res_stable[OF 1 this nst_call_law(1) that] show ?thesis by auto
  qed
  have step: "nst_inst m I pub = Inr pub" if "I \<in> set (nonvoid_instructions m F)" for I
  proof -
    have "pub = pub2 \<union> nst_returns opt m F" using eq by simp
    from foldr_res_stable[OF 3 this nst_inst_law(1) that] eq(3) show ?thesis by auto
  qed
  have seen: "I \<in> seen'" if I: "I \<in> set (insts F)" "I \<in> pub" "isa m I [Load, AtomicRMW, AtomicCmpXchg]"
    "getPointerOperand (ins m I) \<noteq> null" for I
  proof -
    have "P" if "foldr_res (nst_mem opt AA m F) Is s = Inr s'" "set Is \<subseteq> set (insts F)" "I \<in> set Is"
      "I \<in> fst s" "I \<in> snd s' \<Longrightarrow> P" for Is s s' P
      using that
    proof (induction Is arbitrary: s)
      case (Cons J Is)
      obtain q r where s: "s = (q, r)" by (cases s)
      from Cons.prems(1) obtain s1 where s1: "nst_mem opt AA m F J (q, r) = Inr s1"
        "foldr_res (nst_mem opt AA m F) Is s1 = Inr s'" by (auto simp: bindr_eq_Inr s)
      obtain q1 r1 where e: "s1 = (q1, r1)" by (cases s1)
      have J: "J \<in> set (insts F)" using Cons.prems(2) by simp
      note law = nst_mem_law[OF s1(1)[unfolded e] J]
      have mono: "snd t \<subseteq> snd t'" if "foldr_res (nst_mem opt AA m F) Ks t = Inr t'" for Ks t t'
        by (rule foldr_res_grows[OF that, of snd])
           (auto simp: nst_mem_def Let_def bindr_eq_Inr split: if_splits)
      show ?case
      proof (cases "J = I")
        case True
        with law(4) I Cons.prems(4) s have "I \<in> r1" by simp
        with mono[OF s1(2)] e Cons.prems(5) show ?thesis by auto
      next
        case False
        with Cons.prems(3) have "I \<in> set Is" by simp
        moreover have "I \<in> fst s1" using law(1) Cons.prems(4) s e by auto
        ultimately show ?thesis using Cons.IH[OF s1(2)] Cons.prems(2,5) by simp
      qed
    qed simp
    from this[OF 2 subset_refl I(1)] eq(1) I(2) show ?thesis by simp
  qed
  have propagated: "mem_done opt AA m F I pub" if "I \<in> set (insts F)" "I \<in> pub"
    "isa m I [Load, AtomicRMW, AtomicCmpXchg]" "getPointerOperand (ins m I) \<noteq> null" for I
    using inv' seen[OF that] by (simp add: nst_inv_def)
  obtain pub0 where i: "nst_init opt m F = Inr pub0" "pub0 \<subseteq> pub"
    using assms(1) by (auto simp: nst_inv_def)
  note init = nst_init_set[OF i(1)]
  fix v assume "v \<in> nst_public opt AA m F"
  then show "v \<in> pub"
  proof induction
    case (passthrough I k v)
    with call[of I] have "pub \<union> set (call_args (ins m I)) = pub"
      by (auto simp: nst_call_def split: if_splits)
    with passthrough show ?case by blast
  next
    case (annotated I)
    with call[of I] show ?case by (auto simp: nst_call_def nst_passthrough_def)
  next
    case (called I v)
    with call[of I] have "insert I (pub \<union> set (call_args (ins m I))) = pub" by (simp add: nst_call_def)
    with called show ?case by blast
  next
    case (memory I v)
    with propagated[of I] show ?case by (auto simp: mem_done_def)
  next
    case (aliased I J v)
    with propagated[of I] show ?case by (auto simp: mem_done_def)
  next
    case (returned v)
    with eq(3) show ?case by blast
  next
    case (gep I v)
    with step[of I] have "pub \<union> set (operands (ins m I)) = pub" by (simp add: nst_inst_def)
    with gep show ?case by blast
  next
    case (forwarded I v)
    then have "\<not> isa m I [GetElementPtr]" by (auto simp: isa_def)
    with forwarded step[of I] have "pub \<union> set (operands (ins m I)) = pub" by (simp add: nst_inst_def)
    with forwarded show ?case by blast
  qed (use i(2) init in auto)
qed

lemma nst_exact:
  assumes "fn_ok m F" "nst_runOnFunction opt AA m F = Some (Inr pub)"
  shows "pub = nst_public opt AA m F"
proof -
  from assms(2) obtain pub0 seen where i: "nst_init opt m F = Inr pub0"
    and u: "until_stable fst (nst_round opt AA m F) (pub0, {}) = Some (Inr (pub, seen))"
    by (auto simp: nst_runOnFunction_def bindo_eq_Inr)
  have inv: "nst_inv opt AA m F (pub0, {})"
    using assms(1) i nst_init_sound[OF i] by (simp add: nst_inv_def)
  from nst.result[OF inv u] obtain seen0 where s0: "nst_inv opt AA m F (pub, seen0)"
    "nst_round opt AA m F (pub, seen0) = Inr (pub, seen)" by auto
  from nst_stable_closed[OF s0] s0(1) show ?thesis by (auto simp: nst_inv_def)
qed

lemma nst_returns_always:
  assumes "fn_ok m F"
  shows "\<exists>r. nst_runOnFunction opt AA m F = Some r"
proof (cases "nst_init opt m F")
  case (Inr pub0)
  have "nst_inv opt AA m F (pub0, {})"
    using assms Inr nst_init_sound[OF Inr] by (simp add: nst_inv_def)
  from nst.returns[OF this] obtain r where
    "until_stable fst (nst_round opt AA m F) (pub0, {}) = Some r" by blast
  with Inr show ?thesis by (cases r) (auto simp: nst_runOnFunction_def)
qed (simp add: nst_runOnFunction_def)

end
