(* ===== verification/ConstantAddress.thy ===== *)
theory ConstantAddress
  imports Fixpoint
begin

text \<open>
  \<open>src/analysis/ConstantAddressAnalysis.cc\<close>: which pointers have the same value in every
  execution of a function. \<open>ca\<close> is \<open>ca_args\<close>, the map from functions to their constant-address
  arguments. The loop starts with every pointer argument of a function that is only called
  directly and erases what a call contradicts; \<open>ca_greatest\<close> shows it ends in the greatest
  consistent map.
\<close>

subsection \<open>The analysis\<close>

type_synonym ca_map = "(nat \<times> nat list) list"

definition hasAllConstantIndices :: "ir_module \<Rightarrow> inst \<Rightarrow> bool" where
  "hasAllConstantIndices m i =
     list_all (\<lambda>v. case vals m v of ConstantInt _ _ \<Rightarrow> True | _ \<Rightarrow> False) (tl (operands i))"

fun isConstantAddress :: "ir_module \<Rightarrow> ca_map \<Rightarrow> nat \<Rightarrow> nat \<Rightarrow> bool res" where
  "isConstantAddress m ca 0 V = Inl Diverges"
| "isConstantAddress m ca (Suc n) V = assertr (is_ptr m V)
     (case vals m V of
        Argument parent argno t \<Rightarrow>
          (case om_find ca parent of None \<Rightarrow> Inr False | Some args \<Rightarrow> Inr (V \<in> set args))
      | Inst i \<Rightarrow>
          if opc i \<in> set ([PHI, Load, IntToPtr] @ CallBase) then Inr False
          else if opc i = Alloca then Inr True
          else if opc i = GetElementPtr then
            (if hasAllConstantIndices m i then isConstantAddress m ca n (opnd i 0) else Inr False)
          else if opc i = BitCast then
            (if is_ptr m (opnd i 0) then isConstantAddress m ca n (opnd i 0) else Inr False)
          else if opc i = Select then
            bindr (isConstantAddress m ca n (opnd i 1)) (\<lambda>b.
              if b then isConstantAddress m ca n (opnd i 2) else Inr False)
          else if opc i = ExtractElement then
            Inr (is_constant (vals m (opnd i 0)) \<and> is_constant (vals m (opnd i 1)))
          else if opc i = ExtractValue then Inr (is_constant (vals m (opnd i 0)))
          else Inl Unhandled
      | d \<Rightarrow> if is_constant d then Inr True else Inl Unhandled)"

definition CAA_isConstantAddress :: "ir_module \<Rightarrow> ca_map \<Rightarrow> nat \<Rightarrow> bool res" where
  "CAA_isConstantAddress m ca V = isConstantAddress m ca (Suc (vbound m)) V"

definition getConstAddrArgs :: "ca_map \<Rightarrow> nat \<Rightarrow> nat list" where
  "getConstAddrArgs ca F = (case om_find ca F of None \<Rightarrow> [] | Some args \<Rightarrow> args)"

text \<open>\<open>F->users()\<close>: the instructions with the function among their operands.\<close>

definition users :: "ir_module \<Rightarrow> nat \<Rightarrow> nat list" where
  "users m f = concat (map (\<lambda>g. filter (\<lambda>I. f \<in> set (operands (ins m I))) (insts (fn_of m g))) (fn_list m))"

definition ca_functions :: "ir_module \<Rightarrow> nat list" where
  "ca_functions m = filter (\<lambda>f. functionIsDirectCallOnly (fn_of m f)) (fn_list m)"

definition ca_top :: "ir_module \<Rightarrow> ca_map" where
  "ca_top m = fold (\<lambda>f ca. om_put ca f (os_of (filter (is_ptr m) (fn_args (fn_of m f))))) (ca_functions m) []"

definition arg_no :: "ir_module \<Rightarrow> nat \<Rightarrow> nat" where
  "arg_no m A = (case vals m A of Argument _ k _ \<Rightarrow> k | _ \<Rightarrow> 0)"

definition is_nca :: "ir_module \<Rightarrow> ca_map \<Rightarrow> nat \<Rightarrow> nat \<Rightarrow> bool res" where
  "is_nca m ca I A =
     (let ArgNo = arg_no m A in
      if ArgNo \<ge> length (call_args (ins m I)) then Inr True
      else bindr (CAA_isConstantAddress m ca (call_args (ins m I) ! ArgNo)) (\<lambda>b. Inr (\<not> b)))"

definition ca_arg :: "ir_module \<Rightarrow> nat \<Rightarrow> nat \<Rightarrow> nat \<Rightarrow> ca_map \<Rightarrow> ca_map res" where
  "ca_arg m Callee I A ca = bindr (is_nca m ca I A) (\<lambda>nca.
     Inr (if nca then om_put ca Callee (filter (\<lambda>B. B \<noteq> A) (getConstAddrArgs ca Callee)) else ca))"

definition ca_user :: "ir_module \<Rightarrow> nat \<Rightarrow> nat \<Rightarrow> ca_map \<Rightarrow> ca_map res" where
  "ca_user m Callee I ca = assertr (isa m I CallBase)
     (foldr_res (ca_arg m Callee I) (getConstAddrArgs ca Callee) ca)"

definition ca_callee :: "ir_module \<Rightarrow> nat \<Rightarrow> ca_map \<Rightarrow> ca_map res" where
  "ca_callee m Callee ca =
     (if om_find ca Callee = None then Inl Bad_index
      else foldr_res (ca_user m Callee) (users m Callee) ca)"

definition ca_round :: "ir_module \<Rightarrow> ca_map \<Rightarrow> ca_map res" where
  "ca_round m ca = foldr_res (ca_callee m) (ca_functions m) ca"

definition ca_runOnModule :: "ir_module \<Rightarrow> ca_map run" where
  "ca_runOnModule m = until_stable (\<lambda>ca. ca) (ca_round m) (ca_top m)"

subsection \<open>Order on the maps\<close>

definition ca_le :: "ca_map \<Rightarrow> ca_map \<Rightarrow> bool" where
  "ca_le a b \<longleftrightarrow> (\<forall>f A. A \<in> set (getConstAddrArgs a f) \<longrightarrow> A \<in> set (getConstAddrArgs b f))"

lemma isConstantAddress_mono:
  "isConstantAddress m a n V = Inr True \<Longrightarrow> ca_le a b \<Longrightarrow> isConstantAddress m b n V = Inr True"
proof (induction m a n V rule: isConstantAddress.induct)
  case (2 m a n V)
  show ?case
  proof (cases "vals m V")
    case (Argument parent k t)
    with "2.prems"(1) have "V \<in> set (getConstAddrArgs a parent)" and p: "is_ptr m V"
      by (auto simp: getConstAddrArgs_def split: option.splits)
    with "2.prems"(2) have "V \<in> set (getConstAddrArgs b parent)" by (simp add: ca_le_def)
    with p Argument show ?thesis by (cases "om_find b parent") (auto simp: getConstAddrArgs_def)
  next
    case (Inst i)
    with 2 show ?thesis
      by (auto simp: bindr_eq_Inr split: if_splits)
  qed (use "2.prems" in auto)
qed simp

text \<open>A map is consistent with the calls when every call of a function passes a constant address
  for each of its constant-address arguments.\<close>

definition ca_consistent :: "ir_module \<Rightarrow> ca_map \<Rightarrow> bool" where
  "ca_consistent m ca \<longleftrightarrow> (\<forall>f \<in> set (ca_functions m). \<forall>I \<in> set (users m f). isa m I CallBase \<longrightarrow>
     (\<forall>A \<in> set (getConstAddrArgs ca f). arg_no m A < length (call_args (ins m I)) \<and>
        CAA_isConstantAddress m ca (call_args (ins m I) ! arg_no m A) = Inr True))"

definition ca_size :: "ca_map \<Rightarrow> nat" where
  "ca_size ca = sum_list (map (\<lambda>p. length (snd p)) ca)"

lemma getConstAddrArgs_put:
  "om_ok ca \<Longrightarrow> getConstAddrArgs (om_put ca f args) g = (if g = f then args else getConstAddrArgs ca g)"
  by (simp add: getConstAddrArgs_def)

lemma ca_size_put:
  assumes "om_ok ca" "om_find ca f = Some args"
  shows "ca_size (om_put ca f args') + length args = ca_size ca + length args'"
  using assms
proof (induction ca f args' rule: om_put.induct)
  case (2 a b ca k v)
  show ?case
  proof (cases "k < a")
    case True
    then have "k \<notin> fst ` set ca" using "2.prems"(1) by (auto simp: om_ok_Cons)
    with "2.prems"(2) True have False by (auto simp: om_find_None[symmetric])
    then show ?thesis ..
  next
    case False
    with 2 show ?thesis by (cases "k = a") (auto simp: ca_size_def om_ok_Cons)
  qed
qed simp

lemma om_put_same: "om_ok ca \<Longrightarrow> om_find ca f = Some v \<Longrightarrow> om_put ca f v = ca"
proof (induction ca f v rule: om_put.induct)
  case (2 a b ca k v)
  show ?case
  proof (cases "k < a")
    case True
    then have "om_find ca k = None" using "2.prems"(1) by (auto simp: om_find_None om_ok_Cons)
    with "2.prems"(2) True show ?thesis by (auto split: if_splits)
  next
    case False
    with 2 show ?thesis by (cases "k = a") (auto simp: om_ok_Cons)
  qed
qed simp

text \<open>A step keeps the map or makes it smaller. \<open>shrinks m a b\<close> collects what every step and every
  sequence of steps from \<open>a\<close> to \<open>b\<close> satisfies.\<close>

definition shrinks :: "ir_module \<Rightarrow> ca_map \<Rightarrow> ca_map \<Rightarrow> bool" where
  "shrinks m a b \<longleftrightarrow> om_ok b \<and> fst ` set b = fst ` set a \<and> ca_le b a \<and> (b = a \<or> ca_size b < ca_size a) \<and>
     (\<forall>X. ca_consistent m X \<longrightarrow> ca_le X a \<longrightarrow> ca_le X b)"

lemma shrinks_refl: "om_ok a \<Longrightarrow> shrinks m a a"
  by (simp add: shrinks_def ca_le_def)

lemma shrinksD:
  assumes "shrinks m a b"
  shows "om_ok b" "fst ` set b = fst ` set a" "ca_le b a" "b = a \<or> ca_size b < ca_size a"
    "\<And>X. ca_consistent m X \<Longrightarrow> ca_le X a \<Longrightarrow> ca_le X b"
  using assms unfolding shrinks_def by blast+

lemma shrinks_trans:
  assumes "shrinks m a b" "shrinks m b c"
  shows "shrinks m a c"
proof -
  have "ca_le c a" using shrinksD(3)[OF assms(1)] shrinksD(3)[OF assms(2)] by (simp add: ca_le_def)
  moreover have "c = a \<or> ca_size c < ca_size a"
    using shrinksD(4)[OF assms(1)] shrinksD(4)[OF assms(2)] by auto
  ultimately show ?thesis
    using shrinksD(1,2,5)[OF assms(2)] shrinksD(2,5)[OF assms(1)] unfolding shrinks_def by simp
qed

lemma shrinks_back: "shrinks m a b \<Longrightarrow> shrinks m b a \<Longrightarrow> a = b"
  using shrinksD(4)[of m a b] shrinksD(4)[of m b a] by auto

lemma ca_arg_shrinks:
  assumes "ca_arg m f I A ca = Inr ca'" "om_ok ca" "om_find ca f \<noteq> None"
    "f \<in> set (ca_functions m)" "I \<in> set (users m f)" "isa m I CallBase"
  shows "shrinks m ca ca'"
proof -
  from assms(1) obtain b where b: "is_nca m ca I A = Inr b"
    "ca' = (if b then om_put ca f (filter (\<lambda>B. B \<noteq> A) (getConstAddrArgs ca f)) else ca)"
    by (auto simp: ca_arg_def bindr_eq_Inr)
  obtain args where f: "om_find ca f = Some args" using assms(3) by auto
  then have ga: "getConstAddrArgs ca f = args" by (simp add: getConstAddrArgs_def)
  show ?thesis
  proof (cases "b \<and> A \<in> set args")
    case False
    then have "ca' = ca"
    proof (cases b)
      case True
      with False have "filter (\<lambda>B. B \<noteq> A) args = args" by (auto simp: filter_id_conv)
      with b(2) True ga om_put_same[OF assms(2) f] show ?thesis by simp
    qed (use b(2) in simp)
    with assms(2) show ?thesis by (simp add: shrinks_refl)
  next
    case True
    define args' where "args' = filter (\<lambda>B. B \<noteq> A) args"
    have ca': "ca' = om_put ca f args'" using b(2) True ga by (simp add: args'_def)
    have get: "getConstAddrArgs ca' g = (if g = f then args' else getConstAddrArgs ca g)" for g
      using getConstAddrArgs_put[OF assms(2)] ca' by simp
    have "length args' < length args" unfolding args'_def using True by (intro length_filter_less[of A]) auto
    with ca_size_put[OF assms(2) f, of args'] ca' have size: "ca_size ca' < ca_size ca" by simp
    have le: "ca_le ca' ca" by (auto simp: ca_le_def get ga args'_def split: if_splits)
    have keep: "ca_le X ca'" if X: "ca_consistent m X" "ca_le X ca" for X
    proof -
      have "A \<notin> set (getConstAddrArgs X f)"
      proof
        assume "A \<in> set (getConstAddrArgs X f)"
        with X(1) assms(4-6) have l: "arg_no m A < length (call_args (ins m I))"
          and c: "CAA_isConstantAddress m X (call_args (ins m I) ! arg_no m A) = Inr True"
          unfolding ca_consistent_def by blast+
        from isConstantAddress_mono[OF c[unfolded CAA_isConstantAddress_def] X(2)] l
        have "is_nca m ca I A = Inr False" by (simp add: is_nca_def CAA_isConstantAddress_def Let_def)
        with b(1) True show False by simp
      qed
      then show ?thesis using X(2) ga by (auto simp: ca_le_def get args'_def)
    qed
    have "fst ` set ca' = fst ` set ca"
    proof -
      have "f \<in> fst ` set ca" using f om_find_None[of ca f] by auto
      with ca' show ?thesis by (simp add: insert_absorb)
    qed
    with size le keep assms(2) ca' show ?thesis by (auto simp: shrinks_def)
  qed
qed

lemma foldr_res_shrinks:
  assumes "foldr_res g xs ca = Inr ca'" "om_ok ca"
    "\<And>x a b. x \<in> set xs \<Longrightarrow> om_ok a \<Longrightarrow> fst ` set a = fst ` set ca \<Longrightarrow> g x a = Inr b \<Longrightarrow> shrinks m a b"
  shows "shrinks m ca ca'"
proof -
  show ?thesis
  proof (rule foldr_res_inv[OF assms(1), of "shrinks m ca", OF shrinks_refl[OF assms(2)]])
    fix x a b assume a: "x \<in> set xs" "shrinks m ca a" "g x a = Inr b"
    from assms(3)[OF a(1) shrinksD(1,2)[OF a(2)] a(3)] shrinks_trans[OF a(2)]
    show "shrinks m ca b" by blast
  qed
qed

lemma ca_user_shrinks:
  assumes "ca_user m f I ca = Inr ca'" "om_ok ca" "om_find ca f \<noteq> None"
    "f \<in> set (ca_functions m)" "I \<in> set (users m f)"
  shows "shrinks m ca ca'"
proof -
  from assms(1) have c: "isa m I CallBase"
    and run: "foldr_res (ca_arg m f I) (getConstAddrArgs ca f) ca = Inr ca'"
    unfolding ca_user_def by auto
  show ?thesis
    by (rule foldr_res_shrinks[OF run assms(2)])
       (use ca_arg_shrinks assms(3-5) c in \<open>auto simp: om_find_None\<close>)
qed

lemma ca_callee_shrinks:
  assumes "ca_callee m f ca = Inr ca'" "om_ok ca" "f \<in> set (ca_functions m)"
  shows "shrinks m ca ca'"
proof -
  from assms(1) have k: "om_find ca f \<noteq> None"
    and run: "foldr_res (ca_user m f) (users m f) ca = Inr ca'"
    by (auto simp: ca_callee_def split: if_splits)
  show ?thesis
    by (rule foldr_res_shrinks[OF run assms(2)])
       (use ca_user_shrinks assms(3) k in \<open>auto simp: om_find_None\<close>)
qed

lemma ca_round_shrinks:
  assumes "ca_round m ca = Inr ca'" "om_ok ca"
  shows "shrinks m ca ca'"
  using foldr_res_shrinks[OF assms(1)[unfolded ca_round_def] assms(2)] ca_callee_shrinks by blast

interpretation ca: stable_loop "\<lambda>ca. ca" "ca_round m" om_ok ca_size for m
proof
  fix s s' assume "om_ok s" "ca_round m s = Inr s'"
  from ca_round_shrinks[OF this(2,1)] show "om_ok s'" "s' \<noteq> s \<Longrightarrow> ca_size s' < ca_size s"
    by (auto simp: shrinks_def)
qed

lemma ca_top_ok: "om_ok (ca_top m)"
proof -
  have "om_ok ca \<Longrightarrow> om_ok (fold (\<lambda>f ca. om_put ca f (g f)) fs ca)" for fs ca and g :: "nat \<Rightarrow> nat list"
    by (induction fs arbitrary: ca) auto
  then show ?thesis by (simp add: ca_top_def)
qed

lemma ca_top_args:
  "getConstAddrArgs (ca_top m) f = (if f \<in> set (ca_functions m) then os_of (filter (is_ptr m) (fn_args (fn_of m f))) else [])"
proof -
  have "om_ok ca \<Longrightarrow> getConstAddrArgs (fold (\<lambda>f ca. om_put ca f (g f)) fs ca) f =
    (if f \<in> set fs then g f else getConstAddrArgs ca f)" for fs ca and g :: "nat \<Rightarrow> nat list"
    by (induction fs arbitrary: ca) (auto simp: getConstAddrArgs_put)
  then show ?thesis by (simp add: ca_top_def getConstAddrArgs_def[of "[]"])
qed

text \<open>A stable round has found every call consistent.\<close>

lemma foldr_res_shrinks_stable:
  assumes "foldr_res g xs ca = Inr ca" "om_ok ca" "x \<in> set xs"
    "\<And>x a b. x \<in> set xs \<Longrightarrow> om_ok a \<Longrightarrow> fst ` set a = fst ` set ca \<Longrightarrow> g x a = Inr b \<Longrightarrow> shrinks m a b"
  shows "g x ca = Inr ca"
proof -
  have "g x ca = Inr ca" if "foldr_res g ys a = Inr ca" "x \<in> set ys" "set ys \<subseteq> set xs" "shrinks m ca a" for ys a
    using that
  proof (induction ys arbitrary: a)
    case (Cons y ys)
    from Cons.prems(1) obtain b where b: "g y a = Inr b" "foldr_res g ys b = Inr ca"
      by (auto simp: bindr_eq_Inr)
    note a = shrinksD(1,2)[OF Cons.prems(4)]
    have ab: "shrinks m a b" using assms(4)[OF _ a b(1)] Cons.prems(3) by simp
    note b' = shrinksD(1,2)[OF ab]
    have bc: "shrinks m b ca"
    proof (rule foldr_res_shrinks[OF b(2) b'(1)])
      fix z c d assume "z \<in> set ys" "om_ok c" "fst ` set c = fst ` set b" "g z c = Inr d"
      then show "shrinks m c d" using assms(4)[of z c d] Cons.prems(3) b'(2) a(2) by auto
    qed
    have "ca = a" by (rule shrinks_back[OF Cons.prems(4) shrinks_trans[OF ab bc]])
    moreover have "ca = b" by (rule shrinks_back[OF shrinks_trans[OF Cons.prems(4) ab] bc])
    ultimately have eq: "a = ca" "b = ca" by auto
    show ?case
    proof (cases "x = y")
      case False
      with Cons eq b show ?thesis by simp
    qed (use b(1) eq in simp)
  qed simp
  from this[OF assms(1,3) subset_refl shrinks_refl[OF assms(2)]] show ?thesis .
qed

lemma ca_stable_consistent:
  assumes "ca_round m ca = Inr ca" "om_ok ca"
  shows "ca_consistent m ca"
  unfolding ca_consistent_def
proof (intro ballI impI)
  fix f I A assume f: "f \<in> set (ca_functions m)" and I: "I \<in> set (users m f)" "isa m I CallBase"
    and A: "A \<in> set (getConstAddrArgs ca f)"
  have "ca_callee m f ca = Inr ca"
    by (rule foldr_res_shrinks_stable[OF assms(1)[unfolded ca_round_def] assms(2) f])
       (rule ca_callee_shrinks)
  then have k: "om_find ca f \<noteq> None" and run: "foldr_res (ca_user m f) (users m f) ca = Inr ca"
    by (auto simp: ca_callee_def split: if_splits)
  have "ca_user m f I ca = Inr ca"
  proof (rule foldr_res_shrinks_stable[OF run assms(2) I(1)])
    fix x a b assume "x \<in> set (users m f)" "om_ok a" "fst ` set a = fst ` set ca" "ca_user m f x a = Inr b"
    with ca_user_shrinks[of m f x a b] f k show "shrinks m a b" by (auto simp: om_find_None)
  qed
  then have run: "foldr_res (ca_arg m f I) (getConstAddrArgs ca f) ca = Inr ca"
    unfolding ca_user_def by auto
  have "ca_arg m f I A ca = Inr ca"
  proof (rule foldr_res_shrinks_stable[OF run assms(2) A])
    fix x a b assume "om_ok a" "fst ` set a = fst ` set ca" "ca_arg m f I x a = Inr b"
    with ca_arg_shrinks[of m f I x a b] f I k show "shrinks m a b" by (auto simp: om_find_None)
  qed
  then obtain b where b: "is_nca m ca I A = Inr b"
    "ca = (if b then om_put ca f (filter (\<lambda>B. B \<noteq> A) (getConstAddrArgs ca f)) else ca)"
    by (auto simp: ca_arg_def bindr_eq_Inr)
  have "\<not> b"
  proof
    assume b
    with b(2) have "getConstAddrArgs ca f = filter (\<lambda>B. B \<noteq> A) (getConstAddrArgs ca f)"
      using getConstAddrArgs_put[OF assms(2), of f] by (metis (full_types))
    moreover have "A \<notin> set (filter (\<lambda>B. B \<noteq> A) (getConstAddrArgs ca f))" by simp
    ultimately show False using A by metis
  qed
  with b(1) show "arg_no m A < length (call_args (ins m I)) \<and>
      CAA_isConstantAddress m ca (call_args (ins m I) ! arg_no m A) = Inr True"
    by (auto simp: is_nca_def Let_def bindr_eq_Inr split: if_splits)
qed

lemma ca_greatest:
  assumes "ca_runOnModule m = Some (Inr ca)"
  shows "ca_consistent m ca" "ca_le ca (ca_top m)"
    "\<And>X. ca_consistent m X \<Longrightarrow> ca_le X (ca_top m) \<Longrightarrow> ca_le X ca"
proof -
  note run = assms[unfolded ca_runOnModule_def]
  from ca.result[OF ca_top_ok run] have "om_ok ca" "ca_round m ca = Inr ca" by auto
  then show "ca_consistent m ca" by (intro ca_stable_consistent)
  have sh: "om_ok s \<Longrightarrow> shrinks m (ca_top m) s \<Longrightarrow> ca_round m s = Inr s' \<Longrightarrow> shrinks m (ca_top m) s'" for s s'
    using ca_round_shrinks shrinks_trans by blast
  have "shrinks m (ca_top m) ca"
    by (rule ca.result_preserves[where P = "shrinks m (ca_top m)", OF ca_top_ok run shrinks_refl[OF ca_top_ok] sh])
  then show "ca_le ca (ca_top m)" "\<And>X. ca_consistent m X \<Longrightarrow> ca_le X (ca_top m) \<Longrightarrow> ca_le X ca"
    using shrinksD(3,5) by blast+
qed

lemma ca_returns: "\<exists>r. ca_runOnModule m = Some r"
  unfolding ca_runOnModule_def by (rule ca.returns) (rule ca_top_ok)

end
