(* ===== verification/SpeculativeTaint.thy ===== *)
theory SpeculativeTaint
  imports NonspeculativeTaint ConstantAddress
begin

text \<open>
  \<open>src/analysis/SpeculativeTaintAnalysis.cc\<close>: which loads from non-constant addresses (NCALs) an
  instruction's value may come from. \<open>T\<close> is the map \<open>taints\<close> as the set of its pairs (instruction,
  index of an NCAL); an entry with no NCAL and a missing entry are not distinguished, as the
  code's comparison of the maps ends at the same values either way. \<open>CAA\<close> answers
  \<open>isConstantAddress\<close>, \<open>rfs\<close> is the map from stores to the constant-address loads that may read
  them.

  \<open>st_flow\<close> states how taint flows. The code propagates through a store only what differs from
  the beginning of the round: the result is always a part of \<open>st_flow\<close>, and all of it when every
  stored value is computed before the store in the order of the function and is not itself a
  constant-address load.
\<close>

subsection \<open>The analysis\<close>

definition st_passthrough :: "intrinsic list" where
  "st_passthrough =
     [vector_reduce ReduceAdd, vector_reduce ReduceAnd, vector_reduce ReduceOr, In_fshl, In_umax,
      In_umin, In_ctpop, x86 aesni_aeskeygenassist, x86 aesni_aesenc, x86 aesni_aesenclast,
      In_bswap, x86 pclmulqdq, x86 rdrand_32, In_smax, In_smin, In_abs, In_umul_with_overflow,
      In_bitreverse, In_cttz, In_usub_sat, In_fmuladd, In_fabs, In_floor,
      experimental_constrained FCmp, experimental_constrained FSub,
      experimental_constrained FMul, experimental_constrained SIToFP,
      experimental_constrained UIToFP, experimental_constrained FCmps,
      experimental_constrained FAdd, experimental_constrained FPToSI,
      experimental_constrained FDiv, experimental_constrained FPToUI,
      experimental_constrained FPExt, experimental_constrained FFloor,
      experimental_constrained FPTrunc, experimental_constrained FMulAdd,
      experimental_constrained FCeil, In_masked_load, In_masked_gather, In_fshr, In_stacksave,
      vector_reduce ReduceMul, vector_reduce ReduceUMax, vector_reduce ReduceUMin,
      vector_reduce ReduceSMax, vector_reduce ReduceXor, vector_reduce ReduceSMin,
      In_eh_typeid_for, In_uadd_with_overflow, In_ctlz, experimental_constrained FPowI,
      experimental_constrained FTrunc, experimental_constrained FRound, In_uadd_sat]"

type_synonym taint_map = "(nat \<times> nat) set"

definition st_ncals :: "ir_module \<Rightarrow> (nat \<Rightarrow> bool res) \<Rightarrow> func \<Rightarrow> nat list res" where
  "st_ncals m CAA F =
     bindr (map_res (\<lambda>LI. bindr (CAA (getPointerOperand (ins m LI))) (\<lambda>ca. Inr (if \<not> ca then [LI] else [])))
       (insts_of m F [Load])) (\<lambda>ls. Inr (sort (concat ls)))"

definition ncal_to_idx :: "nat list \<Rightarrow> nat \<Rightarrow> nat res" where
  "ncal_to_idx ncals LI =
     (let i = length (takeWhile (\<lambda>x. x < LI) ncals)
      in assertr (i < length ncals \<and> ncals ! i = LI) (Inr i))"

definition idx_to_ncal :: "nat list \<Rightarrow> nat \<Rightarrow> nat res" where
  "idx_to_ncal ncals i = assertr (i < length ncals) (Inr (ncals ! i))"

definition st_loads_from :: "options \<Rightarrow> (nat \<Rightarrow> nat \<Rightarrow> alias_result) \<Rightarrow> ir_module \<Rightarrow> (nat \<Rightarrow> bool res) \<Rightarrow>
    func \<Rightarrow> nat \<Rightarrow> nat list res" where
  "st_loads_from opt AA m CAA F SI =
     bindr (map_res (\<lambda>LI. bindr (CAA (getPointerOperand (ins m LI))) (\<lambda>ca.
         if ca then bindr (isDefinitelyNoAlias opt
             (AA (getPointerOperand (ins m SI)) (getPointerOperand (ins m LI)))) (\<lambda>no_alias.
           Inr (if no_alias then [] else [LI]))
         else Inr [])) (insts_of m F [Load])) (\<lambda>ls. Inr (os_of (concat ls)))"

definition st_rfs :: "options \<Rightarrow> (nat \<Rightarrow> nat \<Rightarrow> alias_result) \<Rightarrow> ir_module \<Rightarrow> (nat \<Rightarrow> bool res) \<Rightarrow>
    func \<Rightarrow> (nat \<times> nat list) list res" where
  "st_rfs opt AA m CAA F =
     map_res (\<lambda>SI. bindr (st_loads_from opt AA m CAA F SI) (\<lambda>ls. Inr (SI, ls))) (insts_of m F [Store])"

definition rf :: "(nat \<times> nat list) list \<Rightarrow> nat \<Rightarrow> nat list" where
  "rf rfs SI = (case map_of rfs SI of None \<Rightarrow> [] | Some ls \<Rightarrow> ls)"

text \<open>\<open>taints[I] |= taints[v]\<close> for the operands \<open>v\<close> that are instructions.\<close>

definition st_join :: "ir_module \<Rightarrow> nat \<Rightarrow> nat list \<Rightarrow> taint_map \<Rightarrow> taint_map" where
  "st_join m I vs T = T \<union> {I} \<times> \<Union> ((\<lambda>v. T `` {v}) ` set (filter (is_inst m) vs))"

definition st_intrinsic :: "ir_module \<Rightarrow> nat \<Rightarrow> intrinsic \<Rightarrow> taint_map \<Rightarrow> taint_map res" where
  "st_intrinsic m II k T =
     (if \<not> is_void m II \<and> \<not> assume_like (ins m II) then
        (if k \<in> set st_passthrough then Inr (st_join m II (call_args (ins m II)) T)
         else if k = In_annotation then Inr (st_join m II [opnd (ins m II) 0] T)
         else Inl Unhandled)
      else Inr T)"

definition st_inst :: "ir_module \<Rightarrow> (nat \<Rightarrow> bool res) \<Rightarrow> nat list \<Rightarrow> (nat \<times> nat list) list \<Rightarrow> taint_map \<Rightarrow>
    nat \<Rightarrow> taint_map \<Rightarrow> taint_map res" where
  "st_inst m CAA ncals rfs bak I T =
     (let i = ins m I in
      if isa m I [Load] then
        bindr (CAA (getPointerOperand i)) (\<lambda>ca.
          if \<not> ca then bindr (ncal_to_idx ncals I) (\<lambda>k. Inr (insert (I, k) T)) else Inr T)
      else if isa m I [Store] then
        (let v = opnd i 0 in
         Inr (if is_inst m v then
                (let orgs = T `` {v} in if orgs \<noteq> bak `` {v} then T \<union> set (rf rfs I) \<times> orgs else T)
              else T))
      else case intrinsic_id m I of
          Some k \<Rightarrow> st_intrinsic m I k T
        | None \<Rightarrow>
            if isa m I CallBase then Inr T
            else if \<not> is_void m I then Inr (st_join m I (operands i) T)
            else Inr T)"

definition st_round :: "ir_module \<Rightarrow> (nat \<Rightarrow> bool res) \<Rightarrow> func \<Rightarrow> nat list \<Rightarrow> (nat \<times> nat list) list \<Rightarrow>
    taint_map \<Rightarrow> taint_map res" where
  "st_round m CAA F ncals rfs T = foldr_res (st_inst m CAA ncals rfs T) (insts F) T"

definition st_convert :: "nat list \<Rightarrow> taint_map \<Rightarrow> taint_map res" where
  "st_convert ncals T =
     assertr (\<forall>p \<in> T. snd p < length ncals) (Inr ((\<lambda>p. (fst p, ncals ! snd p)) ` T))"

definition st_runOnFunction :: "options \<Rightarrow> (nat \<Rightarrow> nat \<Rightarrow> alias_result) \<Rightarrow> ir_module \<Rightarrow> (nat \<Rightarrow> bool res) \<Rightarrow>
    func \<Rightarrow> taint_map run" where
  "st_runOnFunction opt AA m CAA F =
     bindo (Some (st_ncals m CAA F)) (\<lambda>ncals.
     bindo (Some (st_rfs opt AA m CAA F)) (\<lambda>rfs.
     bindo (until_stable (\<lambda>T. T) (st_round m CAA F ncals rfs) {}) (\<lambda>T.
     Some (st_convert ncals T))))"

definition st_secret :: "ir_module \<Rightarrow> taint_map \<Rightarrow> nat \<Rightarrow> bool res" where
  "st_secret m T V = assertr (V \<noteq> null) (Inr (if is_inst m V then T `` {V} \<noteq> {} else False))"

subsection \<open>How taint flows\<close>

definition st_plain :: "ir_module \<Rightarrow> nat \<Rightarrow> bool" where
  "st_plain m I \<longleftrightarrow> \<not> isa m I ([Load, Store] @ CallBase) \<and> \<not> is_void m I"

inductive_set st_flow :: "options \<Rightarrow> (nat \<Rightarrow> nat \<Rightarrow> alias_result) \<Rightarrow> ir_module \<Rightarrow> (nat \<Rightarrow> bool res) \<Rightarrow>
    func \<Rightarrow> taint_map"
  for opt :: options and AA :: "nat \<Rightarrow> nat \<Rightarrow> alias_result" and m :: ir_module and
    CAA :: "nat \<Rightarrow> bool res" and F :: func where
  ncal: "I \<in> set (insts_of m F [Load]) \<Longrightarrow> CAA (getPointerOperand (ins m I)) = Inr False \<Longrightarrow>
    (I, I) \<in> st_flow opt AA m CAA F"
| store: "S \<in> set (insts_of m F [Store]) \<Longrightarrow> is_inst m (opnd (ins m S) 0) \<Longrightarrow>
    L \<in> set (insts_of m F [Load]) \<Longrightarrow> CAA (getPointerOperand (ins m L)) = Inr True \<Longrightarrow>
    isDefinitelyNoAlias opt (AA (getPointerOperand (ins m S)) (getPointerOperand (ins m L))) = Inr False \<Longrightarrow>
    (opnd (ins m S) 0, l) \<in> st_flow opt AA m CAA F \<Longrightarrow> (L, l) \<in> st_flow opt AA m CAA F"
| intrinsic: "I \<in> set (insts F) \<Longrightarrow> intrinsic_id m I = Some k \<Longrightarrow> \<not> is_void m I \<Longrightarrow> \<not> assume_like (ins m I) \<Longrightarrow>
    k \<in> set st_passthrough \<Longrightarrow> v \<in> set (call_args (ins m I)) \<Longrightarrow> is_inst m v \<Longrightarrow>
    (v, l) \<in> st_flow opt AA m CAA F \<Longrightarrow> (I, l) \<in> st_flow opt AA m CAA F"
| annotation: "I \<in> set (insts F) \<Longrightarrow> intrinsic_id m I = Some In_annotation \<Longrightarrow> \<not> is_void m I \<Longrightarrow>
    \<not> assume_like (ins m I) \<Longrightarrow> is_inst m (opnd (ins m I) 0) \<Longrightarrow>
    (opnd (ins m I) 0, l) \<in> st_flow opt AA m CAA F \<Longrightarrow> (I, l) \<in> st_flow opt AA m CAA F"
| operand: "I \<in> set (insts F) \<Longrightarrow> st_plain m I \<Longrightarrow> v \<in> set (operands (ins m I)) \<Longrightarrow> is_inst m v \<Longrightarrow>
    (v, l) \<in> st_flow opt AA m CAA F \<Longrightarrow> (I, l) \<in> st_flow opt AA m CAA F"

subsection \<open>The tables\<close>

lemma st_ncals_set:
  assumes "st_ncals m CAA F = Inr ncals"
  shows "L \<in> set ncals \<longleftrightarrow> L \<in> set (insts_of m F [Load]) \<and> CAA (getPointerOperand (ins m L)) = Inr False"
    and "sorted ncals"
proof -
  define f where "f = (\<lambda>LI. bindr (CAA (getPointerOperand (ins m LI))) (\<lambda>ca. Inr (if \<not> ca then [LI] else [])))"
  from assms obtain ls where ls: "map_res f (insts_of m F [Load]) = Inr ls" "ncals = sort (concat ls)"
    unfolding st_ncals_def f_def[symmetric] by (auto simp: bindr_eq_Inr)
  have f: "f I = Inr l \<and> L \<in> set l \<longleftrightarrow> I = L \<and> l = [L] \<and> CAA (getPointerOperand (ins m L)) = Inr False" for I l
    by (cases "CAA (getPointerOperand (ins m I))") (auto simp: f_def)
  have "L \<in> set ncals \<longleftrightarrow> (\<exists>l \<in> set ls. L \<in> set l)" using ls(2) by simp
  also have "\<dots> \<longleftrightarrow> (\<exists>I \<in> set (insts_of m F [Load]). \<exists>l. f I = Inr l \<and> L \<in> set l)"
    unfolding Bex_def map_res_set[OF ls(1)] by blast
  finally show "L \<in> set ncals \<longleftrightarrow> L \<in> set (insts_of m F [Load]) \<and> CAA (getPointerOperand (ins m L)) = Inr False"
    unfolding f by auto
  show "sorted ncals" using ls(2) by simp
qed

lemma st_rf_set:
  assumes "st_rfs opt AA m CAA F = Inr rfs" "S \<in> set (insts_of m F [Store])"
  shows "L \<in> set (rf rfs S) \<longleftrightarrow> L \<in> set (insts_of m F [Load]) \<and> CAA (getPointerOperand (ins m L)) = Inr True \<and>
    isDefinitelyNoAlias opt (AA (getPointerOperand (ins m S)) (getPointerOperand (ins m L))) = Inr False"
proof -
  have "map_of rfs S = Some ls \<Longrightarrow> st_loads_from opt AA m CAA F S = Inr ls" for ls
    using assms(1) unfolding st_rfs_def by (auto simp: map_res_set bindr_eq_Inr dest!: map_of_SomeD)
  moreover have "S \<in> fst ` set rfs"
  proof -
    have "list_all2 (\<lambda>x y. bindr (st_loads_from opt AA m CAA F x) (\<lambda>ls. Inr (x, ls)) = Inr y) (insts_of m F [Store]) rfs"
      using assms(1) unfolding st_rfs_def by (rule map_res_InrD)
    then have "map fst rfs = insts_of m F [Store]"
      by (induction rule: list_all2_induct) (auto simp: bindr_eq_Inr)
    then show ?thesis using assms(2) by (metis set_map)
  qed
  ultimately obtain ls where ls: "rf rfs S = ls" "st_loads_from opt AA m CAA F S = Inr ls"
    by (cases "map_of rfs S") (auto simp: rf_def map_of_eq_None_iff)
  define f where "f = (\<lambda>LI. bindr (CAA (getPointerOperand (ins m LI))) (\<lambda>ca.
         if ca then bindr (isDefinitelyNoAlias opt
             (AA (getPointerOperand (ins m S)) (getPointerOperand (ins m LI)))) (\<lambda>no_alias.
           Inr (if no_alias then [] else [LI]))
         else Inr []))"
  from ls(2) obtain lss where lss: "map_res f (insts_of m F [Load]) = Inr lss" "ls = os_of (concat lss)"
    unfolding st_loads_from_def f_def[symmetric] by (auto simp: bindr_eq_Inr)
  have f: "f I = Inr l \<and> L \<in> set l \<longleftrightarrow> I = L \<and> l = [L] \<and> CAA (getPointerOperand (ins m L)) = Inr True \<and>
    isDefinitelyNoAlias opt (AA (getPointerOperand (ins m S)) (getPointerOperand (ins m L))) = Inr False" for I l
    by (cases "CAA (getPointerOperand (ins m I))";
        cases "isDefinitelyNoAlias opt (AA (getPointerOperand (ins m S)) (getPointerOperand (ins m I)))")
       (auto simp: f_def)
  have "L \<in> set ls \<longleftrightarrow> (\<exists>l \<in> set lss. L \<in> set l)" using lss(2) by simp
  also have "\<dots> \<longleftrightarrow> (\<exists>I \<in> set (insts_of m F [Load]). \<exists>l. f I = Inr l \<and> L \<in> set l)"
    unfolding Bex_def map_res_set[OF lss(1)] by blast
  finally show ?thesis unfolding ls(1) f by auto
qed

lemma length_takeWhile_lt: "x \<in> set xs \<Longrightarrow> \<not> P x \<Longrightarrow> length (takeWhile P xs) < length xs"
  by (induction xs) auto

text \<open>The binary search finds every NCAL.\<close>

lemma ncal_to_idx_law:
  assumes "sorted ncals" "L \<in> set ncals"
  shows "\<exists>i. ncal_to_idx ncals L = Inr i \<and> i < length ncals \<and> ncals ! i = L"
proof -
  define i where "i = length (takeWhile (\<lambda>x. x < L) ncals)"
  have i: "i < length ncals"
    unfolding i_def by (rule length_takeWhile_lt[OF assms(2)]) simp
  then have ge: "\<not> ncals ! i < L" unfolding i_def by (rule nth_length_takeWhile)
  from assms(2) obtain j where j: "j < length ncals" "ncals ! j = L" by (auto simp: in_set_conv_nth)
  have "i \<le> j"
  proof (rule ccontr)
    assume "\<not> i \<le> j"
    then have "j < length (takeWhile (\<lambda>x. x < L) ncals)" by (simp add: i_def)
    then have "takeWhile (\<lambda>x. x < L) ncals ! j < L" "takeWhile (\<lambda>x. x < L) ncals ! j = ncals ! j"
      using nth_mem set_takeWhileD takeWhile_nth by metis+
    with j(2) show False by simp
  qed
  with assms(1) j have "ncals ! i \<le> L" by (auto simp: sorted_iff_nth_mono)
  with ge i show ?thesis by (auto simp: ncal_to_idx_def Let_def i_def)
qed

lemma ncal_to_idx_eq: "ncal_to_idx ncals L = Inr i \<Longrightarrow> i < length ncals \<and> ncals ! i = L"
  by (auto simp: ncal_to_idx_def Let_def)

subsection \<open>One step\<close>

text \<open>\<open>st_add\<close> is what a step adds when the gate of the stores is ignored.\<close>

definition st_add :: "ir_module \<Rightarrow> (nat \<Rightarrow> bool res) \<Rightarrow> nat list \<Rightarrow> (nat \<times> nat list) list \<Rightarrow> nat \<Rightarrow>
    taint_map \<Rightarrow> taint_map" where
  "st_add m CAA ncals rfs I T =
     (if isa m I [Load] then
        (if CAA (getPointerOperand (ins m I)) = Inr False then {(I, k) | k. ncal_to_idx ncals I = Inr k} else {})
      else if isa m I [Store] then
        (if is_inst m (opnd (ins m I) 0) then set (rf rfs I) \<times> (T `` {opnd (ins m I) 0}) else {})
      else case intrinsic_id m I of
          Some k \<Rightarrow>
            if \<not> is_void m I \<and> \<not> assume_like (ins m I) then
              (if k \<in> set st_passthrough then
                 {I} \<times> \<Union> ((\<lambda>v. T `` {v}) ` set (filter (is_inst m) (call_args (ins m I))))
               else {I} \<times> \<Union> ((\<lambda>v. T `` {v}) ` set (filter (is_inst m) [opnd (ins m I) 0])))
            else {}
        | None \<Rightarrow>
            if isa m I CallBase \<or> is_void m I then {}
            else {I} \<times> \<Union> ((\<lambda>v. T `` {v}) ` set (filter (is_inst m) (operands (ins m I)))))"

lemma st_inst_cases:
  assumes "st_inst m CAA ncals rfs bak I T = Inr T'"
  shows "T' = T \<union> st_add m CAA ncals rfs I T \<or>
    T' = T \<and> isa m I [Store] \<and> is_inst m (opnd (ins m I) 0) \<and> T `` {opnd (ins m I) 0} = bak `` {opnd (ins m I) 0}"
proof -
  consider (load) "isa m I [Load]" | (store) "\<not> isa m I [Load]" "isa m I [Store]"
    | (int) k where "\<not> isa m I [Load]" "\<not> isa m I [Store]" "intrinsic_id m I = Some k"
    | (plain) "\<not> isa m I [Load]" "\<not> isa m I [Store]" "intrinsic_id m I = None"
    by (cases "intrinsic_id m I") auto
  then show ?thesis
  proof cases
    case load
    with assms show ?thesis
      by (cases "CAA (getPointerOperand (ins m I))")
         (auto simp: st_inst_def st_add_def bindr_eq_Inr split: if_splits)
  next
    case store
    with assms show ?thesis by (auto simp: st_inst_def st_add_def Let_def split: if_splits)
  next
    case (int k)
    with assms show ?thesis
      by (cases "\<not> is_void m I \<and> \<not> assume_like (ins m I)"; cases "k \<in> set st_passthrough"; cases "k = In_annotation")
         (auto simp add: st_inst_def st_add_def Let_def st_intrinsic_def st_join_def)
  next
    case plain
    with assms show ?thesis
      by (simp add: st_inst_def st_add_def Let_def st_join_def split: if_splits)
  qed
qed

lemma st_inst_grows: "st_inst m CAA ncals rfs bak I T = Inr T' \<Longrightarrow> T \<subseteq> T'"
  by (drule st_inst_cases) auto

lemma st_round_grows: "st_round m CAA F ncals rfs T = Inr T' \<Longrightarrow> T \<subseteq> T'"
  unfolding st_round_def by (rule foldr_res_grows[where key = "\<lambda>x. x"]) (assumption, rule st_inst_grows)

text \<open>\<open>st_flow\<close> over indices.\<close>

definition idx_flow :: "nat list \<Rightarrow> taint_map \<Rightarrow> taint_map" where
  "idx_flow ncals R = {(I, k). k < length ncals \<and> (I, ncals ! k) \<in> R}"

lemma st_add_sound:
  assumes "st_ncals m CAA F = Inr ncals" "st_rfs opt AA m CAA F = Inr rfs" "I \<in> set (insts F)"
    "T \<subseteq> idx_flow ncals (st_flow opt AA m CAA F)"
  shows "st_add m CAA ncals rfs I T \<subseteq> idx_flow ncals (st_flow opt AA m CAA F) \<or> \<not> (\<exists>bak T'. st_inst m CAA ncals rfs bak I T = Inr T')"
proof (cases "\<exists>bak T'. st_inst m CAA ncals rfs bak I T = Inr T'")
  case True
  then obtain bak T' where run: "st_inst m CAA ncals rfs bak I T = Inr T'" by blast
  have img: "l \<in> T `` {v} \<Longrightarrow> l < length ncals \<and> (v, ncals ! l) \<in> st_flow opt AA m CAA F" for v l
    using assms(4) by (auto simp: idx_flow_def)
  have "(J, k) \<in> idx_flow ncals (st_flow opt AA m CAA F)" if J: "(J, k) \<in> st_add m CAA ncals rfs I T" for J k
  proof -
    consider (load) "isa m I [Load]" | (store) "isa m I [Store]" "\<not> isa m I [Load]"
      | (int) i where "\<not> isa m I [Load]" "\<not> isa m I [Store]" "intrinsic_id m I = Some i"
      | (plain) "\<not> isa m I [Load]" "\<not> isa m I [Store]" "intrinsic_id m I = None"
      by (cases "intrinsic_id m I") auto
    then show ?thesis
    proof cases
      case load
      with J have "J = I" "CAA (getPointerOperand (ins m I)) = Inr False" "ncal_to_idx ncals I = Inr k"
        by (auto simp: st_add_def split: if_splits)
      with ncal_to_idx_eq[of ncals I k] load assms(3) st_flow.ncal[of I m F CAA opt AA]
      show ?thesis by (auto simp: idx_flow_def insts_of_in)
    next
      case store
      with J have v: "is_inst m (opnd (ins m I) 0)" "J \<in> set (rf rfs I)" "k \<in> T `` {opnd (ins m I) 0}"
        by (auto simp: st_add_def split: if_splits)
      have S: "I \<in> set (insts_of m F [Store])" using store assms(3) by (simp add: insts_of_in)
      from v(2) st_rf_set[OF assms(2) S] img[OF v(3)] st_flow.store[OF S v(1)]
      show ?thesis by (auto simp: idx_flow_def)
    next
      case (int i)
      have ann: "i \<in> set st_passthrough \<or> i = In_annotation" if "\<not> is_void m I" "\<not> assume_like (ins m I)"
        using run int that by (auto simp: st_inst_def st_intrinsic_def Let_def split: if_splits)
      from J int ann obtain v where v: "J = I" "\<not> is_void m I" "\<not> assume_like (ins m I)" "is_inst m v" "k \<in> T `` {v}"
        "i \<in> set st_passthrough \<and> v \<in> set (call_args (ins m I)) \<or> i = In_annotation \<and> v = opnd (ins m I) 0"
        by (auto simp: st_add_def split: if_splits)
      from img[OF v(5)] v(6) st_flow.intrinsic[OF assms(3) int(3) v(2,3) _ _ v(4)]
        st_flow.annotation[OF assms(3) _ v(2,3)] v(1,4) int(3)
      show ?thesis by (auto simp: idx_flow_def)
    next
      case plain
      with J obtain v where v: "J = I" "v \<in> set (operands (ins m I))" "is_inst m v" "k \<in> T `` {v}" "st_plain m I"
        by (auto simp: st_add_def st_plain_def isa_def split: if_splits)
      from img[OF v(4)] st_flow.operand[OF assms(3) v(5,2,3)] v(1) show ?thesis by (auto simp: idx_flow_def)
    qed
  qed
  then show ?thesis by auto
qed blast

subsection \<open>The loop\<close>

definition st_inv :: "options \<Rightarrow> (nat \<Rightarrow> nat \<Rightarrow> alias_result) \<Rightarrow> ir_module \<Rightarrow> (nat \<Rightarrow> bool res) \<Rightarrow> func \<Rightarrow>
    nat list \<Rightarrow> (nat \<times> nat list) list \<Rightarrow> taint_map \<Rightarrow> bool" where
  "st_inv opt AA m CAA F ncals rfs T \<longleftrightarrow> st_ncals m CAA F = Inr ncals \<and> st_rfs opt AA m CAA F = Inr rfs \<and>
     T \<subseteq> idx_flow ncals (st_flow opt AA m CAA F)"

lemma st_flow_insts: "(I, l) \<in> st_flow opt AA m CAA F \<Longrightarrow> I \<in> set (insts F)"
  by (cases rule: st_flow.cases) (auto simp: insts_of_in)

lemma st_round_inv:
  assumes "st_inv opt AA m CAA F ncals rfs T" "st_round m CAA F ncals rfs T = Inr T'"
  shows "st_inv opt AA m CAA F ncals rfs T'"
proof -
  note tab = assms(1)[unfolded st_inv_def]
  have "T' \<subseteq> idx_flow ncals (st_flow opt AA m CAA F)"
  proof (rule foldr_res_inv[OF assms(2)[unfolded st_round_def], of "\<lambda>X. X \<subseteq> idx_flow ncals (st_flow opt AA m CAA F)"])
    show "T \<subseteq> idx_flow ncals (st_flow opt AA m CAA F)" using tab by blast
    fix I X X' assume I: "I \<in> set (insts F)" and X: "X \<subseteq> idx_flow ncals (st_flow opt AA m CAA F)"
      and run: "st_inst m CAA ncals rfs T I X = Inr X'"
    have "st_add m CAA ncals rfs I X \<subseteq> idx_flow ncals (st_flow opt AA m CAA F)"
      using st_add_sound[of m CAA F ncals opt AA rfs I X] tab I X run by blast
    with st_inst_cases[OF run] X show "X' \<subseteq> idx_flow ncals (st_flow opt AA m CAA F)" by blast
  qed
  with tab show ?thesis by (simp add: st_inv_def)
qed

interpretation st: growing_loop "\<lambda>T. T" "st_round m CAA F ncals rfs" "st_inv opt AA m CAA F ncals rfs"
    "set (insts F) \<times> {..<length ncals}"
  for opt AA m CAA F ncals rfs
proof
  fix T assume "st_inv opt AA m CAA F ncals rfs T"
  then show "T \<subseteq> set (insts F) \<times> {..<length ncals}"
    by (auto simp: st_inv_def idx_flow_def dest!: subsetD dest: st_flow_insts)
qed (use st_round_inv st_round_grows in auto)

text \<open>A stable round has applied every rule but that of the stores.\<close>

lemma st_stable_add:
  assumes "st_round m CAA F ncals rfs T = Inr T" "I \<in> set (insts F)" "\<not> isa m I [Store]"
  shows "st_add m CAA ncals rfs I T \<subseteq> T"
proof -
  have "\<exists>s1 s2. st_inst m CAA ncals rfs T I s1 = Inr s2 \<and> s1 = T \<and> s2 = T"
    by (rule foldr_res_stable[OF assms(1)[unfolded st_round_def] refl st_inst_grows assms(2)])
  then have "st_inst m CAA ncals rfs T I T = Inr T" by blast
  from st_inst_cases[OF this] assms(3) show ?thesis by blast
qed

text \<open>The stored values the gate treats correctly.\<close>

definition st_ordered :: "ir_module \<Rightarrow> (nat \<Rightarrow> bool res) \<Rightarrow> func \<Rightarrow> bool" where
  "st_ordered m CAA F \<longleftrightarrow> distinct (insts F) \<and> (\<forall>S \<in> set (insts_of m F [Store]). is_inst m (opnd (ins m S) 0) \<longrightarrow>
     (\<exists>pre post. insts F = pre @ S # post \<and> opnd (ins m S) 0 \<in> set pre) \<and>
     \<not> (isa m (opnd (ins m S) 0) [Load] \<and> CAA (getPointerOperand (ins m (opnd (ins m S) 0))) = Inr True))"

definition st_stores_done :: "ir_module \<Rightarrow> func \<Rightarrow> (nat \<times> nat list) list \<Rightarrow> taint_map \<Rightarrow> bool" where
  "st_stores_done m F rfs T \<longleftrightarrow> (\<forall>S \<in> set (insts_of m F [Store]). is_inst m (opnd (ins m S) 0) \<longrightarrow>
     (\<forall>L \<in> set (rf rfs S). T `` {opnd (ins m S) 0} \<subseteq> T `` {L}))"

lemma st_inst_other:
  assumes "st_inst m CAA ncals rfs bak I T = Inr T'" "I \<noteq> v" "\<forall>S \<in> set (insts_of m F [Store]). v \<notin> set (rf rfs S)"
    "I \<in> set (insts F)"
  shows "T' `` {v} = T `` {v}"
proof -
  have "(v, k) \<notin> st_add m CAA ncals rfs I T" for k
    using assms(2-4) by (auto simp: st_add_def insts_of_in split: if_splits option.splits)
  with st_inst_cases[OF assms(1)] show ?thesis by auto
qed

lemma st_fold_other:
  assumes "foldr_res (st_inst m CAA ncals rfs bak) Is T = Inr T'" "v \<notin> set Is" "set Is \<subseteq> set (insts F)"
    "\<forall>S \<in> set (insts_of m F [Store]). v \<notin> set (rf rfs S)"
  shows "T' `` {v} = T `` {v}"
proof (rule foldr_res_inv[OF assms(1), of "\<lambda>X. X `` {v} = T `` {v}", OF refl])
  fix I X X' assume I: "I \<in> set Is" "X `` {v} = T `` {v}" "st_inst m CAA ncals rfs bak I X = Inr X'"
  then have "I \<noteq> v" "I \<in> set (insts F)" using assms(2,3) by auto
  from st_inst_other[OF I(3) this(1) assms(4) this(2)] I(2) show "X' `` {v} = T `` {v}" by simp
qed

lemma st_stores_done_round:
  assumes "st_ordered m CAA F" "st_inv opt AA m CAA F ncals rfs T" "st_stores_done m F rfs T"
    "st_round m CAA F ncals rfs T = Inr T'"
  shows "st_stores_done m F rfs T'"
  unfolding st_stores_done_def
proof (intro ballI impI)
  fix S L assume S: "S \<in> set (insts_of m F [Store])" and v: "is_inst m (opnd (ins m S) 0)" and L: "L \<in> set (rf rfs S)"
  define v where "v = opnd (ins m S) 0"
  note S' = S[unfolded insts_of_in]
  from assms(1) S v obtain pre post where split: "insts F = pre @ S # post" "v \<in> set pre"
    and nl: "\<not> (isa m v [Load] \<and> CAA (getPointerOperand (ins m v)) = Inr True)" and d: "distinct (insts F)"
    unfolding st_ordered_def v_def by blast
  have nrf: "\<forall>S \<in> set (insts_of m F [Store]). v \<notin> set (rf rfs S)"
    using st_rf_set[of opt AA m CAA F rfs] assms(2) nl by (auto simp: st_inv_def insts_of_in)
  have vS: "v \<noteq> S" "v \<notin> set post" using split d by auto
  from assms(4) split obtain T1 T2 where run: "foldr_res (st_inst m CAA ncals rfs T) pre T = Inr T1"
    "st_inst m CAA ncals rfs T S T1 = Inr T2" "foldr_res (st_inst m CAA ncals rfs T) post T2 = Inr T'"
    by (auto simp: st_round_def foldr_res_append bindr_eq_Inr)
  have g1: "T \<subseteq> T1" by (rule foldr_res_grows[OF run(1), of "\<lambda>x. x"]) (rule st_inst_grows)
  have g2: "T1 \<subseteq> T2" using run(2) by (rule st_inst_grows)
  have g3: "T2 \<subseteq> T'" by (rule foldr_res_grows[OF run(3), of "\<lambda>x. x"]) (rule st_inst_grows)
  have T2: "T2 `` {v} = T1 `` {v}" using st_inst_other[OF run(2) _ nrf] vS S' by auto
  have T': "T' `` {v} = T2 `` {v}" by (rule st_fold_other[OF run(3) vS(2) _ nrf]) (use split in auto)
  have "T1 `` {v} \<subseteq> T2 `` {L}"
  proof (cases "T2 = T1 \<union> st_add m CAA ncals rfs S T1")
    case True
    have "\<not> isa m S [Load]" using S' by (auto simp: isa_def)
    with S' v L have "{L} \<times> (T1 `` {v}) \<subseteq> st_add m CAA ncals rfs S T1" by (auto simp: st_add_def v_def)
    with True show ?thesis by auto
  next
    case False
    with st_inst_cases[OF run(2)] have "T1 `` {v} = T `` {v}" by (auto simp: v_def)
    also have "T `` {v} \<subseteq> T `` {L}" using assms(3) S v L unfolding st_stores_done_def v_def by blast
    finally show ?thesis using g1 g2 by blast
  qed
  with T' T2 g3 show "T' `` {opnd (ins m S) 0} \<subseteq> T' `` {L}" unfolding v_def by blast
qed

lemma st_closed:
  assumes "st_inv opt AA m CAA F ncals rfs T" "st_round m CAA F ncals rfs T = Inr T" "st_stores_done m F rfs T"
    "(I, l) \<in> st_flow opt AA m CAA F"
  shows "\<exists>k. k < length ncals \<and> ncals ! k = l \<and> (I, k) \<in> T"
  using assms(4)
proof (induction rule: st_flow.induct)
  case (ncal I)
  then have "I \<in> set ncals" "sorted ncals"
    using st_ncals_set[of m CAA F ncals] assms(1) by (auto simp: st_inv_def)
  from ncal_to_idx_law[OF this(2,1)] obtain k where
    k: "ncal_to_idx ncals I = Inr k" "k < length ncals" "ncals ! k = I" by blast
  have "\<not> isa m I [Store]" using ncal(1) by (auto simp: insts_of_in isa_def)
  from st_stable_add[OF assms(2) _ this] ncal k show ?case
    by (auto simp: st_add_def insts_of_in)
next
  case (store S L l)
  then have "L \<in> set (rf rfs S)" using st_rf_set[of opt AA m CAA F rfs S L] assms(1) by (auto simp: st_inv_def)
  with store assms(3) show ?case unfolding st_stores_done_def by blast
next
  case (intrinsic I i v l)
  then obtain k where k: "k < length ncals" "ncals ! k = l" "(v, k) \<in> T" by blast
  have n: "\<not> isa m I [Store]" "\<not> isa m I [Load]" using intrinsic_id_isa[OF intrinsic(2)] by (auto simp: isa_def)
  with intrinsic k have "(I, k) \<in> st_add m CAA ncals rfs I T" by (auto simp: st_add_def)
  with st_stable_add[OF assms(2) intrinsic(1) n(1)] k show ?case by blast
next
  case (annotation I l)
  then obtain k where k: "k < length ncals" "ncals ! k = l" "(opnd (ins m I) 0, k) \<in> T" by blast
  have n: "\<not> isa m I [Store]" "\<not> isa m I [Load]" using intrinsic_id_isa[OF annotation(2)] by (auto simp: isa_def)
  have "In_annotation \<notin> set st_passthrough" by (simp add: st_passthrough_def)
  with n annotation k have "(I, k) \<in> st_add m CAA ncals rfs I T" by (auto simp: st_add_def)
  with st_stable_add[OF assms(2) annotation(1) n(1)] k show ?case by blast
next
  case (operand I v l)
  then obtain k where k: "k < length ncals" "ncals ! k = l" "(v, k) \<in> T" by blast
  have n: "\<not> isa m I [Store]" "\<not> isa m I [Load]" "\<not> isa m I CallBase" "\<not> is_void m I"
    using operand(2) by (auto simp: st_plain_def isa_def)
  then have "intrinsic_id m I = None" by (auto simp: intrinsic_id_def isa_def)
  with n operand k have "(I, k) \<in> st_add m CAA ncals rfs I T" by (auto simp: st_add_def)
  with st_stable_add[OF assms(2) operand(1) n(1)] k show ?case by blast
qed

lemma st_runE:
  assumes "st_runOnFunction opt AA m CAA F = Some (Inr R)"
  obtains ncals rfs T where "st_inv opt AA m CAA F ncals rfs {}"
    "until_stable (\<lambda>T. T) (st_round m CAA F ncals rfs) {} = Some (Inr T)"
    "st_inv opt AA m CAA F ncals rfs T" "st_round m CAA F ncals rfs T = Inr T"
    "R = (\<lambda>p. (fst p, ncals ! snd p)) ` T"
proof -
  from assms obtain ncals rfs T where t: "st_ncals m CAA F = Inr ncals" "st_rfs opt AA m CAA F = Inr rfs"
    "until_stable (\<lambda>T. T) (st_round m CAA F ncals rfs) {} = Some (Inr T)" "R = (\<lambda>p. (fst p, ncals ! snd p)) ` T"
    by (auto simp: st_runOnFunction_def bindo_eq_Inr st_convert_def)
  have i: "st_inv opt AA m CAA F ncals rfs {}" using t(1,2) by (simp add: st_inv_def)
  from st.result[OF i t(3)] that[OF i t(3) _ _ t(4)] show ?thesis by auto
qed

lemma st_sound:
  assumes "st_runOnFunction opt AA m CAA F = Some (Inr R)"
  shows "R \<subseteq> st_flow opt AA m CAA F"
  using assms by (elim st_runE) (auto simp: st_inv_def idx_flow_def dest!: subsetD)

lemma st_exact:
  assumes "st_runOnFunction opt AA m CAA F = Some (Inr R)" "st_ordered m CAA F"
  shows "R = st_flow opt AA m CAA F"
proof
  show "R \<subseteq> st_flow opt AA m CAA F" by (rule st_sound[OF assms(1)])
  from assms(1) obtain ncals rfs T where i: "st_inv opt AA m CAA F ncals rfs {}"
    "until_stable (\<lambda>T. T) (st_round m CAA F ncals rfs) {} = Some (Inr T)"
    and T: "st_inv opt AA m CAA F ncals rfs T" "st_round m CAA F ncals rfs T = Inr T"
    and R: "R = (\<lambda>p. (fst p, ncals ! snd p)) ` T" by (rule st_runE)
  have "st_stores_done m F rfs T"
    by (rule st.result_preserves[where P = "st_stores_done m F rfs", OF i])
       (auto simp: st_stores_done_def[of _ _ _ "{}"] intro: st_stores_done_round[OF assms(2)])
  from st_closed[OF T this] show "st_flow opt AA m CAA F \<subseteq> R" unfolding R by force
qed

text \<open>The conversion back to loads never fails, and the loop always ends.\<close>

lemma st_returns:
  shows "\<exists>r. st_runOnFunction opt AA m CAA F = Some r"
proof (cases "st_ncals m CAA F")
  case ncals: (Inr ncals)
  show ?thesis
  proof (cases "st_rfs opt AA m CAA F")
    case (Inr rfs)
    with ncals have "st_inv opt AA m CAA F ncals rfs {}" by (simp add: st_inv_def)
    from st.returns[OF this] obtain r where
      "until_stable (\<lambda>T. T) (st_round m CAA F ncals rfs) {} = Some r" by blast
    with ncals Inr show ?thesis by (cases r) (auto simp: st_runOnFunction_def)
  qed (simp add: ncals st_runOnFunction_def)
qed (simp add: st_runOnFunction_def)

end
