(* ===== verification/LeakAnalysis.thy ===== *)
theory LeakAnalysis
  imports NonspeculativeTaint
begin

text \<open>
  \<open>src/analysis/LeakAnalysis.cc\<close>: the values that may leak, backwards from the transmitter
  operands. The loop iterates over the set \<open>leaks\<close> while it inserts into it: the elements come in
  increasing order of address, and what is inserted behind the current element is visited in this
  pass, what is inserted before it in the next. \<open>leak_pass\<close> therefore goes through the addresses
  in order and visits those that are leaked when it gets there. \<open>may_leak\<close> states the rules of the
  analysis and \<open>leak_exact\<close> that the loop computes the least set closed under them.
\<close>

subsection \<open>The analysis\<close>

definition leak_passthrough :: "intrinsic list" where
  "leak_passthrough =
     [vector_reduce ReduceAnd, vector_reduce ReduceAdd, vector_reduce ReduceOr, In_fshl, In_ctpop,
      x86 aesni_aeskeygenassist, x86 aesni_aesenc, x86 aesni_aesenclast, In_bswap, x86 pclmulqdq,
      In_umin, In_umax, x86 rdrand_32, In_smax, In_smin, In_umul_with_overflow, In_abs, In_cttz,
      In_usub_sat, In_fmuladd, In_fabs, experimental_constrained FCmp,
      experimental_constrained FMul, experimental_constrained FSub,
      experimental_constrained FCmps, experimental_constrained SIToFP,
      experimental_constrained UIToFP, experimental_constrained FAdd,
      experimental_constrained FPToSI, experimental_constrained FDiv,
      experimental_constrained FPToUI, experimental_constrained FPExt,
      experimental_constrained FFloor, experimental_constrained FCeil, In_bitreverse,
      In_masked_load, In_masked_gather, experimental_constrained FPTrunc,
      experimental_constrained FMulAdd, In_fshr, vector_reduce ReduceMul,
      vector_reduce ReduceUMax, vector_reduce ReduceUMin, vector_reduce ReduceSMax,
      vector_reduce ReduceXor, vector_reduce ReduceSMin, In_eh_typeid_for,
      In_uadd_with_overflow, In_ctlz, experimental_constrained FPowI,
      experimental_constrained FTrunc, experimental_constrained FRound, In_uadd_sat]"

definition isUnordered :: "inst \<Rightarrow> bool" where
  "isUnordered i \<longleftrightarrow> ordering i \<le> 1 \<and> \<not> volatile i"

text \<open>\<open>mayWriteToMemory\<close> of the instructions other than calls, which \<open>computeAliases\<close> skips.\<close>

definition mayWriteToMemory :: "inst \<Rightarrow> bool" where
  "mayWriteToMemory i \<longleftrightarrow> opc i \<in> set [Fence, Store, VAArg, AtomicCmpXchg, AtomicRMW] \<or>
     opc i = Load \<and> \<not> isUnordered i"

definition computeAliases :: "options \<Rightarrow> (nat \<Rightarrow> nat \<Rightarrow> alias_result) \<Rightarrow> ir_module \<Rightarrow> func \<Rightarrow> nat \<Rightarrow> nat list res" where
  "computeAliases opt AA m F load =
     bindr (map_res (\<lambda>S.
         if \<not> mayWriteToMemory (ins m S) then Inr []
         else if isa m S (Fence # CallBase) then Inr []
         else bindr (isDefinitelyNoAlias opt
             (AA (getPointerOperand (ins m load)) (getPointerOperand (ins m S)))) (\<lambda>no_alias.
           Inr (if no_alias then [] else [S]))) (insts F)) (\<lambda>Ss. Inr (os_of (concat Ss)))"

definition leak_store :: "ir_module \<Rightarrow> nat \<Rightarrow> nat set \<Rightarrow> nat set res" where
  "leak_store m S leaks =
     (if isa m S [Load] then assertr (ordering (ins m S) > 0 \<or> volatile (ins m S)) (Inr leaks)
      else bindr (getValueOperands (ins m S)) (\<lambda>vs. Inr (leaks \<union> set vs)))"

abbreviation "leak_forwarding \<equiv> [Cmp, GetElementPtr, PHI, Select, ExtractValue, ExtractElement,
   InsertElement, ShuffleVector, Freeze, InsertValue, FNeg] @ BinaryOperator @ CastInst"

definition leak_visit :: "options \<Rightarrow> (nat \<Rightarrow> nat \<Rightarrow> alias_result) \<Rightarrow> ir_module \<Rightarrow> func \<Rightarrow> nat \<Rightarrow>
    nat set \<Rightarrow> nat set res" where
  "leak_visit opt AA m F V leaks =
     (let i = ins m V in
      if \<not> is_inst m V then Inr leaks
      else if isa m V CallBase then
        (case intrinsic_id m V of
           Some k \<Rightarrow>
             if k \<in> set leak_passthrough then Inr (leaks \<union> set (call_args i))
             else if k = In_annotation then Inr (insert (opnd i 0) leaks)
             else Inl Unhandled
         | None \<Rightarrow> Inr (leaks \<union> set (call_args i)))
      else if isa m V [Load, AtomicRMW] then
        bindr (computeAliases opt AA m F V) (\<lambda>stores.
          foldr_res (leak_store m) stores (if isa m V [AtomicRMW] then insert (opnd i 1) leaks else leaks))
      else if isa m V leak_forwarding then Inr (leaks \<union> set (operands i))
      else if isa m V [Alloca, LandingPad] then Inr leaks
      else Inl Unhandled)"

definition leak_pass :: "options \<Rightarrow> (nat \<Rightarrow> nat \<Rightarrow> alias_result) \<Rightarrow> ir_module \<Rightarrow> func \<Rightarrow> nat set \<Rightarrow> nat set res" where
  "leak_pass opt AA m F leaks =
     foldr_res (\<lambda>V leaks. if V \<in> leaks then leak_visit opt AA m F V leaks else Inr leaks)
       [0..<Suc (vbound m)] leaks"

definition leak_init :: "ir_module \<Rightarrow> func \<Rightarrow> nat set res" where
  "leak_init m F = bindr (map_res (get_transmitter_sensitive_operands m) (insts F)) (\<lambda>opss.
     Inr (set (map snd (concat opss))))"

definition leak_runOnFunction :: "options \<Rightarrow> (nat \<Rightarrow> nat \<Rightarrow> alias_result) \<Rightarrow> ir_module \<Rightarrow> func \<Rightarrow> nat set run" where
  "leak_runOnFunction opt AA m F =
     bindo (Some (leak_init m F)) (until_stable (\<lambda>x. x) (leak_pass opt AA m F))"

definition mayLeak :: "nat set \<Rightarrow> nat \<Rightarrow> bool" where
  "mayLeak leaks V = (V \<in> leaks)"

subsection \<open>The rules\<close>

text \<open>What one leaked value makes leak.\<close>

inductive leaks_to :: "options \<Rightarrow> (nat \<Rightarrow> nat \<Rightarrow> alias_result) \<Rightarrow> ir_module \<Rightarrow> func \<Rightarrow> nat \<Rightarrow> nat \<Rightarrow> bool"
  for opt :: options and AA :: "nat \<Rightarrow> nat \<Rightarrow> alias_result" and m :: ir_module and F :: func where
  intrinsic: "isa m V CallBase \<Longrightarrow> intrinsic_id m V = Some k \<Longrightarrow> k \<in> set leak_passthrough \<Longrightarrow>
    v \<in> set (call_args (ins m V)) \<Longrightarrow> leaks_to opt AA m F V v"
| annotation: "isa m V CallBase \<Longrightarrow> intrinsic_id m V = Some In_annotation \<Longrightarrow>
    leaks_to opt AA m F V (opnd (ins m V) 0)"
| extcall: "isa m V CallBase \<Longrightarrow> intrinsic_id m V = None \<Longrightarrow> v \<in> set (call_args (ins m V)) \<Longrightarrow>
    leaks_to opt AA m F V v"
| rmw: "isa m V [AtomicRMW] \<Longrightarrow> leaks_to opt AA m F V (opnd (ins m V) 1)"
| stored: "isa m V [Load, AtomicRMW] \<Longrightarrow> S \<in> set (insts F) \<Longrightarrow> mayWriteToMemory (ins m S) \<Longrightarrow>
    \<not> isa m S ([Fence, Load] @ CallBase) \<Longrightarrow>
    isDefinitelyNoAlias opt (AA (getPointerOperand (ins m V)) (getPointerOperand (ins m S))) = Inr False \<Longrightarrow>
    getValueOperands (ins m S) = Inr vs \<Longrightarrow> v \<in> set vs \<Longrightarrow> leaks_to opt AA m F V v"
| operand: "isa m V leak_forwarding \<Longrightarrow> v \<in> set (operands (ins m V)) \<Longrightarrow> leaks_to opt AA m F V v"

inductive_set may_leak :: "options \<Rightarrow> (nat \<Rightarrow> nat \<Rightarrow> alias_result) \<Rightarrow> ir_module \<Rightarrow> func \<Rightarrow> nat set"
  for opt :: options and AA :: "nat \<Rightarrow> nat \<Rightarrow> alias_result" and m :: ir_module and F :: func where
  transmitted: "I \<in> set (insts F) \<Longrightarrow> get_transmitter_sensitive_operands m I = Inr ops \<Longrightarrow> (t, v) \<in> set ops \<Longrightarrow>
    v \<in> may_leak opt AA m F"
| leaked: "V \<in> may_leak opt AA m F \<Longrightarrow> leaks_to opt AA m F V v \<Longrightarrow> v \<in> may_leak opt AA m F"

inductive_cases leaks_toE: "leaks_to opt AA m F V v"

text \<open>The aliasing stores of a load.\<close>

lemma computeAliases_set:
  assumes "computeAliases opt AA m F V = Inr stores"
  shows "S \<in> set stores \<longleftrightarrow> S \<in> set (insts F) \<and> mayWriteToMemory (ins m S) \<and> \<not> isa m S (Fence # CallBase) \<and>
     isDefinitelyNoAlias opt (AA (getPointerOperand (ins m V)) (getPointerOperand (ins m S))) = Inr False"
proof -
  define f where "f = (\<lambda>S. if \<not> mayWriteToMemory (ins m S) then Inr []
         else if isa m S (Fence # CallBase) then Inr []
         else bindr (isDefinitelyNoAlias opt
             (AA (getPointerOperand (ins m V)) (getPointerOperand (ins m S)))) (\<lambda>no_alias.
           Inr (if no_alias then [] else [S])))"
  from assms obtain Ss where Ss: "map_res f (insts F) = Inr Ss" "stores = os_of (concat Ss)"
    unfolding computeAliases_def f_def[symmetric] by (auto simp: bindr_eq_Inr)
  have "S \<in> set stores \<longleftrightarrow> (\<exists>I \<in> set (insts F). \<exists>l. f I = Inr l \<and> S \<in> set l)"
  proof -
    have "S \<in> set stores \<longleftrightarrow> (\<exists>l \<in> set Ss. S \<in> set l)" using Ss(2) by auto
    also have "\<dots> \<longleftrightarrow> (\<exists>I \<in> set (insts F). \<exists>l. f I = Inr l \<and> S \<in> set l)"
      unfolding Bex_def map_res_set[OF Ss(1)] by blast
    finally show ?thesis .
  qed
  also have "\<dots> \<longleftrightarrow> S \<in> set (insts F) \<and> f S = Inr [S]"
  proof -
    have "l = [] \<or> l = [I]" if "f I = Inr l" for I l
      using that by (auto simp: f_def bindr_eq_Inr split: if_splits)
    then have "f I = Inr l \<and> S \<in> set l \<longleftrightarrow> I = S \<and> l = [S] \<and> f S = Inr [S]" for I l by fastforce
    then show ?thesis by auto
  qed
  also have "f S = Inr [S] \<longleftrightarrow> mayWriteToMemory (ins m S) \<and> \<not> isa m S (Fence # CallBase) \<and>
     isDefinitelyNoAlias opt (AA (getPointerOperand (ins m V)) (getPointerOperand (ins m S))) = Inr False"
    by (cases "isDefinitelyNoAlias opt (AA (getPointerOperand (ins m V)) (getPointerOperand (ins m S)))")
       (simp_all add: f_def)
  finally show ?thesis .
qed

lemma leak_stores:
  assumes "foldr_res (leak_store m) Ss leaks = Inr leaks'"
  shows "leaks' = leaks \<union> {v. \<exists>S \<in> set Ss. \<not> isa m S [Load] \<and> (\<exists>vs. getValueOperands (ins m S) = Inr vs \<and> v \<in> set vs)}"
  using assms
proof (induction Ss arbitrary: leaks)
  case (Cons S Ss)
  from Cons.prems obtain l1 where "leak_store m S leaks = Inr l1" "foldr_res (leak_store m) Ss l1 = Inr leaks'"
    by (auto simp: bindr_eq_Inr)
  with Cons.IH[OF this(2)] show ?case
    by (auto simp: leak_store_def bindr_eq_Inr split: if_splits)
qed simp

text \<open>A visit adds exactly what the value leaks to.\<close>

lemma leak_visit_exact:
  assumes "leak_visit opt AA m F V leaks = Inr leaks'"
  shows "leaks' = leaks \<union> {v. leaks_to opt AA m F V v}"
proof -
  have "v \<in> leaks' \<longleftrightarrow> v \<in> leaks \<or> leaks_to opt AA m F V v" for v
  proof -
    consider "\<not> is_inst m V" | "isa m V CallBase" | "isa m V [Load, AtomicRMW]" | "isa m V leak_forwarding"
      | "isa m V [Alloca, LandingPad]"
      using assms by (fastforce simp: leak_visit_def Let_def split: if_splits)
    then show ?thesis
    proof cases
      case 1
      with assms have "leaks' = leaks" by (simp add: leak_visit_def)
      with 1 show ?thesis by (auto elim!: leaks_toE dest: isa_inst)
    next
      case 2
      then have n: "\<not> isa m V [Load, AtomicRMW]" "\<not> isa m V [AtomicRMW]" "\<not> isa m V leak_forwarding" "is_inst m V"
        by (auto simp: isa_def)
      show ?thesis
      proof (cases "intrinsic_id m V")
        case None
        with assms 2 n have "leaks' = leaks \<union> set (call_args (ins m V))" by (simp add: leak_visit_def Let_def)
        with None 2 n show ?thesis by (auto elim!: leaks_toE intro: leaks_to.extcall)
      next
        case (Some k)
        show ?thesis
        proof (cases "k \<in> set leak_passthrough")
          case True
          then have "k \<noteq> In_annotation" by (auto simp: leak_passthrough_def)
          moreover have "leaks' = leaks \<union> set (call_args (ins m V))"
            using assms 2 n Some True by (simp add: leak_visit_def Let_def)
          ultimately show ?thesis
            using Some 2 n True by (auto elim!: leaks_toE intro: leaks_to.intrinsic)
        next
          case False
          with assms 2 n Some have "k = In_annotation" "leaks' = insert (opnd (ins m V) 0) leaks"
            by (auto simp: leak_visit_def Let_def split: if_splits)
          with Some 2 n False show ?thesis by (auto elim!: leaks_toE intro: leaks_to.annotation)
        qed
      qed
    next
      case 3
      then have n: "\<not> isa m V CallBase" "\<not> isa m V leak_forwarding" "is_inst m V" by (auto simp: isa_def)
      define l0 where "l0 = (if isa m V [AtomicRMW] then insert (opnd (ins m V) 1) leaks else leaks)"
      from assms 3 n obtain stores where st: "computeAliases opt AA m F V = Inr stores"
        "foldr_res (leak_store m) stores l0 = Inr leaks'"
        by (auto simp: leak_visit_def Let_def bindr_eq_Inr l0_def)
      have "(\<exists>S \<in> set stores. \<not> isa m S [Load] \<and> (\<exists>vs. getValueOperands (ins m S) = Inr vs \<and> v \<in> set vs)) \<longleftrightarrow>
        (\<exists>S vs. S \<in> set (insts F) \<and> mayWriteToMemory (ins m S) \<and> \<not> isa m S ([Fence, Load] @ CallBase) \<and>
          isDefinitelyNoAlias opt (AA (getPointerOperand (ins m V)) (getPointerOperand (ins m S))) = Inr False \<and>
          getValueOperands (ins m S) = Inr vs \<and> v \<in> set vs)"
        unfolding Bex_def computeAliases_set[OF st(1)] by (auto simp: isa_def)
      moreover have "leaks_to opt AA m F V v \<longleftrightarrow> (isa m V [AtomicRMW] \<and> v = opnd (ins m V) 1) \<or>
        (\<exists>S vs. S \<in> set (insts F) \<and> mayWriteToMemory (ins m S) \<and> \<not> isa m S ([Fence, Load] @ CallBase) \<and>
          isDefinitelyNoAlias opt (AA (getPointerOperand (ins m V)) (getPointerOperand (ins m S))) = Inr False \<and>
          getValueOperands (ins m S) = Inr vs \<and> v \<in> set vs)"
      proof
        assume "leaks_to opt AA m F V v"
        then show "(isa m V [AtomicRMW] \<and> v = opnd (ins m V) 1) \<or>
          (\<exists>S vs. S \<in> set (insts F) \<and> mayWriteToMemory (ins m S) \<and> \<not> isa m S ([Fence, Load] @ CallBase) \<and>
            isDefinitelyNoAlias opt (AA (getPointerOperand (ins m V)) (getPointerOperand (ins m S))) = Inr False \<and>
            getValueOperands (ins m S) = Inr vs \<and> v \<in> set vs)"
          using n by (cases rule: leaks_to.cases) blast+
      qed (use 3 leaks_to.rmw leaks_to.stored in blast)
      ultimately show ?thesis using leak_stores[OF st(2)] by (auto simp: l0_def)
    next
      case 4
      then have n: "\<not> isa m V CallBase" "\<not> isa m V [Load, AtomicRMW]" "\<not> isa m V [AtomicRMW]" "is_inst m V"
        by (auto simp: isa_def)
      with assms 4 have "leaks' = leaks \<union> set (operands (ins m V))" by (simp add: leak_visit_def Let_def)
      with 4 n show ?thesis by (auto elim!: leaks_toE intro: leaks_to.operand)
    next
      case 5
      then have n: "\<not> isa m V CallBase" "\<not> isa m V [Load, AtomicRMW]" "\<not> isa m V [AtomicRMW]"
        "\<not> isa m V leak_forwarding" "is_inst m V"
        by (auto simp: isa_def)
      with assms 5 have "leaks' = leaks" by (simp add: leak_visit_def Let_def)
      with n show ?thesis by (auto elim!: leaks_toE)
    qed
  qed
  then show ?thesis by auto
qed

subsection \<open>The loop computes the rules\<close>

lemma leak_pass_step:
  assumes "(if V \<in> leaks then leak_visit opt AA m F V leaks else Inr leaks) = Inr leaks'"
  shows "leaks' = (if V \<in> leaks then leaks \<union> {v. leaks_to opt AA m F V v} else leaks)"
  using assms leak_visit_exact[of opt AA m F V leaks leaks'] by (auto split: if_splits)

lemma leak_pass_grows: "leak_pass opt AA m F leaks = Inr leaks' \<Longrightarrow> leaks \<subseteq> leaks'"
  unfolding leak_pass_def
  by (rule foldr_res_grows[where key = "\<lambda>x. x"]) (assumption, drule leak_pass_step, auto)

lemma leak_pass_sound:
  assumes "leak_pass opt AA m F leaks = Inr leaks'" "leaks \<subseteq> may_leak opt AA m F"
  shows "leaks' \<subseteq> may_leak opt AA m F"
  by (rule foldr_res_inv[OF assms(1)[unfolded leak_pass_def], of "\<lambda>X. X \<subseteq> may_leak opt AA m F", OF assms(2)])
     (drule leak_pass_step, auto intro: may_leak.leaked split: if_splits)

lemma leak_pass_stable:
  assumes "leak_pass opt AA m F leaks = Inr leaks" "V \<in> leaks" "V \<le> vbound m" "leaks_to opt AA m F V v"
  shows "v \<in> leaks"
proof -
  have "\<exists>s1 s2. (if V \<in> s1 then leak_visit opt AA m F V s1 else Inr s1) = Inr s2 \<and> s1 = leaks \<and> s2 = leaks"
    by (rule foldr_res_stable[OF assms(1)[unfolded leak_pass_def] refl])
       (drule leak_pass_step, use assms(3) in auto)
  then have "(if V \<in> leaks then leak_visit opt AA m F V leaks else Inr leaks) = Inr leaks" by blast
  from leak_pass_step[OF this] assms(2,4) show ?thesis by auto
qed

lemma leak_init_set:
  assumes "leak_init m F = Inr leaks"
  shows "leaks = {v. \<exists>I \<in> set (insts F). \<exists>ops t. get_transmitter_sensitive_operands m I = Inr ops \<and> (t, v) \<in> set ops}"
proof -
  from assms obtain opss where o: "map_res (get_transmitter_sensitive_operands m) (insts F) = Inr opss"
    "leaks = set (map snd (concat opss))" by (auto simp: leak_init_def bindr_eq_Inr)
  from o(2) have "v \<in> leaks \<longleftrightarrow> v \<in> set (map snd (concat opss))" for v by simp
  then show ?thesis unfolding transmitter_operands_set[OF o(1)] by blast
qed

lemma leaks_to_bounded:
  assumes "fn_ok m F" "leaks_to opt AA m F V v"
  shows "v \<le> vbound m"
proof -
  have op: "u \<in> set (operands (ins m V)) \<Longrightarrow> is_inst m V \<Longrightarrow> u \<le> vbound m" for u
    using assms(1) unfolding fn_ok_def wf_module_def by fastforce
  have opn: "is_inst m V \<Longrightarrow> opnd (ins m V) k \<le> vbound m" for k
    using opnd_in[of "ins m V" k] op by (auto simp: null_def)
  from assms(2) show ?thesis
  proof (cases rule: leaks_to.cases)
    case (stored S vs)
    then have "v = opnd (ins m S) 0 \<or> v = opnd (ins m S) 1 \<or> v = opnd (ins m S) 2"
      by (auto simp: getValueOperands_def split: if_splits)
    with fn_ok_opnd[OF assms(1) stored(2)] show ?thesis by auto
  next
    case (intrinsic k)
    then show ?thesis using call_args_in[of "ins m V"] op isa_inst[of m V] by blast
  next
    case extcall
    then show ?thesis using call_args_in[of "ins m V"] op isa_inst[of m V] by blast
  next
    case operand
    then show ?thesis using op isa_inst[of m V] by blast
  qed (use opn isa_inst[of m V] in auto)
qed

lemma transmitter_bounded:
  assumes "fn_ok m F" "I \<in> set (insts F)" "get_transmitter_sensitive_operands m I = Inr ops" "(t, v) \<in> set ops"
  shows "v \<le> vbound m"
  using get_transmitter_sensitive_operands_in[OF assms(3,4)] fn_ok_operands[OF assms(1,2)]
  by (fastforce simp: null_def)

lemma may_leak_bounded: "v \<in> may_leak opt AA m F \<Longrightarrow> fn_ok m F \<Longrightarrow> v \<le> vbound m"
  by (induction rule: may_leak.induct) (blast intro: transmitter_bounded leaks_to_bounded)+

definition leak_inv :: "options \<Rightarrow> (nat \<Rightarrow> nat \<Rightarrow> alias_result) \<Rightarrow> ir_module \<Rightarrow> func \<Rightarrow> nat set \<Rightarrow> bool" where
  "leak_inv opt AA m F leaks \<longleftrightarrow> fn_ok m F \<and> leaks \<subseteq> may_leak opt AA m F \<and>
     (\<exists>l0. leak_init m F = Inr l0 \<and> l0 \<subseteq> leaks)"

interpretation leak: growing_loop "\<lambda>x. x" "leak_pass opt AA m F" "leak_inv opt AA m F" "{..vbound m}"
  for opt AA m F
proof
  fix s s' assume "leak_inv opt AA m F s" "leak_pass opt AA m F s = Inr s'"
  then show "leak_inv opt AA m F s'" "s \<subseteq> s'"
    using leak_pass_sound[of opt AA m F s s'] leak_pass_grows[of opt AA m F s s']
    unfolding leak_inv_def by auto
next
  fix s assume "leak_inv opt AA m F s"
  then show "s \<subseteq> {..vbound m}" using may_leak_bounded by (fastforce simp: leak_inv_def)
qed simp

lemma leak_inv_init:
  assumes "fn_ok m F" "leak_init m F = Inr l0"
  shows "leak_inv opt AA m F l0"
proof -
  have "l0 \<subseteq> may_leak opt AA m F"
    unfolding leak_init_set[OF assms(2)] by (auto intro: may_leak.transmitted)
  with assms show ?thesis by (auto simp: leak_inv_def)
qed

lemma leak_exact:
  assumes "fn_ok m F" "leak_runOnFunction opt AA m F = Some (Inr leaks)"
  shows "leaks = may_leak opt AA m F"
proof
  from assms(2) obtain l0 where l0: "leak_init m F = Inr l0"
    "until_stable (\<lambda>x. x) (leak_pass opt AA m F) l0 = Some (Inr leaks)"
    by (auto simp: leak_runOnFunction_def bindo_eq_Inr)
  from leak.result[OF leak_inv_init[OF assms(1) l0(1)] l0(2)]
  have st: "leak_inv opt AA m F leaks" "leak_pass opt AA m F leaks = Inr leaks" by auto
  then show "leaks \<subseteq> may_leak opt AA m F" by (simp add: leak_inv_def)
  show "may_leak opt AA m F \<subseteq> leaks"
  proof
    fix v assume "v \<in> may_leak opt AA m F"
    then show "v \<in> leaks"
    proof induction
      case (transmitted I ops t v)
      then have "v \<in> l0" unfolding leak_init_set[OF l0(1)] by blast
      with st(1) l0(1) show ?case by (auto simp: leak_inv_def)
    next
      case (leaked V v)
      with leak_pass_stable[OF st(2)] may_leak_bounded[OF leaked(1) assms(1)] show ?case by blast
    qed
  qed
qed

lemma leak_returns:
  assumes "fn_ok m F"
  shows "\<exists>r. leak_runOnFunction opt AA m F = Some r"
proof (cases "leak_init m F")
  case (Inr l0)
  from leak.returns[OF leak_inv_init[OF assms Inr]] Inr show ?thesis by (simp add: leak_runOnFunction_def)
qed (simp add: leak_runOnFunction_def)

end
