(* ===== verification/MitigateSets.thy ===== *)
theory MitigateSets
  imports MinCutSound SpeculativeTaint LeakAnalysis
begin

text \<open>
  The first half of \<open>MitigatePass::runOnFunction\<close> (\<open>src/MitigatePass.cc\<close>): the sources and sinks
  the pass collects from the results of the analyses, and the waypoint lists it gives to the
  min-cut engine for each enabled kind of leak. A record holds the analysis results; a
  \<open>std::set<Instruction *>\<close> is a sorted list.
\<close>

subsection \<open>Results of the analyses\<close>

record analyses =
  an_pub :: "nat set"
  an_taints :: taint_map
  an_leaks :: "nat set"
  an_ca :: ca_map

definition NST_secret :: "ir_module \<Rightarrow> analyses \<Rightarrow> nat \<Rightarrow> bool" where
  "NST_secret m an V = nst_secret m (an_pub an) V"

definition ST_secret :: "ir_module \<Rightarrow> analyses \<Rightarrow> nat \<Rightarrow> bool res" where
  "ST_secret m an V = st_secret m (an_taints an) V"

definition ST_taints_at :: "func \<Rightarrow> analyses \<Rightarrow> nat \<Rightarrow> nat list" where
  "ST_taints_at F an I = filter (\<lambda>l. (I, l) \<in> an_taints an) (os_of (insts F))"

definition LA_mayLeak :: "analyses \<Rightarrow> nat \<Rightarrow> bool" where
  "LA_mayLeak an V = mayLeak (an_leaks an) V"

definition CAA :: "ir_module \<Rightarrow> analyses \<Rightarrow> nat \<Rightarrow> bool res" where
  "CAA m an V = CAA_isConstantAddress m (an_ca an) V"

text \<open>Conditions that may fail: \<open>&&\<close> and \<open>||\<close> evaluate from the left, \<open>any_of\<close> stops at a hit, and
  \<open>filter_res\<close> is a loop that collects the elements with a property.\<close>

definition and_res :: "bool res \<Rightarrow> bool res \<Rightarrow> bool res" where
  "and_res a b = bindr a (\<lambda>x. if x then b else Inr False)"

definition or_res :: "bool res \<Rightarrow> bool res \<Rightarrow> bool res" where
  "or_res a b = bindr a (\<lambda>x. if x then Inr True else b)"

fun any_res :: "('a \<Rightarrow> bool res) \<Rightarrow> 'a list \<Rightarrow> bool res" where
  "any_res p [] = Inr False"
| "any_res p (x # xs) = or_res (p x) (any_res p xs)"

fun filter_res :: "('a \<Rightarrow> bool res) \<Rightarrow> 'a list \<Rightarrow> 'a list res" where
  "filter_res p [] = Inr []"
| "filter_res p (x # xs) = bindr (p x) (\<lambda>b. bindr (filter_res p xs) (\<lambda>ys. Inr (if b then x # ys else ys)))"

definition not_res :: "bool res \<Rightarrow> bool res" where
  "not_res a = bindr a (\<lambda>x. Inr (\<not> x))"

text \<open>The elements of \<open>get_incoming_loads\<close>, in order of address.\<close>

definition incoming_list :: "ir_module \<Rightarrow> nat \<Rightarrow> nat list res" where
  "incoming_list m V = bindr (get_incoming_loads m V) (\<lambda>S. Inr (sorted_list_of_set S))"

subsection \<open>Loads, stores, transmitters\<close>

definition getPublicLoads :: "ir_module \<Rightarrow> analyses \<Rightarrow> func \<Rightarrow> nat list res" where
  "getPublicLoads m an F = bindr (filter_res (\<lambda>LI.
       and_res (Inr (LA_mayLeak an LI))
         (or_res (not_res (ST_secret m an LI)) (CAA m an (getPointerOperand (ins m LI)))))
     (insts_of m F [Load])) (\<lambda>ls. Inr (os_of ls))"

datatype store_class = NtSec | TSec | Pub | Unclassified

text \<open>The loop over the loads a stored value comes from: \<open>(nt_sec, t_sec)\<close>.\<close>

fun store_origins :: "ir_module \<Rightarrow> analyses \<Rightarrow> nat \<Rightarrow> nat list \<Rightarrow> bool \<Rightarrow> (bool \<times> bool) res" where
  "store_origins m an ptr [] t_sec = Inr (False, t_sec)"
| "store_origins m an ptr (op_V # ops) t_sec =
     (if isa m op_V [Load] \<and> getPointerOperand (ins m op_V) = ptr then store_origins m an ptr ops t_sec
      else if NST_secret m an op_V then Inr (True, t_sec)
      else bindr (ST_secret m an op_V) (\<lambda>s. store_origins m an ptr ops (t_sec \<or> s)))"

definition classify_store :: "ir_module \<Rightarrow> analyses \<Rightarrow> nat \<Rightarrow> store_class res" where
  "classify_store m an SI =
     (let ptr = getPointerOperand (ins m SI); V = opnd (ins m SI) 0 in
      bindr (CAA m an ptr) (\<lambda>ca.
      if ca \<or> \<not> is_inst m V then Inr Unclassified
      else bindr (incoming_list m V) (\<lambda>ops.
        bindr (store_origins m an ptr ops False) (\<lambda>(nt_sec, t_sec).
        if nt_sec \<and> \<not> NST_secret m an V then Inr Unclassified
        else bindr (ST_secret m an V) (\<lambda>V_sec.
          if t_sec \<and> \<not> V_sec then Inr Unclassified
          else Inr (if nt_sec then NtSec else if t_sec then TSec else Pub))))))"

definition getNonConstantAddressSecretStores :: "ir_module \<Rightarrow> analyses \<Rightarrow> func \<Rightarrow>
    (nat list \<times> nat list \<times> nat list) res" where
  "getNonConstantAddressSecretStores m an F =
     bindr (map_res (\<lambda>SI. bindr (classify_store m an SI) (\<lambda>c. Inr (SI, c))) (insts_of m F [Store])) (\<lambda>cs.
     let pick = (\<lambda>k. os_of (map fst (filter (\<lambda>p. snd p = k) cs)))
     in Inr (pick NtSec, pick TSec, pick Pub))"

definition getCtrls :: "ir_module \<Rightarrow> func \<Rightarrow> nat list res" where
  "getCtrls m F = bindr (filter_res (\<lambda>I.
       if isa m I CallBase then mayLowerToFunctionCall m I else Inr (isa m I [Ret])) (insts F))
     (\<lambda>cs. Inr (os_of cs))"

text \<open>\<open>getTransmitters\<close>: the instructions with a speculatively secret sensitive operand, with these
  operands.\<close>

definition secret_operands :: "ir_module \<Rightarrow> analyses \<Rightarrow> nat \<Rightarrow> nat list res" where
  "secret_operands m an I =
     bindr (get_transmitter_sensitive_operands m I) (\<lambda>ops.
     bindr (filter_res (\<lambda>V. ST_secret m an V) (map snd ops)) (\<lambda>vs. Inr (os_of vs)))"

definition getTransmitters :: "ir_module \<Rightarrow> analyses \<Rightarrow> func \<Rightarrow> (nat \<times> nat list) list res" where
  "getTransmitters m an F =
     foldr_res (\<lambda>I out. bindr (secret_operands m an I) (\<lambda>vs.
       Inr (if vs \<noteq> [] then om_put out I vs else out))) (insts F) []"

subsection \<open>Sources of an access\<close>

definition reach_back :: "ir_module \<Rightarrow> func \<Rightarrow> nat \<Rightarrow> nat set res" where
  "reach_back m F I = bindr (dfs_push Bad_pointer (insts F) (predecessors m F) [I] {} Map.empty)
     (\<lambda>(reach, _). Inr reach)"

definition address_sources :: "ir_module \<Rightarrow> func \<Rightarrow> nat \<Rightarrow> nat list res" where
  "address_sources m F I =
     bindr (incoming_list m (getPointerOperand (ins m I))) (\<lambda>ops.
     map_res (\<lambda>op_V. if is_inst m op_V then Inr op_V
        else if is_argument m op_V then Inr (entry_inst F)
        else Inl Unhandled) ops)"

definition control_sources :: "ir_module \<Rightarrow> func \<Rightarrow> nat set \<Rightarrow> nat list" where
  "control_sources m F reach = filter (\<lambda>T. T \<in> reach \<and> isTerminator m T \<and>
     list_ex (\<lambda>s. s \<notin> reach) (successors_inst m F T)) (insts F)"

definition call_sources :: "ir_module \<Rightarrow> func \<Rightarrow> nat set \<Rightarrow> nat list res" where
  "call_sources m F reach = filter_res (\<lambda>I. and_res (Inr (I \<in> reach \<and> isa m I CallBase))
     (mayLowerToFunctionCall m I)) (insts F)"

definition getSourcesForNCAAccess :: "ir_module \<Rightarrow> func \<Rightarrow> nat \<Rightarrow> nat list res" where
  "getSourcesForNCAAccess m F I = assertr (I \<noteq> entry_inst F)
     (bindr (reach_back m F I) (\<lambda>reach. assertr (entry_inst F \<in> reach)
     (bindr (address_sources m F I) (\<lambda>type1.
     bindr (call_sources m F reach) (\<lambda>type3.
     Inr (os_of (filter (\<lambda>J. J \<in> reach) (type1 @ control_sources m F reach @ type3))))))))"

subsection \<open>Waypoint lists\<close>

type_synonym st = "nat list list"

definition reach_from :: "ir_module \<Rightarrow> func \<Rightarrow> nat list \<Rightarrow> nat set res" where
  "reach_from m F starts = wl_pop Bad_pointer (insts F) stack_push (successors_inst m F) (rev starts) {}"

definition ncas_all :: "options \<Rightarrow> ir_module \<Rightarrow> analyses \<Rightarrow> func \<Rightarrow> nat list res" where
  "ncas_all opt m an F =
     (if NCASAll opt then filter_res (\<lambda>SI. and_res (not_res (CAA m an (getPointerOperand (ins m SI))))
        (Inr (\<not> is_constant (vals m (opnd (ins m SI) 0))))) (insts_of m F [Store])
      else Inr [])"

definition memcpy_inlines :: "ir_module \<Rightarrow> func \<Rightarrow> nat list" where
  "memcpy_inlines m F = filter (\<lambda>I. intrinsic_id m I = Some In_memcpy_inline) (insts F)"

definition ncas :: "options \<Rightarrow> ir_module \<Rightarrow> analyses \<Rightarrow> func \<Rightarrow> nat list res" where
  "ncas opt m an F =
     bindr (getNonConstantAddressSecretStores m an F) (\<lambda>(nca_nt_sec, nca_t_sec, nca_pub).
     bindr (ncas_all opt m an F) (\<lambda>extra.
     Inr (os_of (nca_nt_sec @ nca_t_sec @ extra @ memcpy_inlines m F))))"

text \<open>An instruction is vulnerable to a store when a sensitive operand comes from a load the store
  reaches.\<close>

definition vulnerable :: "ir_module \<Rightarrow> nat set \<Rightarrow> nat \<Rightarrow> bool res" where
  "vulnerable m seen T =
     bindr (get_transmitter_sensitive_operands m T) (\<lambda>ops.
     any_res (\<lambda>p. bindr (incoming_list m (snd p)) (\<lambda>loads.
       Inr (list_ex (\<lambda>V. isa m V [Load] \<and> V \<in> seen) loads))) ops)"

definition st_with_sources :: "options \<Rightarrow> ir_module \<Rightarrow> func \<Rightarrow> bool \<Rightarrow> nat \<Rightarrow> nat list \<Rightarrow> st res" where
  "st_with_sources opt m F expand I sinks =
     (if expand then bindr (getSourcesForNCAAccess m F I) (\<lambda>sources. Inr [sources, [I], sinks])
      else Inr [[I], sinks])"

definition sts_ncas_xmit :: "options \<Rightarrow> ir_module \<Rightarrow> analyses \<Rightarrow> func \<Rightarrow> st list res" where
  "sts_ncas_xmit opt m an F =
     bindr (ncas opt m an F) (map_res (\<lambda>SI.
       bindr (reach_from m F [SI]) (\<lambda>seen.
       bindr (filter_res (vulnerable m seen) (filter (\<lambda>T. T \<in> seen) (os_of (insts F)))) (\<lambda>xmits.
       st_with_sources opt m F (ExpandSTs opt) SI xmits))))"

definition sts_ncas_ctrl :: "options \<Rightarrow> ir_module \<Rightarrow> analyses \<Rightarrow> func \<Rightarrow> st list res" where
  "sts_ncas_ctrl opt m an F =
     bindr (ncas opt m an F) (\<lambda>stores. bindr (getCtrls m F) (\<lambda>ctrls. Inr [[stores, ctrls]]))"

definition sts_ncal_xmit :: "options \<Rightarrow> ir_module \<Rightarrow> analyses \<Rightarrow> func \<Rightarrow> st list res" where
  "sts_ncal_xmit opt m an F =
     bindr (getTransmitters m an F) (\<lambda>transmitters.
     bindr (map_res (\<lambda>(xmit, xmit_ops).
         let ncals = os_of (concat (map (ST_taints_at F an) xmit_ops))
         in map_res (\<lambda>ncal. st_with_sources opt m F (ExpandSTs opt \<and> ncal \<noteq> entry_inst F) ncal [xmit]) ncals)
       transmitters) (\<lambda>stss. Inr (concat stss)))"

definition sts_ncal_glob :: "options \<Rightarrow> ir_module \<Rightarrow> analyses \<Rightarrow> func \<Rightarrow> st list res" where
  "sts_ncal_glob opt m an F =
     bindr (filter_res (\<lambda>SI.
         let SV = opnd (ins m SI) 0 in
         and_res (CAA m an (getPointerOperand (ins m SI)))
        (and_res (isGlobalAddressStore m SI)
        (and_res (Inr (\<not> NST_secret m an SV)) (ST_secret m an SV)))) (insts_of m F [Store])) (\<lambda>stores.
     Inr (concat (map (\<lambda>SI. map (\<lambda>LI. [[LI], [SI]]) (ST_taints_at F an (opnd (ins m SI) 0))) stores)))"

text \<open>Transmitters before the first call, and those after any call.\<close>

definition pre_call_xmit :: "ir_module \<Rightarrow> analyses \<Rightarrow> nat \<Rightarrow> bool res" where
  "pre_call_xmit m an I =
     bindr (get_transmitter_sensitive_operands m I) (\<lambda>ops.
     any_res (\<lambda>p. bindr (incoming_list m (snd p)) (\<lambda>loads.
       any_res (\<lambda>L. and_res (Inr (isa m L [Load])) (CAA m an (getPointerOperand (ins m L)))) loads)) ops)"

definition nonconst_xmit :: "ir_module \<Rightarrow> nat \<Rightarrow> bool res" where
  "nonconst_xmit m I =
     bindr (get_transmitter_sensitive_operands m I) (\<lambda>ops.
     Inr (list_ex (\<lambda>p. \<not> is_constant (vals m (snd p))) ops))"

definition lowered_call :: "ir_module \<Rightarrow> nat \<Rightarrow> bool res" where
  "lowered_call m I = and_res (Inr (isa m I CallBase)) (mayLowerToFunctionCall m I)"

definition sts_entry_xmit :: "options \<Rightarrow> ir_module \<Rightarrow> analyses \<Rightarrow> func \<Rightarrow> st list res" where
  "sts_entry_xmit opt m an F =
     bindr (filter_res (lowered_call m) (insts F)) (\<lambda>lowered.
     bindr (wl_pop Bad_pointer (insts F) stack_push
         (\<lambda>I. if I \<in> set lowered then [] else successors_inst m F I) [entry_inst F] {}) (\<lambda>seen1.
     bindr (filter_res (pre_call_xmit m an) (filter (\<lambda>I. I \<in> seen1 \<and> I \<notin> set lowered) (insts F))) (\<lambda>pre.
     bindr (reach_from m F (insts_of m F CallBase)) (\<lambda>seen2.
     bindr (filter_res (nonconst_xmit m) (filter (\<lambda>I. I \<in> seen2) (insts F))) (\<lambda>post.
     Inr [[[entry_inst F], os_of (pre @ post)]])))))"

definition sts_call_xmit :: "ir_module \<Rightarrow> func \<Rightarrow> st list res" where
  "sts_call_xmit m F =
     bindr (filter_res (nonconst_xmit m) (insts F)) (\<lambda>xmits.
     bindr (filter_res (mayLowerToFunctionCall m) (insts_of m F CallBase)) (\<lambda>calls.
     Inr [[os_of calls, os_of xmits]]))"

definition loads_of_xmit :: "ir_module \<Rightarrow> nat \<Rightarrow> nat list res" where
  "loads_of_xmit m xmit =
     bindr (get_transmitter_sensitive_operands m xmit) (\<lambda>ops.
     bindr (map_res (\<lambda>p. incoming_list m (snd p)) ops) (\<lambda>ls.
     Inr (os_of (filter (\<lambda>L. isa m L [Load]) (concat ls)))))"

definition before :: "ir_module \<Rightarrow> func \<Rightarrow> nat \<Rightarrow> nat list" where
  "before m F I = (let sources = os_of (predecessors m F I) in if sources = [] then [entry_inst F] else sources)"

definition not_direct_only :: "ir_module \<Rightarrow> nat \<Rightarrow> bool res" where
  "not_direct_only m call =
     and_res (mayLowerToFunctionCall m call)
       (bindr (getCalledFunction m call) (\<lambda>c. case c of
           Some f \<Rightarrow> Inr (\<not> functionIsDirectCallOnly (fn_of m f)) | None \<Rightarrow> Inr True))"

definition sts_load_xmit :: "options \<Rightarrow> ir_module \<Rightarrow> analyses \<Rightarrow> func \<Rightarrow> st list res" where
  "sts_load_xmit opt m an F =
     bindr (map_res (\<lambda>xmit. bindr (loads_of_xmit m xmit) (\<lambda>ls. Inr [ls, [xmit]])) (insts F)) (\<lambda>sts1.
     bindr (sts_call_xmit m F) (\<lambda>sts2.
     bindr (filter_res (not_direct_only m) (insts_of m F CallBase)) (\<lambda>calls.
     Inr (sts1 @ sts2 @ map (\<lambda>ret. [before m F ret, [ret]]) (insts_of m F [Ret]) @
       map (\<lambda>call. [before m F call, [call]]) calls))))"

definition add_sts :: "options \<Rightarrow> ir_module \<Rightarrow> analyses \<Rightarrow> func \<Rightarrow> st list res" where
  "add_sts opt m an F =
     bindr (if en_ncas_xmit opt then sts_ncas_xmit opt m an F else Inr []) (\<lambda>sts1.
     bindr (if en_ncas_ctrl opt then sts_ncas_ctrl opt m an F else Inr []) (\<lambda>sts2.
     bindr (if en_ncal_xmit opt then sts_ncal_xmit opt m an F else Inr []) (\<lambda>sts3.
     bindr (if en_ncal_glob opt then sts_ncal_glob opt m an F else Inr []) (\<lambda>sts4.
     bindr (if en_entry_xmit opt then sts_entry_xmit opt m an F else Inr []) (\<lambda>sts5.
     bindr (if en_load_xmit opt then sts_load_xmit opt m an F else Inr []) (\<lambda>sts6.
     bindr (if en_call_xmit opt then sts_call_xmit m F else Inr []) (\<lambda>sts7.
     Inr (sts1 @ sts2 @ sts3 @ sts4 @ sts5 @ sts6 @ sts7))))))))"

end
