(* ===== verification/IREdit.thy ===== *)
theory IREdit
  imports Transmitter
begin

text \<open>
  The edits the passes make to a module: replacing a function's blocks, inserting a new
  instruction, and \<open>CreateMitigation\<close> of \<open>src/Mitigation.cc\<close> and \<open>setMetadataFlag\<close> of
  \<open>src/Metadata.cc\<close>, which are built from them. A new value gets the first address that is not in
  use, so every edit is an explicit change of the module.
\<close>

subsection \<open>Editing\<close>

definition set_val :: "nat \<Rightarrow> vdesc \<Rightarrow> ir_module \<Rightarrow> ir_module" where
  "set_val v d m = m\<lparr>vals := (vals m)(v := d)\<rparr>"

definition new_val :: "vdesc \<Rightarrow> ir_module \<Rightarrow> ir_module \<times> nat" where
  "new_val d m = (m\<lparr>vals := (vals m)(vbound m := d), vbound := Suc (vbound m)\<rparr>, vbound m)"

definition update_blocks :: "nat \<Rightarrow> (bb list \<Rightarrow> bb list) \<Rightarrow> ir_module \<Rightarrow> ir_module" where
  "update_blocks f g m = set_val f (Function (fn_of m f\<lparr>fn_blocks := g (fn_blocks (fn_of m f))\<rparr>)) m"

text \<open>\<open>xs\<close> before the first \<open>I\<close> of a list.\<close>

fun put_before :: "nat \<Rightarrow> nat list \<Rightarrow> nat list \<Rightarrow> nat list" where
  "put_before I xs [] = []"
| "put_before I xs (J # Js) = (if J = I then xs @ J # Js else J # put_before I xs Js)"

definition insts_before :: "nat \<Rightarrow> nat list \<Rightarrow> bb list \<Rightarrow> bb list" where
  "insts_before I xs Bs = map (\<lambda>B. B\<lparr>bb_insts := put_before I xs (bb_insts B)\<rparr>) Bs"

text \<open>\<open>IRBuilder\<close> at \<open>I\<close>: the new instruction comes right before \<open>I\<close>.\<close>

definition insert_before :: "nat \<Rightarrow> nat \<Rightarrow> inst \<Rightarrow> ir_module \<Rightarrow> ir_module \<times> nat" where
  "insert_before f I i m =
     (case new_val (Inst i) m of (m1, a) \<Rightarrow> (update_blocks f (insts_before I [a]) m1, a))"

definition setMetadataFlag :: "nat \<Rightarrow> string \<Rightarrow> ir_module \<Rightarrow> ir_module" where
  "setMetadataFlag I flag m = set_val I (Inst (ins m I\<lparr>md := flag # md (ins m I)\<rparr>)) m"

definition getMetadataFlag :: "ir_module \<Rightarrow> nat \<Rightarrow> string \<Rightarrow> bool" where
  "getMetadataFlag m I flag = (flag \<in> set (md (ins m I)))"

subsection \<open>Mitigations\<close>

definition intrinsic_call :: "intrinsic \<Rightarrow> string list \<Rightarrow> inst" where
  "intrinsic_call k flags = inst0\<lparr>opc := Call, iid := Some k, md := flags\<rparr>"

text \<open>\<open>CreateMitigation\<close> skips the PHIs, which have to come first in their block.\<close>

definition skip_phis :: "ir_module \<Rightarrow> func \<Rightarrow> nat \<Rightarrow> nat res" where
  "skip_phis m F I = (case block_of F I of
      None \<Rightarrow> Inl Bad_pointer
    | Some B \<Rightarrow> (case dropWhile (\<lambda>J. isa m J [PHI]) (dropWhile (\<lambda>J. J \<noteq> I) (bb_insts B)) of
          [] \<Rightarrow> Inl Bad_pointer
        | J # _ \<Rightarrow> Inr J))"

definition mitigate_at :: "options \<Rightarrow> nat \<Rightarrow> nat \<Rightarrow> ir_module \<Rightarrow> (ir_module \<times> nat) res" where
  "mitigate_at opt f I m =
     (case insert_before f I (intrinsic_call (x86 sse2_lfence) [''clou.mitigation'']) m of (m1, L) \<Rightarrow>
      assertr (is_MitigationInst m1 L)
        (Inr (if InsertTrapAfterMitigations opt
              then fst (insert_before f I (intrinsic_call (x86 sse2_mfence) []) m1) else m1, L)))"

definition CreateMitigation :: "options \<Rightarrow> nat \<Rightarrow> nat \<Rightarrow> ir_module \<Rightarrow> (ir_module \<times> nat) res" where
  "CreateMitigation opt f I m =
     bindr (skip_phis m (fn_of m f) I) (\<lambda>J. mitigate_at opt f J m)"

subsection \<open>What the edits keep\<close>

lemma vals_set_val [simp]: "vals (set_val v d m) u = (if u = v then d else vals m u)"
  by (simp add: set_val_def)

lemma vals_update_blocks [simp]:
  "vals (update_blocks f g m) u =
     (if u = f then Function (fn_of m f\<lparr>fn_blocks := g (fn_blocks (fn_of m f))\<rparr>) else vals m u)"
  by (simp add: update_blocks_def)

lemma vbound_edits [simp]: "vbound (set_val v d m) = vbound m" "vbound (update_blocks f g m) = vbound m"
  by (simp_all add: set_val_def update_blocks_def)

lemma fn_of_update_blocks [simp]:
  "fn_of (update_blocks f g m) f = fn_of m f\<lparr>fn_blocks := g (fn_blocks (fn_of m f))\<rparr>"
  by (simp add: fn_of_def)

lemma set_put_before: "set (put_before I xs Js) = set Js \<union> (if I \<in> set Js then set xs else {})"
  by (induction Js) auto

lemma put_before_absent [simp]: "I \<notin> set Js \<Longrightarrow> put_before I xs Js = Js"
  by (induction Js) auto

lemma put_before_split: "I \<notin> set as \<Longrightarrow> put_before I xs (as @ I # bs) = as @ xs @ I # bs"
  by (induction as) auto

lemma insert_before_simps:
  assumes "insert_before f I i m = (m', a)" "f \<noteq> vbound m"
  shows "a = vbound m" "vals m' a = Inst i" "vbound m' = Suc (vbound m)"
    "u \<noteq> f \<Longrightarrow> u \<noteq> a \<Longrightarrow> vals m' u = vals m u"
    "fn_of m' f = fn_of m f\<lparr>fn_blocks := insts_before I [a] (fn_blocks (fn_of m f))\<rparr>"
  using assms by (auto simp: insert_before_def new_val_def fn_of_def)

lemma setMetadataFlag_get:
  "is_inst m I \<Longrightarrow> getMetadataFlag (setMetadataFlag I flag m) J g \<longleftrightarrow> J = I \<and> g = flag \<or> getMetadataFlag m J g"
  by (auto simp: getMetadataFlag_def setMetadataFlag_def ins_def)

subsection \<open>Insertion keeps a function well-formed\<close>

lemma put_before_append:
  "put_before I xs (as @ bs) = (if I \<in> set as then put_before I xs as @ bs else as @ put_before I xs bs)"
  by (induction as) auto

lemma concat_put_before:
  "distinct (concat ls) \<Longrightarrow> concat (map (put_before I xs) ls) = put_before I xs (concat ls)"
proof (induction ls)
  case (Cons l ls)
  have "I \<notin> set (concat ls)" if "I \<in> set l" using Cons.prems that by auto
  with Cons show ?case by (cases "I \<in> set l") (simp_all add: put_before_append)
qed simp

lemma insts_put_before:
  "distinct (insts F) \<Longrightarrow> insts (F\<lparr>fn_blocks := insts_before I xs (fn_blocks F)\<rparr>) = put_before I xs (insts F)"
  by (simp add: insts_def insts_before_def concat_put_before[symmetric] comp_def)

lemma distinct_put_before: "distinct Js \<Longrightarrow> a \<notin> set Js \<Longrightarrow> distinct (put_before I [a] Js)"
  by (induction Js) (auto simp: set_put_before)

lemma put_before_Nil [simp]: "put_before I xs Js = [] \<longleftrightarrow> Js = []"
  by (cases Js) auto

lemma last_put_before [simp]: "Js \<noteq> [] \<Longrightarrow> last (put_before I xs Js) = last Js"
  by (induction Js) auto

lemma butlast_put_before: "set (butlast (put_before I xs Js)) \<subseteq> set xs \<union> set (butlast Js)"
  by (induction Js) (auto simp: butlast_append)

lemma wf_func_is_inst: "wf_func m F \<Longrightarrow> I \<in> set (insts F) \<Longrightarrow> is_inst m I"
proof -
  assume wf: "wf_func m F" and "I \<in> set (insts F)"
  then obtain B where B: "B \<in> set (fn_blocks F)" "I \<in> set (bb_insts B)" by (auto simp: in_insts)
  then have "I \<in> set (butlast (bb_insts B)) \<or> I = last (bb_insts B)"
    by (metis append_butlast_last_id empty_iff in_set_conv_decomp_last list.set(1) rotate1.simps(2) set_ConsD set_rotate1)
  with wf B(1) show "is_inst m I" unfolding wf_func_def wf_bb_def isTerminator_def isa_def by blast
qed

text \<open>\<open>edit_ok m f\<close>: the function is in its place, and the next address is free.\<close>

definition edit_ok :: "ir_module \<Rightarrow> nat \<Rightarrow> bool" where
  "edit_ok m f \<longleftrightarrow> wf_func m (fn_of m f) \<and> f < vbound m \<and> \<not> is_inst m f \<and> (\<forall>I \<in> set (insts (fn_of m f)). I < vbound m)"

lemma insert_before_law:
  assumes ok: "edit_ok m f" and e: "insert_before f J i m = (m', a)" and i: "opc i \<notin> set Terminator"
  shows "edit_ok m' f" "insts (fn_of m' f) = put_before J [a] (insts (fn_of m f))" "a = vbound m"
    "ins m' a = i" "is_inst m' a" "\<And>u. u \<noteq> a \<Longrightarrow> u \<noteq> f \<Longrightarrow> vals m' u = vals m u" "vbound m' = Suc (vbound m)"
    "fn_blocks (fn_of m' f) = insts_before J [a] (fn_blocks (fn_of m f))"
proof -
  let ?F = "fn_of m f" and ?F' = "fn_of m' f"
  from ok have wf: "wf_func m ?F" and f: "f < vbound m" "\<not> is_inst m f"
    and lim: "\<And>I. I \<in> set (insts ?F) \<Longrightarrow> I < vbound m" by (auto simp: edit_ok_def)
  note s = insert_before_simps[OF e]
  show a: "a = vbound m" "vbound m' = Suc (vbound m)" using s(1,3) f by auto
  have va: "vals m' a = Inst i" and vals: "\<And>u. u \<noteq> a \<Longrightarrow> u \<noteq> f \<Longrightarrow> vals m' u = vals m u"
    and F': "?F' = ?F\<lparr>fn_blocks := insts_before J [a] (fn_blocks ?F)\<rparr>" using s f by auto
  then show "ins m' a = i" "is_inst m' a" "\<And>u. u \<noteq> a \<Longrightarrow> u \<noteq> f \<Longrightarrow> vals m' u = vals m u"
    "fn_blocks ?F' = insts_before J [a] (fn_blocks ?F)"
    by (simp_all add: ins_def is_inst_def)
  have d: "distinct (insts ?F)" using wf by (simp add: wf_func_def)
  show ins: "insts ?F' = put_before J [a] (insts ?F)" unfolding F' by (rule insts_put_before[OF d])
  have old: "is_inst m' I = is_inst m I \<and> ins m' I = ins m I" if "I \<in> set (insts ?F)" for I
  proof -
    have "I \<noteq> a" "I \<noteq> f" using lim[OF that] a wf_func_is_inst[OF wf that] f(2) by auto
    then show ?thesis by (simp add: is_inst_def ins_def vals)
  qed
  then have old_term: "isTerminator m' I = isTerminator m I" if "I \<in> set (insts ?F)" for I
    using that by (simp add: isTerminator_def isa_def)
  have new: "is_inst m' a \<and> \<not> isTerminator m' a" using va i by (simp add: is_inst_def isTerminator_def isa_def ins_def)
  have "wf_bb m' ?F' (B\<lparr>bb_insts := put_before J [a] (bb_insts B)\<rparr>)" if B: "B \<in> set (fn_blocks ?F)" for B
  proof -
    from wf B have wb: "wf_bb m ?F B" by (simp add: wf_func_def)
    then have ne: "bb_insts B \<noteq> []" by (simp add: wf_bb_def)
    have sub: "set (bb_insts B) \<subseteq> set (insts ?F)" using B by (auto simp: in_insts)
    with ne have l: "last (bb_insts B) \<in> set (insts ?F)" by (meson last_in_set subsetD)
    have "is_inst m' I \<and> \<not> isTerminator m' I" if "I \<in> set (butlast (put_before J [a] (bb_insts B)))" for I
    proof (cases "I = a")
      case False
      with that butlast_put_before have I: "I \<in> set (butlast (bb_insts B))" by fastforce
      then have "I \<in> set (insts ?F)" using sub by (auto dest: in_set_butlastD)
      with I wb old old_term show ?thesis by (simp add: wf_bb_def)
    qed (use new in simp)
    moreover have "set (succs (ins m' (last (bb_insts B)))) \<subseteq> bb_id ` set (fn_blocks ?F')"
      using wb old[OF l] by (auto simp: wf_bb_def F' insts_before_def image_image)
    ultimately show ?thesis using wb old_term[OF l] ne by (simp add: wf_bb_def)
  qed
  then have "wf_func m' ?F'"
    using wf distinct_put_before[OF d, of a J] lim a(1) unfolding wf_func_def ins
    by (auto simp: F' insts_before_def comp_def)
  moreover have "\<not> is_inst m' f" using s(1) f e by (auto simp: is_inst_def insert_before_def new_val_def)
  moreover have "\<forall>I \<in> set (insts ?F'). I < vbound m'"
    using lim a by (auto simp: ins set_put_before less_Suc_eq)
  ultimately show "edit_ok m' f" using f(1) a by (simp add: edit_ok_def)
qed

subsection \<open>Insertion in the control-flow graph\<close>

lemma front_of_insts_before:
  "front_of (F\<lparr>fn_blocks := insts_before J [a] (fn_blocks F)\<rparr>) b = map (\<lambda>v. if v = J then a else v) (front_of F b)"
proof -
  define g where "g = (\<lambda>B :: bb. B\<lparr>bb_insts := put_before J [a] (bb_insts B)\<rparr>)"
  have "find (\<lambda>B. bb_id B = b) (map g Bs) = map_option g (find (\<lambda>B. bb_id B = b) Bs)" for Bs
    by (induction Bs) (auto simp: g_def)
  then have "block_at (F\<lparr>fn_blocks := insts_before J [a] (fn_blocks F)\<rparr>) b = map_option g (block_at F b)"
    by (simp add: block_at_def insts_before_def g_def)
  moreover have "take 1 (put_before J [a] xs) = map (\<lambda>v. if v = J then a else v) (take 1 xs)" for xs
    by (cases xs) auto
  ultimately show ?thesis by (simp add: front_of_def g_def split: option.split)
qed

lemma put_before_adjacent:
  assumes "distinct (as @ u # v # bs)" "v \<noteq> J"
  shows "\<exists>as' bs'. put_before J [a] (as @ u # v # bs) = as' @ u # v # bs'"
proof (cases "J \<in> set as")
  case True
  then show ?thesis by (auto simp: put_before_append)
next
  case False
  then have eq: "put_before J [a] (as @ u # v # bs) = as @ put_before J [a] (u # v # bs)"
    by (simp add: put_before_append)
  show ?thesis
  proof (cases "u = J")
    case True
    then have "put_before J [a] (as @ u # v # bs) = (as @ [a]) @ u # v # bs" using eq by simp
    then show ?thesis by blast
  next
    case False
    then have "put_before J [a] (as @ u # v # bs) = as @ u # v # put_before J [a] bs" using assms(2) by (simp add: eq)
    then show ?thesis by blast
  qed
qed

lemma insert_before_successors:
  assumes ok: "edit_ok m f" and e: "insert_before f J i m = (m', a)" and i: "opc i \<notin> set Terminator"
    and u: "u \<in> set (insts (fn_of m f))"
  shows "successors_inst m' (fn_of m' f) u = map (\<lambda>v. if v = J then a else v) (successors_inst m (fn_of m f) u)"
proof -
  let ?F = "fn_of m f" and ?F' = "fn_of m' f"
  note law = insert_before_law[OF ok e i]
  from ok have wf: "wf_func m ?F" and wf': "wf_func m' ?F'" using law(1) by (auto simp: edit_ok_def)
  from ok u have ua: "u \<noteq> a" "u \<noteq> f" using wf_func_is_inst[OF wf u] by (auto simp: edit_ok_def law(3))
  from u obtain B where B: "B \<in> set (fn_blocks ?F)" "u \<in> set (bb_insts B)" by (auto simp: in_insts)
  define B' where "B' = B\<lparr>bb_insts := put_before J [a] (bb_insts B)\<rparr>"
  have B': "B' \<in> set (fn_blocks ?F')" "bb_insts B' = put_before J [a] (bb_insts B)"
    using B(1) by (auto simp: law(8) insts_before_def B'_def)
  have ne: "bb_insts B \<noteq> []" using B(2) by auto
  from block_split[OF B(2)] show ?thesis
  proof (elim disjE exE)
    assume l: "u = last (bb_insts B)"
    have F': "?F' = ?F\<lparr>fn_blocks := insts_before J [a] (fn_blocks ?F)\<rparr>"
      using insert_before_simps(5)[OF e] ok by (auto simp: edit_ok_def)
    have u': "u = last (bb_insts B')" using l ne by (simp add: B')
    have "ins m' u = ins m u" using law(6) ua by (simp add: ins_def)
    then have "successors_inst m' ?F' u = concat (map (front_of ?F') (succs (ins m u)))"
      using successors_last[OF wf' B'(1)] u' by simp
    also have "\<dots> = map (\<lambda>v. if v = J then a else v) (concat (map (front_of ?F) (succs (ins m u))))"
      unfolding F' front_of_insts_before by (simp add: map_concat comp_def)
    finally show ?thesis using successors_last[OF wf B(1)] l by simp
  next
    fix as v bs assume xs: "bb_insts B = as @ u # v # bs"
    then have d: "distinct (as @ u # v # bs)" using wf_block_distinct[OF wf B(1)] by simp
    have s: "successors_inst m ?F u = [v]" by (rule successors_mid[OF wf B(1) xs])
    show ?thesis
    proof (cases "v = J")
      case True
      then have "J \<notin> set (as @ [u])" using d by auto
      then have "put_before J [a] ((as @ [u]) @ J # bs) = (as @ [u]) @ [a] @ J # bs" by (rule put_before_split)
      then have "bb_insts B' = as @ u # a # (J # bs)" using True by (simp add: B' xs)
      from successors_mid[OF wf' B'(1) this] s True show ?thesis by simp
    next
      case False
      from put_before_adjacent[OF d False, of a] obtain as' bs' where "bb_insts B' = as' @ u # v # bs'"
        by (auto simp: B' xs)
      from successors_mid[OF wf' B'(1) this] s False show ?thesis by simp
    qed
  qed
qed

lemma insert_before_cfg:
  assumes ok: "edit_ok m f" and e: "insert_before f J i m = (m', a)" and i: "opc i \<notin> set Terminator"
    and J: "J \<in> set (insts (fn_of m f))"
  shows "cfg m' (fn_of m' f) = {(u, v). (u, v) \<in> cfg m (fn_of m f) \<and> v \<noteq> J} \<union> {(u, a) |u. (u, J) \<in> cfg m (fn_of m f)} \<union> {(a, J)}"
proof -
  let ?F = "fn_of m f" and ?F' = "fn_of m' f"
  note law = insert_before_law[OF ok e i]
  from law(1) have wf': "wf_func m' ?F'" by (auto simp: edit_ok_def)
  have ins: "set (insts ?F') = insert a (set (insts ?F))" using J by (auto simp: law(2) set_put_before)
  have fresh: "a \<notin> set (insts ?F)" using ok by (auto simp: edit_ok_def law(3))
  have sJ: "successors_inst m' ?F' a = [J]"
  proof -
    from J obtain B where B: "B \<in> set (fn_blocks ?F)" "J \<in> set (bb_insts B)" by (auto simp: in_insts)
    then obtain as bs where xs: "bb_insts B = as @ J # bs" "J \<notin> set as" by (meson split_list_first)
    define B' where "B' = B\<lparr>bb_insts := put_before J [a] (bb_insts B)\<rparr>"
    have "B' \<in> set (fn_blocks ?F')" using B(1) by (auto simp: law(8) insts_before_def B'_def)
    moreover have "bb_insts B' = as @ a # J # bs" by (simp add: B'_def xs put_before_split)
    ultimately show ?thesis by (rule successors_mid[OF wf'])
  qed
  note s = insert_before_successors[OF ok e i]
  have "(u, v) \<in> cfg m' ?F' \<longleftrightarrow> u \<in> set (insts ?F) \<and> v \<in> (\<lambda>v. if v = J then a else v) ` set (successors_inst m ?F u) \<or> u = a \<and> v = J" for u v
    using s[of u] fresh by (auto simp: cfg_def ins sJ)
  then show ?thesis by (auto simp: cfg_def)
qed

text \<open>What does not go through an inserted instruction does not get to the one it stands before.\<close>

lemma insert_before_guards:
  assumes "edit_ok m f" "insert_before f J i m = (m', a)" "opc i \<notin> set Terminator" "J \<in> set (insts (fn_of m f))"
    "u \<noteq> a"
  shows "(u, J) \<notin> cfg m' (fn_of m' f)"
proof -
  have "J \<noteq> a" using assms(1,4) insert_before_law(3)[OF assms(1-3)] by (auto simp: edit_ok_def)
  with insert_before_cfg[OF assms(1-4)] assms(5) show ?thesis by auto
qed

end
