(* ===== verification/MitigatePass.thy ===== *)
theory MitigatePass
  imports MitigateSets IREdit
begin

text \<open>
  The second half of \<open>MitigatePass::runOnFunction\<close> (\<open>src/MitigatePass.cc\<close>): the S-CFG, the minimum
  cut over it, the double check, the statistics, and the insertion of the mitigations. LLVM's
  \<open>SplitEdge\<close>, the loop depths and the floating-point score of an edge are arguments.
\<close>

subsection \<open>Statistics\<close>

text \<open>The statistics loops evaluate assertions on the analyses; \<open>xmit_kind\<close> is \<open>NONE\<close>, \<open>SAFE\<close>,
  \<open>PSEUDO\<close> or \<open>TRUE\<close>.\<close>

definition xmit_kind :: "ir_module \<Rightarrow> analyses \<Rightarrow> nat \<Rightarrow> nat res" where
  "xmit_kind m an I =
     bindr (get_transmitter_sensitive_operands m I) (\<lambda>ops.
     foldr_res (\<lambda>(k, V) kind. bindr (ST_secret m an V) (\<lambda>s.
       Inr (max kind (if \<not> s then 1 else case k of PSEUDO \<Rightarrow> 2 | TRUE \<Rightarrow> 3)))) ops 0)"

definition count_stores :: "ir_module \<Rightarrow> analyses \<Rightarrow> nat \<Rightarrow> nat \<times> nat \<times> nat \<Rightarrow> (nat \<times> nat \<times> nat) res" where
  "count_stores m an SI = (\<lambda>(cas, pub, sec).
     bindr (CAA m an (getPointerOperand (ins m SI))) (\<lambda>ca.
     if ca then Inr (cas + 1, pub, sec)
     else let V = opnd (ins m SI) 0 in
       bindr (or_res (Inr (NST_secret m an V)) (ST_secret m an V)) (\<lambda>s.
         Inr (if s then (cas, pub, sec + 1) else (cas, pub + 1, sec)))))"

record load_stats =
  ls_cal :: nat
  ls_cal_leak :: nat
  ls_cal_specsec :: nat
  ls_ncal_leak :: nat
  ls_ncal_safe :: nat

definition count_loads :: "ir_module \<Rightarrow> analyses \<Rightarrow> nat \<Rightarrow> load_stats \<Rightarrow> load_stats res" where
  "count_loads m an LI s =
     bindr (CAA m an (getPointerOperand (ins m LI))) (\<lambda>ca.
     bindr (ST_secret m an LI) (\<lambda>sec.
     if ca then Inr (s\<lparr>ls_cal := ls_cal s + 1,
         ls_cal_leak := ls_cal_leak s + (if LA_mayLeak an LI then 1 else 0),
         ls_cal_specsec := ls_cal_specsec s + (if sec then 1 else 0)\<rparr>)
     else assertr sec (Inr (if LA_mayLeak an LI then s\<lparr>ls_ncal_leak := ls_ncal_leak s + 1\<rparr>
         else s\<lparr>ls_ncal_safe := ls_ncal_safe s + 1\<rparr>))))"

definition mp_stats :: "ir_module \<Rightarrow> analyses \<Rightarrow> func \<Rightarrow> (nat list \<times> (nat \<times> nat \<times> nat) \<times> load_stats) res" where
  "mp_stats m an F =
     bindr (map_res (xmit_kind m an) (insts F)) (\<lambda>kinds.
     bindr (foldr_res (count_stores m an) (insts_of m F [Store]) (0, 0, 0)) (\<lambda>stores.
     bindr (foldr_res (count_loads m an) (insts_of m F [Load])
       \<lparr>ls_cal = 0, ls_cal_leak = 0, ls_cal_specsec = 0, ls_ncal_leak = 0, ls_ncal_safe = 0\<rparr>) (\<lambda>loads.
     Inr (map (\<lambda>k. length (filter ((=) k) kinds)) [1, 2, 3], stores, loads))))"

text \<open>\<open>checkArgs\<close>: which arguments are passed in the six integer registers.\<close>

definition checkArgs :: "(nat \<Rightarrow> nat) \<Rightarrow> func \<Rightarrow> (nat \<times> bool) list" where
  "checkArgs getTypeSizeInBits F =
     snd (fold (\<lambda>A (counter, out).
       if counter \<ge> 6 then (counter, out @ [(A, False)])
       else let counter' = u32 (counter + (getTypeSizeInBits A + 64 - 1) div 64)
            in (counter', out @ [(A, counter' \<le> 6)])) (fn_args F) (0, []))"

record static_stats =
  ss_callees :: "nat list"
  ss_indirect :: bool
  ss_ca_args :: "nat list"
  ss_naive_loads :: nat
  ss_naive_xmits :: nat
  ss_norecurse :: bool

definition naive_loads :: "ir_module \<Rightarrow> nat \<Rightarrow> nat res" where
  "naive_loads m I =
     bindr (get_transmitter_sensitive_operands m I) (\<lambda>ops.
     foldr_res (\<lambda>(k, V) n. if k = TRUE then bindr (incoming_list m V) (\<lambda>ls. Inr (n + length ls)) else Inr n) ops 0)"

definition directCallee :: "ir_module \<Rightarrow> nat \<Rightarrow> nat option" where
  "directCallee m I = (case vals m (getCalledOperand (ins m I)) of
      Function _ \<Rightarrow> Some (getCalledOperand (ins m I)) | _ \<Rightarrow> None)"

definition staticStats :: "ir_module \<Rightarrow> ca_map \<Rightarrow> nat \<Rightarrow> static_stats res" where
  "staticStats m ca f =
     (let F = fn_of m f; calls = insts_of m F CallBase in
      bindr (map_res (naive_loads m) (insts F)) (\<lambda>ns.
      Inr \<lparr>ss_callees = remdups (List.map_filter (directCallee m) calls),
        ss_indirect = list_ex (\<lambda>C. directCallee m C = None) calls,
        ss_ca_args = getConstAddrArgs ca f,
        ss_naive_loads = sum_list ns,
        ss_naive_xmits = length (filter (\<lambda>n. n > 0) ns),
        ss_norecurse = fn_norecurse F\<rparr>))"

subsection \<open>The S-CFG\<close>

text \<open>\<open>score d\<close> is \<open>pow(d + 1, LoopWeight) / pow(1 + 1, DominatorWeight) * 1000\<close> as an unsigned.\<close>

definition compute_edge_weight :: "options \<Rightarrow> (nat \<Rightarrow> nat) \<Rightarrow> (nat \<Rightarrow> nat option) \<Rightarrow> func \<Rightarrow> nat \<Rightarrow> nat \<Rightarrow> nat" where
  "compute_edge_weight opt score LI F src dst =
     (if WeightGraph opt then
        score (min (instruction_loop_nest_depth F src LI) (instruction_loop_nest_depth F dst LI))
      else 1)"

type_synonym scfg = "(nat \<times> (nat \<times> nat) list) list"

definition scfg_row :: "ir_module \<Rightarrow> func \<Rightarrow> (nat \<Rightarrow> nat \<Rightarrow> nat) \<Rightarrow> nat \<Rightarrow> scfg \<Rightarrow> scfg" where
  "scfg_row m F weight src G =
     om_put G src (fold (\<lambda>dst dsts. om_put dsts dst (weight src dst)) (successors_inst m F src)
       (case om_find G src of Some dsts \<Rightarrow> dsts | None \<Rightarrow> []))"

definition scfg_edges :: "ir_module \<Rightarrow> func \<Rightarrow> (nat \<Rightarrow> nat \<Rightarrow> nat) \<Rightarrow> scfg" where
  "scfg_edges m F weight = fold (scfg_row m F weight) (insts F) []"

definition is_exit :: "ir_module \<Rightarrow> nat \<Rightarrow> bool res" where
  "is_exit m I = (if isa m I [Ret] then Inr True else lowered_call m I)"

definition is_entry :: "ir_module \<Rightarrow> func \<Rightarrow> nat \<Rightarrow> bool res" where
  "is_entry m F I = (if I = entry_inst F then Inr True
     else case getPrevNode F I of Some C \<Rightarrow> lowered_call m C | None \<Rightarrow> Inr False)"

text \<open>\<open>G[&exit].emplace(&entry, 1)\<close>: an edge that is there keeps its weight.\<close>

definition back_edge :: "nat \<times> nat \<Rightarrow> scfg \<Rightarrow> scfg" where
  "back_edge e G = (if fst e \<noteq> snd e then
       om_put G (fst e) (om_emplace (case om_find G (fst e) of Some dsts \<Rightarrow> dsts | None \<Rightarrow> []) (snd e) 1)
     else G)"

definition S_CFG :: "ir_module \<Rightarrow> func \<Rightarrow> (nat \<Rightarrow> nat \<Rightarrow> nat) \<Rightarrow> scfg res" where
  "S_CFG m F weight =
     bindr (filter_res (is_exit m) (insts F)) (\<lambda>exits.
     bindr (filter_res (is_entry m F) (insts F)) (\<lambda>entries.
     Inr (fold back_edge (List.product exits entries) (scfg_edges m F weight))))"

subsection \<open>The cut and its double check\<close>

definition mp_problem :: "options \<Rightarrow> ir_module \<Rightarrow> analyses \<Rightarrow> func \<Rightarrow> (nat \<Rightarrow> nat \<Rightarrow> nat) \<Rightarrow> nat min_cut res" where
  "mp_problem opt m an F weight =
     bindr (add_sts opt m an F) (\<lambda>sts.
     bindr (S_CFG m F weight) (\<lambda>G.
     Inr (fold add_st (map (map os_of) sts) \<lparr>mc_G = G, mc_sts = [], mc_cut_edges = []\<rparr>)))"

definition cut_succs :: "ir_module \<Rightarrow> func \<Rightarrow> (nat \<times> nat) set \<Rightarrow> nat \<Rightarrow> nat list" where
  "cut_succs m F cutset u = os_of (filter (\<lambda>v. (u, v) \<notin> cutset) (successors_inst m F u))"

fun cut_particles :: "ir_module \<Rightarrow> func \<Rightarrow> (nat \<times> nat) set \<Rightarrow> nat list \<Rightarrow> nat list list \<Rightarrow> nat list res" where
  "cut_particles m F cutset S [] = Inr S"
| "cut_particles m F cutset S (T # Ts) =
     bindr (dfs_push Bad_pointer (insts F) (cut_succs m F cutset) (rev S) {} Map.empty) (\<lambda>(reach, _).
     cut_particles m F cutset (filter (\<lambda>t. t \<in> reach) T) Ts)"

definition mp_checkCutST :: "ir_module \<Rightarrow> func \<Rightarrow> (nat \<times> nat) set \<Rightarrow> nat list list \<Rightarrow> unit res" where
  "mp_checkCutST m F cutset st =
     assertr (length st \<ge> 2)
       (bindr (cut_particles m F cutset (hd st) (tl st)) (\<lambda>S. if S \<noteq> [] then Inl Aborted else Inr ()))"

definition mp_checkCut :: "bool \<Rightarrow> ir_module \<Rightarrow> func \<Rightarrow> nat list list list \<Rightarrow> (nat \<times> nat) set \<Rightarrow> unit res" where
  "mp_checkCut CHECKCUT m F sts cutset =
     (if \<not> CHECKCUT then Inr () else foldr_res (\<lambda>st _. mp_checkCutST m F cutset st) sts ())"

definition mp_cut :: "options \<Rightarrow> bool \<Rightarrow> (nat \<Rightarrow> bool) \<Rightarrow> ir_module \<Rightarrow> analyses \<Rightarrow> func \<Rightarrow> (nat \<Rightarrow> nat \<Rightarrow> nat) \<Rightarrow>
    (nat \<times> nat) list run" where
  "mp_cut opt CHECKCUT timeout m an F weight =
     bindo (Some (mp_problem opt m an F weight)) (\<lambda>A.
     bindo (run timeout A) (\<lambda>A'.
     bindo (Some (mp_checkCut CHECKCUT m F (mc_sts A) (set (mc_cut_edges A')))) (\<lambda>_.
     Some (Inr (mc_cut_edges A')))))"

subsection \<open>Mitigations\<close>

definition shouldCutEdge :: "ir_module \<Rightarrow> func \<Rightarrow> nat \<Rightarrow> nat \<Rightarrow> bool" where
  "shouldCutEdge m F src dst = (length (predecessors m F dst) > 1)"

text \<open>\<open>SplitEdge\<close> returns the module with the new block, and the block's address.\<close>

type_synonym split_edge = "nat \<Rightarrow> nat \<Rightarrow> nat \<Rightarrow> ir_module \<Rightarrow> ir_module \<times> nat"

definition getMitigationPoint :: "split_edge \<Rightarrow> nat \<Rightarrow> nat \<Rightarrow> nat \<Rightarrow> ir_module \<Rightarrow> (ir_module \<times> nat option) res" where
  "getMitigationPoint SplitEdge f src dst m =
     (let F = fn_of m f in
      if \<not> shouldCutEdge m F src dst then Inr (m, Some dst)
      else case (block_of F src, block_of F dst) of
        (Some B, Some D) \<Rightarrow>
          assertr (isTerminator m src)
         (assertr (list_all (is_MitigationInst m) (takeWhile (\<lambda>J. J \<noteq> dst) (bb_insts D)))
         (if dst \<noteq> hd (bb_insts D) then Inr (m, None)
          else (case SplitEdge f (bb_id B) (bb_id D) m of (m1, b) \<Rightarrow>
            (case front_of (fn_of m1 f) b of I # _ \<Rightarrow> Inr (m1, Some I) | [] \<Rightarrow> Inl Bad_pointer))))
      | _ \<Rightarrow> Inl Bad_pointer)"

definition mitigate_edge :: "options \<Rightarrow> split_edge \<Rightarrow> nat \<Rightarrow> nat \<times> nat \<Rightarrow> ir_module \<Rightarrow> ir_module res" where
  "mitigate_edge opt SplitEdge f e m =
     bindr (getMitigationPoint SplitEdge f (fst e) (snd e) m) (\<lambda>(m1, point).
     case point of None \<Rightarrow> Inr m1
     | Some I \<Rightarrow> bindr (CreateMitigation opt f I m1) (\<lambda>(m2, _). Inr m2))"

definition mp_runOnFunction :: "options \<Rightarrow> bool \<Rightarrow> bool \<Rightarrow> (nat \<Rightarrow> bool) \<Rightarrow> split_edge \<Rightarrow> (nat \<Rightarrow> nat) \<Rightarrow>
    (nat \<Rightarrow> nat option) \<Rightarrow> analyses \<Rightarrow> nat \<Rightarrow> ir_module \<Rightarrow> ir_module run" where
  "mp_runOnFunction opt whitelisted CHECKCUT timeout SplitEdge score LI an f m =
     (if whitelisted then Some (Inr m)
      else let F = fn_of m f in
      bindo (Some (getPublicLoads m an F)) (\<lambda>spec_pub_loads.
      bindo (Some (mp_stats m an F)) (\<lambda>_.
      bindo (mp_cut opt CHECKCUT timeout m an F (compute_edge_weight opt score LI F)) (\<lambda>cut_edges.
      Some (foldr_res (mitigate_edge opt SplitEdge f) cut_edges m)))))"

end
