(* ===== verification/MitigateSound.thy ===== *)
theory MitigateSound
  imports MitigatePass
begin

text \<open>
  The pass and the min-cut engine together: what \<open>MitigatePass\<close> gives to the engine is a
  well-formed problem over the instructions of the function (\<open>mp_problem_ok\<close>), its graph contains
  the control-flow graph, so no control-flow walk through a waypoint list is left
  (\<open>mp_cut_separates\<close>) and the double check never aborts.
\<close>

subsection \<open>The S-CFG\<close>

definition scfg_ok :: "nat set \<Rightarrow> scfg \<Rightarrow> bool" where
  "scfg_ok U G \<longleftrightarrow> om_ok G \<and> (\<forall>a ds. (a, ds) \<in> set G \<longrightarrow> a \<in> U \<and> om_ok ds \<and>
     (\<forall>b w. (b, w) \<in> set ds \<longrightarrow> b \<in> U \<and> 0 < w \<and> w < MAX_WEIGHT))"

definition scfg_rel :: "scfg \<Rightarrow> (nat \<times> nat) set" where
  "scfg_rel G = {(a, b). \<exists>ds. om_find G a = Some ds \<and> om_find ds b \<noteq> None}"

lemma scfg_ok_put:
  assumes "scfg_ok U G" "a \<in> U" "om_ok ds" "\<And>b w. (b, w) \<in> set ds \<Longrightarrow> b \<in> U \<and> 0 < w \<and> w < MAX_WEIGHT"
  shows "scfg_ok U (om_put G a ds)"
  unfolding scfg_ok_def
proof (intro conjI allI impI)
  show "om_ok (om_put G a ds)" using assms(1) by (simp add: scfg_ok_def)
  fix x ys assume "(x, ys) \<in> set (om_put G a ds)"
  then have c: "x = a \<and> ys = ds \<or> (x, ys) \<in> set G" using assms(1) by (auto simp: om_put_in scfg_ok_def)
  with assms show "x \<in> U" "om_ok ys" unfolding scfg_ok_def by blast+
  fix b w assume "(b, w) \<in> set ys"
  with c assms show "b \<in> U" "0 < w" "w < MAX_WEIGHT" unfolding scfg_ok_def by blast+
qed

definition row_of :: "scfg \<Rightarrow> nat \<Rightarrow> (nat \<times> nat) list" where
  "row_of G a = (case om_find G a of Some ds \<Rightarrow> ds | None \<Rightarrow> [])"

lemma row_of_ok:
  assumes "scfg_ok U G"
  shows "om_ok (row_of G a)" "(b, w) \<in> set (row_of G a) \<Longrightarrow> b \<in> U \<and> 0 < w \<and> w < MAX_WEIGHT"
proof -
  consider "row_of G a = []" | "(a, row_of G a) \<in> set G"
    by (cases "om_find G a") (auto simp: row_of_def dest: om_find_key)
  then show "om_ok (row_of G a)" "(b, w) \<in> set (row_of G a) \<Longrightarrow> b \<in> U \<and> 0 < w \<and> w < MAX_WEIGHT"
    using assms unfolding scfg_ok_def by (cases; simp)+
qed

lemma scfg_rel_put:
  "om_ok G \<Longrightarrow> scfg_rel (om_put G a ds) = {(x, y) \<in> scfg_rel G. x \<noteq> a} \<union> {a} \<times> {b. om_find ds b \<noteq> None}"
  by (auto simp: scfg_rel_def split: if_splits)

lemma scfg_rel_row: "(a, b) \<in> scfg_rel G \<longleftrightarrow> om_find (row_of G a) b \<noteq> None"
  by (auto simp: scfg_rel_def row_of_def split: option.splits)

lemma puts_row:
  assumes "om_ok ds" "\<forall>b w. (b, w) \<in> set ds \<longrightarrow> P b w" "\<forall>b \<in> set vs. P b (f b)"
  shows "om_ok (fold (\<lambda>b ds. om_put ds b (f b)) vs ds) \<and>
    (\<forall>b w. (b, w) \<in> set (fold (\<lambda>b ds. om_put ds b (f b)) vs ds) \<longrightarrow> P b w) \<and>
    (\<forall>b. om_find (fold (\<lambda>b ds. om_put ds b (f b)) vs ds) b \<noteq> None \<longleftrightarrow> b \<in> set vs \<or> om_find ds b \<noteq> None)"
  using assms
proof (induction vs arbitrary: ds)
  case (Cons v vs)
  from Cons.prems have "om_ok (om_put ds v (f v))" "\<forall>b w. (b, w) \<in> set (om_put ds v (f v)) \<longrightarrow> P b w"
    by (auto simp: om_put_in)
  from Cons.IH[OF this] Cons.prems show ?case by auto
qed simp

lemma scfg_row_law:
  assumes G: "scfg_ok U G" and src: "src \<in> U" and sub: "set (successors_inst m F src) \<subseteq> U"
    and w: "\<And>v. v \<in> set (successors_inst m F src) \<Longrightarrow> 0 < weight src v \<and> weight src v < MAX_WEIGHT"
  shows "scfg_ok U (scfg_row m F weight src G)"
    "scfg_rel (scfg_row m F weight src G) = scfg_rel G \<union> {src} \<times> set (successors_inst m F src)"
    "fst ` set (scfg_row m F weight src G) = insert src (fst ` set G)"
proof -
  define ds where "ds = fold (\<lambda>dst dsts. om_put dsts dst (weight src dst)) (successors_inst m F src) (row_of G src)"
  have row: "scfg_row m F weight src G = om_put G src ds"
    by (simp add: scfg_row_def ds_def row_of_def)
  have om: "om_ok G" using G by (simp add: scfg_ok_def)
  have r: "om_ok (row_of G src)" "\<forall>b w. (b, w) \<in> set (row_of G src) \<longrightarrow> b \<in> U \<and> 0 < w \<and> w < MAX_WEIGHT"
    using row_of_ok[OF G] by blast+
  have ds: "om_ok ds" "\<And>b w. (b, w) \<in> set ds \<Longrightarrow> b \<in> U \<and> 0 < w \<and> w < MAX_WEIGHT"
    "\<And>b. om_find ds b \<noteq> None \<longleftrightarrow> b \<in> set (successors_inst m F src) \<or> om_find (row_of G src) b \<noteq> None"
    using puts_row[of "row_of G src" "\<lambda>b w. b \<in> U \<and> 0 < w \<and> w < MAX_WEIGHT" "successors_inst m F src" "weight src"]
      r sub w unfolding ds_def by simp_all blast+
  show "scfg_ok U (scfg_row m F weight src G)" unfolding row by (rule scfg_ok_put[OF G src ds(1,2)])
  show "scfg_rel (scfg_row m F weight src G) = scfg_rel G \<union> {src} \<times> set (successors_inst m F src)"
    unfolding row scfg_rel_put[OF om] using ds(3) scfg_rel_row[of src _ G] by auto
  show "fst ` set (scfg_row m F weight src G) = insert src (fst ` set G)"
    unfolding row by (simp add: keys_om_put)
qed

definition weights_ok :: "ir_module \<Rightarrow> func \<Rightarrow> (nat \<Rightarrow> nat \<Rightarrow> nat) \<Rightarrow> bool" where
  "weights_ok m F weight \<longleftrightarrow> (\<forall>u v. (u, v) \<in> cfg m F \<longrightarrow> 0 < weight u v \<and> weight u v < MAX_WEIGHT)"

lemma scfg_edges_law:
  assumes wf: "wf_func m F" and w: "weights_ok m F weight"
  shows "scfg_ok (set (insts F)) (scfg_edges m F weight)" "scfg_rel (scfg_edges m F weight) = cfg m F"
    "fst ` set (scfg_edges m F weight) = set (insts F)"
proof -
  have "scfg_ok (set (insts F)) (fold (scfg_row m F weight) us G) \<and>
      scfg_rel (fold (scfg_row m F weight) us G) = scfg_rel G \<union> {(u, v). u \<in> set us \<and> v \<in> set (successors_inst m F u)} \<and>
      fst ` set (fold (scfg_row m F weight) us G) = set us \<union> fst ` set G"
    if "set us \<subseteq> set (insts F)" "scfg_ok (set (insts F)) G" for us G
    using that
  proof (induction us arbitrary: G)
    case (Cons u us)
    have u: "u \<in> set (insts F)" using Cons.prems(1) by simp
    note law = scfg_row_law[OF Cons.prems(2) u successors_in_insts[OF wf u], of weight]
    have "0 < weight u v \<and> weight u v < MAX_WEIGHT" if "v \<in> set (successors_inst m F u)" for v
      using w u that by (auto simp: cfg_def weights_ok_def)
    note law = law[OF this]
    from Cons.IH[OF _ law(1)] Cons.prems(1) show ?case by (auto simp: law(2,3))
  qed auto
  from this[of "insts F" "[]"]
  show "scfg_ok (set (insts F)) (scfg_edges m F weight)" "scfg_rel (scfg_edges m F weight) = cfg m F"
    "fst ` set (scfg_edges m F weight) = set (insts F)"
    by (auto simp: scfg_edges_def scfg_ok_def scfg_rel_def cfg_def om_find_def)
qed

lemma back_edge_law:
  assumes G: "scfg_ok U G" and e: "fst e \<in> U" "snd e \<in> U" "fst e \<in> fst ` set G"
  shows "scfg_ok U (back_edge e G)" "scfg_rel (back_edge e G) = scfg_rel G \<union> ({e} - Id)"
    "fst ` set (back_edge e G) = fst ` set G"
proof -
  have om: "om_ok G" using G by (simp add: scfg_ok_def)
  have r: "om_ok (row_of G (fst e))" "\<And>b w. (b, w) \<in> set (row_of G (fst e)) \<Longrightarrow> b \<in> U \<and> 0 < w \<and> w < MAX_WEIGHT"
    using row_of_ok[OF G] by blast+
  define ds where "ds = om_emplace (row_of G (fst e)) (snd e) 1"
  have M: "(0::nat) < 1" "1 < MAX_WEIGHT" by (simp_all add: MAX_WEIGHT_def)
  have ds: "om_ok ds" "\<And>b w. (b, w) \<in> set ds \<Longrightarrow> b \<in> U \<and> 0 < w \<and> w < MAX_WEIGHT"
    "\<And>b. om_find ds b \<noteq> None \<longleftrightarrow> b = snd e \<or> om_find (row_of G (fst e)) b \<noteq> None"
    using r e(2) M unfolding ds_def om_emplace_def
    by (cases "om_find (row_of G (fst e)) (snd e)"; simp add: om_put_in; blast)+
  have eq: "back_edge e G = (if fst e \<noteq> snd e then om_put G (fst e) ds else G)"
    by (simp add: back_edge_def ds_def row_of_def)
  show "scfg_ok U (back_edge e G)" unfolding eq using scfg_ok_put[OF G e(1) ds(1,2)] G by simp
  show "scfg_rel (back_edge e G) = scfg_rel G \<union> ({e} - Id)"
  proof (cases "fst e = snd e")
    case True
    then show ?thesis unfolding eq by (cases e) auto
  next
    case False
    then show ?thesis unfolding eq using ds(3) scfg_rel_row[of "fst e" _ G]
      by (cases e) (auto simp: scfg_rel_put[OF om])
  qed
  show "fst ` set (back_edge e G) = fst ` set G"
    unfolding eq using e(3) by (auto simp: keys_om_put)
qed

lemma filter_res_set: "filter_res p xs = Inr ys \<Longrightarrow> set ys = {x \<in> set xs. p x = Inr True}"
proof (induction xs arbitrary: ys)
  case (Cons x xs)
  then obtain b zs where "p x = Inr b" "filter_res p xs = Inr zs" "ys = (if b then x # zs else zs)"
    by (auto simp: bindr_eq_Inr)
  note b = this
  show ?case
  proof (rule set_eqI)
    fix y
    have "y \<in> set zs \<longleftrightarrow> y \<in> set xs \<and> p y = Inr True" unfolding Cons.IH[OF b(2)] by simp
    then show "y \<in> set ys \<longleftrightarrow> y \<in> {x' \<in> set (x # xs). p x' = Inr True}"
      using b(1,3) by (cases b) auto
  qed
qed simp

lemma filter_res_subset: "filter_res p xs = Inr ys \<Longrightarrow> set ys \<subseteq> set xs"
  by (simp add: filter_res_set)

lemma S_CFG_law:
  assumes wf: "wf_func m F" and w: "weights_ok m F weight"
    and G: "S_CFG m F weight = Inr G"
  shows "scfg_ok (set (insts F)) G" "cfg m F \<subseteq> scfg_rel G" "fst ` set G = set (insts F)"
    "scfg_rel G \<subseteq> cfg m F \<union> {(x, e). is_exit m x = Inr True \<and> is_entry m F e = Inr True}"
proof -
  from G obtain xs es where xs: "filter_res (is_exit m) (insts F) = Inr xs"
    and es: "filter_res (is_entry m F) (insts F) = Inr es"
    and eq: "G = fold back_edge (List.product xs es) (scfg_edges m F weight)"
    by (auto simp: S_CFG_def bindr_eq_Inr)
  have law: "scfg_ok (set (insts F)) (fold back_edge ps H) \<and> fst ` set (fold back_edge ps H) = set (insts F) \<and>
      scfg_rel H \<subseteq> scfg_rel (fold back_edge ps H) \<and> scfg_rel (fold back_edge ps H) \<subseteq> scfg_rel H \<union> set ps"
    if "scfg_ok (set (insts F)) H" "set ps \<subseteq> set (insts F) \<times> set (insts F)" "fst ` set H = set (insts F)" for ps H
    using that
  proof (induction ps arbitrary: H)
    case (Cons p ps)
    have p: "fst p \<in> set (insts F)" "snd p \<in> set (insts F)" using Cons.prems(2) by auto
    then have p3: "fst p \<in> fst ` set H" using Cons.prems(3) by simp
    note law = back_edge_law[OF Cons.prems(1) p p3]
    from Cons.IH[OF law(1)] Cons.prems(2,3) show ?case by (auto simp: law(2,3))
  qed auto
  have "set (List.product xs es) \<subseteq> set (insts F) \<times> set (insts F)"
    using filter_res_subset[OF xs] filter_res_subset[OF es] by auto
  note law = law[OF scfg_edges_law(1)[OF wf w] this scfg_edges_law(3)[OF wf w], folded eq]
  then show "scfg_ok (set (insts F)) G" "cfg m F \<subseteq> scfg_rel G" "fst ` set G = set (insts F)"
    using scfg_edges_law(2)[OF wf w] by auto
  have "scfg_rel G \<subseteq> cfg m F \<union> set (List.product xs es)"
    using law scfg_edges_law(2)[OF wf w] by auto
  then show "scfg_rel G \<subseteq> cfg m F \<union> {(x, e). is_exit m x = Inr True \<and> is_entry m F e = Inr True}"
    using filter_res_set[OF xs] filter_res_set[OF es] by auto
qed

subsection \<open>The waypoint lists\<close>

text \<open>The operands of a function's instructions are its own instructions, or no instructions.\<close>

definition closed_func :: "ir_module \<Rightarrow> func \<Rightarrow> bool" where
  "closed_func m F \<longleftrightarrow> insts F \<noteq> [] \<and> \<not> is_inst m null \<and>
     (\<forall>I \<in> set (insts F). \<forall>v \<in> set (operands (ins m I)). is_inst m v \<longrightarrow> v \<in> set (insts F))"

definition st_in :: "nat set \<Rightarrow> st \<Rightarrow> bool" where
  "st_in U st \<longleftrightarrow> length st \<in> {2, 3} \<and> (\<forall>S \<in> set st. set S \<subseteq> U)"

lemma closed_opnd:
  "closed_func m F \<Longrightarrow> I \<in> set (insts F) \<Longrightarrow> is_inst m (opnd (ins m I) k) \<Longrightarrow> opnd (ins m I) k \<in> set (insts F)"
  using opnd_in[of "ins m I" k] by (auto simp: closed_func_def)

lemma closed_computed:
  assumes "closed_func m F" "(V, v) \<in> (computed_from m)\<^sup>*" "is_inst m V \<Longrightarrow> V \<in> set (insts F)" "is_inst m v"
  shows "v \<in> set (insts F)"
  using assms(2,4,3)
proof (induction rule: rtrancl_induct)
  case (step y z)
  then show ?case using assms(1) by (auto simp: computed_from_def closed_func_def)
qed simp

lemma closed_incoming:
  assumes "closed_func m F" "incoming_list m V = Inr ops" "is_inst m V \<Longrightarrow> V \<in> set (insts F)"
    "v \<in> set ops" "is_inst m v"
  shows "v \<in> set (insts F)"
proof -
  from assms(2) obtain S where S: "get_incoming_loads m V = Inr S" "ops = sorted_list_of_set S"
    by (auto simp: incoming_list_def bindr_eq_Inr)
  have "finite S" using S(2) assms(4) by (metis empty_iff list.set(1) sorted_list_of_set.fold_insort_key.infinite)
  with S assms(4) have "v \<in> S" by simp
  with get_incoming_loads_result[OF S(1)] have "(V, v) \<in> (computed_from m)\<^sup>*" by simp
  from closed_computed[OF assms(1) this assms(3,5)] show ?thesis .
qed

lemma closed_sensitive:
  assumes "closed_func m F" "I \<in> set (insts F)" "get_transmitter_sensitive_operands m I = Inr ops"
    "p \<in> set ops" "is_inst m (snd p)"
  shows "snd p \<in> set (insts F)"
  using get_transmitter_sensitive_operands_in[OF assms(3), of "fst p" "snd p"] assms
  by (auto simp: closed_func_def)

lemma map_res_in: "map_res f xs = Inr ys \<Longrightarrow> x \<in> set xs \<Longrightarrow> \<exists>y. f x = Inr y"
  by (induction xs arbitrary: ys) (auto simp: bindr_eq_Inr)

lemma map_res_Ball:
  assumes "map_res f xs = Inr ys" "\<And>x y. x \<in> set xs \<Longrightarrow> f x = Inr y \<Longrightarrow> P y"
  shows "\<forall>y \<in> set ys. P y"
  using map_res_set[OF assms(1)] assms(2) by blast

lemma entry_in: "closed_func m F \<Longrightarrow> entry_inst F \<in> set (insts F)"
  by (cases "insts F") (auto simp: closed_func_def entry_inst_def)

lemma reach_back_in:
  assumes "wf_func m F" "I \<in> set (insts F)" "reach_back m F I = Inr reach"
  shows "reach \<subseteq> set (insts F)"
proof -
  from assms(3) obtain p where "dfs_push Bad_pointer (insts F) (predecessors m F) [I] {} Map.empty = Inr (reach, p)"
    by (auto simp: reach_back_def bindr_eq_Inr)
  from dfs_push_reach[OF this] have "reach = (srel (predecessors m F))\<^sup>+ `` {I}" by simp
  with srel_predecessors[OF assms(1,2)] show ?thesis by (auto dest: trancl_into_rtrancl)
qed

lemma getSources_in:
  assumes "wf_func m F" "I \<in> set (insts F)" "getSourcesForNCAAccess m F I = Inr sources"
  shows "set sources \<subseteq> set (insts F)"
proof -
  from assms(3) obtain reach xs where reach: "reach_back m F I = Inr reach"
    and xs: "sources = os_of (filter (\<lambda>J. J \<in> reach) xs)"
    by (auto simp: getSourcesForNCAAccess_def bindr_eq_Inr simp del: filter_append)
  from xs have "set sources \<subseteq> reach" by auto
  with reach reach_back_in[OF assms(1,2)] show ?thesis by blast
qed

lemma st_with_sources_in:
  assumes "wf_func m F" "I \<in> set (insts F)" "set sinks \<subseteq> set (insts F)"
    "st_with_sources opt m F expand I sinks = Inr st"
  shows "st_in (set (insts F)) st"
  using assms getSources_in[OF assms(1,2)]
  by (auto simp: st_with_sources_def st_in_def bindr_eq_Inr split: if_splits)

subsection \<open>Each kind of waypoint list\<close>

lemma stores_in:
  assumes "getNonConstantAddressSecretStores m an F = Inr (a, b, c)"
  shows "set a \<subseteq> set (insts F)" "set b \<subseteq> set (insts F)"
proof -
  from assms obtain cs where cs: "map_res (\<lambda>SI. bindr (classify_store m an SI) (\<lambda>c. Inr (SI, c))) (insts_of m F [Store]) = Inr cs"
    and ab: "a = os_of (map fst (filter (\<lambda>p. snd p = NtSec) cs))" "b = os_of (map fst (filter (\<lambda>p. snd p = TSec) cs))"
    by (auto simp: getNonConstantAddressSecretStores_def Let_def bindr_eq_Inr)
  have "\<forall>p \<in> set cs. fst p \<in> set (insts F)"
    by (rule map_res_Ball[OF cs]) (auto simp: bindr_eq_Inr insts_of_in)
  with ab show "set a \<subseteq> set (insts F)" "set b \<subseteq> set (insts F)" by auto
qed

lemma ncas_in:
  assumes "ncas opt m an F = Inr xs"
  shows "set xs \<subseteq> set (insts F)"
proof -
  from assms obtain a b c extra where 1: "getNonConstantAddressSecretStores m an F = Inr (a, b, c)"
    and 2: "ncas_all opt m an F = Inr extra" and xs: "xs = os_of (a @ b @ extra @ memcpy_inlines m F)"
    by (auto simp: ncas_def bindr_eq_Inr)
  have "set extra \<subseteq> set (insts F)"
    using 2 filter_res_subset by (fastforce simp: ncas_all_def insts_of_def split: if_splits)
  moreover have "set (memcpy_inlines m F) \<subseteq> set (insts F)" by (auto simp: memcpy_inlines_def)
  ultimately show ?thesis using stores_in[OF 1] xs by simp
qed

lemma sts_ncas_xmit_in:
  assumes "wf_func m F" "sts_ncas_xmit opt m an F = Inr sts"
  shows "\<forall>st \<in> set sts. st_in (set (insts F)) st"
proof -
  from assms(2) obtain xs where xs: "ncas opt m an F = Inr xs"
    and sts: "map_res (\<lambda>SI. bindr (reach_from m F [SI]) (\<lambda>seen.
       bindr (filter_res (vulnerable m seen) (filter (\<lambda>T. T \<in> seen) (os_of (insts F)))) (\<lambda>xmits.
       st_with_sources opt m F (ExpandSTs opt) SI xmits))) xs = Inr sts"
    by (auto simp: sts_ncas_xmit_def bindr_eq_Inr)
  show ?thesis
  proof (rule map_res_Ball[OF sts])
    fix SI st assume "SI \<in> set xs" and "bindr (reach_from m F [SI]) (\<lambda>seen.
       bindr (filter_res (vulnerable m seen) (filter (\<lambda>T. T \<in> seen) (os_of (insts F)))) (\<lambda>xmits.
       st_with_sources opt m F (ExpandSTs opt) SI xmits)) = Inr st"
    then obtain seen xmits where "filter_res (vulnerable m seen) (filter (\<lambda>T. T \<in> seen) (os_of (insts F))) = Inr xmits"
      and st: "st_with_sources opt m F (ExpandSTs opt) SI xmits = Inr st" by (auto simp: bindr_eq_Inr)
    then have "set xmits \<subseteq> set (insts F)" using filter_res_subset by fastforce
    with st ncas_in[OF xs] \<open>SI \<in> set xs\<close> show "st_in (set (insts F)) st"
      by (intro st_with_sources_in[OF assms(1)]) auto
  qed
qed

lemma sts_ncas_ctrl_in:
  assumes "sts_ncas_ctrl opt m an F = Inr sts"
  shows "\<forall>st \<in> set sts. st_in (set (insts F)) st"
proof -
  from assms obtain stores ctrls where "ncas opt m an F = Inr stores" "getCtrls m F = Inr ctrls" "sts = [[stores, ctrls]]"
    by (auto simp: sts_ncas_ctrl_def bindr_eq_Inr)
  moreover from this have "set ctrls \<subseteq> set (insts F)"
    using filter_res_subset by (fastforce simp: getCtrls_def bindr_eq_Inr)
  ultimately show ?thesis using ncas_in by (auto simp: st_in_def)
qed

lemma getTransmitters_law:
  assumes "getTransmitters m an F = Inr out"
  shows "om_ok out" "(I, vs) \<in> set out \<longleftrightarrow> I \<in> set (insts F) \<and> secret_operands m an I = Inr vs \<and> vs \<noteq> []"
proof -
  define f where "f = (\<lambda>I out. bindr (secret_operands m an I) (\<lambda>vs. Inr (if vs \<noteq> [] then om_put out I vs else out)))"
  have "foldr_res f Is s = Inr out \<Longrightarrow> om_ok s \<Longrightarrow>
      (\<forall>I vs. (I, vs) \<in> set s \<longrightarrow> secret_operands m an I = Inr vs \<and> vs \<noteq> []) \<Longrightarrow>
      om_ok out \<and> (\<forall>I vs. (I, vs) \<in> set out \<longleftrightarrow>
         (I, vs) \<in> set s \<or> I \<in> set Is \<and> secret_operands m an I = Inr vs \<and> vs \<noteq> [])" for Is s
  proof (induction Is arbitrary: s)
    case (Cons J Is)
    then obtain vs where vs: "secret_operands m an J = Inr vs"
      and r: "foldr_res f Is (if vs \<noteq> [] then om_put s J vs else s) = Inr out"
      by (auto simp: f_def bindr_eq_Inr)
    define s' where "s' = (if vs \<noteq> [] then om_put s J vs else s)"
    have s: "om_ok s'" "(I, ws) \<in> set s' \<longleftrightarrow> (I, ws) \<in> set s \<or> vs \<noteq> [] \<and> I = J \<and> ws = vs" for I ws
      using Cons.prems(2) Cons.prems(3)[rule_format, of J ws] vs by (auto simp: om_put_in s'_def)
    then have 3: "\<forall>I ws. (I, ws) \<in> set s' \<longrightarrow> secret_operands m an I = Inr ws \<and> ws \<noteq> []"
      using Cons.prems(3) vs by metis
    note law = Cons.IH[OF r[folded s'_def] s(1) 3]
    have "(I, ws) \<in> set s \<or> vs \<noteq> [] \<and> I = J \<and> ws = vs \<or> I \<in> set Is \<and> secret_operands m an I = Inr ws \<and> ws \<noteq> [] \<longleftrightarrow>
      (I, ws) \<in> set s \<or> I \<in> set (J # Is) \<and> secret_operands m an I = Inr ws \<and> ws \<noteq> []" for I ws
      using vs by auto
    with law s(2) show ?case by simp
  qed simp
  from this[of "insts F" "[]"] assms show "om_ok out"
    "(I, vs) \<in> set out \<longleftrightarrow> I \<in> set (insts F) \<and> secret_operands m an I = Inr vs \<and> vs \<noteq> []"
    by (simp_all add: getTransmitters_def f_def[symmetric] om_ok_def)
qed

lemma taints_at_in: "set (ST_taints_at F an v) \<subseteq> set (insts F)"
  by (auto simp: ST_taints_at_def)

lemma in_taints_at: "l \<in> set (ST_taints_at F an v) \<longleftrightarrow> l \<in> set (insts F) \<and> (v, l) \<in> an_taints an"
  by (auto simp: ST_taints_at_def)

text \<open>The lists for a transmitter: one per load that may have tainted one of its operands.\<close>

lemma sts_ncal_xmit_cases:
  assumes "sts_ncal_xmit opt m an F = Inr sts"
  obtains out where "getTransmitters m an F = Inr out"
    and "\<forall>st. st \<in> set sts \<longleftrightarrow> (\<exists>xmit vs v ncal. (xmit, vs) \<in> set out \<and> v \<in> set vs \<and> ncal \<in> set (ST_taints_at F an v) \<and>
      st_with_sources opt m F (ExpandSTs opt \<and> ncal \<noteq> entry_inst F) ncal [xmit] = Inr st)"
proof -
  define g where "g = (\<lambda>p. map_res (\<lambda>ncal. st_with_sources opt m F (ExpandSTs opt \<and> ncal \<noteq> entry_inst F) ncal [fst p])
     (os_of (concat (map (ST_taints_at F an) (snd p)))))"
  from assms obtain out stss where out: "getTransmitters m an F = Inr out" "map_res g out = Inr stss"
    and sts: "sts = concat stss"
    by (auto simp: sts_ncal_xmit_def g_def bindr_eq_Inr Let_def case_prod_unfold)
  have "st \<in> set sts \<longleftrightarrow> (\<exists>p \<in> set out. \<exists>l. g p = Inr l \<and> st \<in> set l)" for st
    unfolding sts set_concat using map_res_set[OF out(2)] by blast
  also have "\<dots> st \<longleftrightarrow> (\<exists>p \<in> set out. \<exists>ncal \<in> set (concat (map (ST_taints_at F an) (snd p))).
      st_with_sources opt m F (ExpandSTs opt \<and> ncal \<noteq> entry_inst F) ncal [fst p] = Inr st)" for st
  proof -
    have "(\<exists>l. g p = Inr l \<and> st \<in> set l) \<longleftrightarrow> (\<exists>ncal \<in> set (concat (map (ST_taints_at F an) (snd p))).
      st_with_sources opt m F (ExpandSTs opt \<and> ncal \<noteq> entry_inst F) ncal [fst p] = Inr st)" if p: "p \<in> set out" for p
    proof -
      obtain l where l: "g p = Inr l" using map_res_in[OF out(2) p] ..
      have "(\<exists>l. g p = Inr l \<and> st \<in> set l) \<longleftrightarrow> st \<in> set l" using l by simp
      also have "\<dots> \<longleftrightarrow> (\<exists>ncal \<in> set (concat (map (ST_taints_at F an) (snd p))).
        st_with_sources opt m F (ExpandSTs opt \<and> ncal \<noteq> entry_inst F) ncal [fst p] = Inr st)"
        using map_res_set[OF l[unfolded g_def], of st] unfolding set_os_of .
      finally show ?thesis .
    qed
    then show ?thesis by (intro bex_cong refl)
  qed
  finally have sts_iff: "\<And>st. st \<in> set sts \<longleftrightarrow> (\<exists>p \<in> set out. \<exists>ncal \<in> set (concat (map (ST_taints_at F an) (snd p))).
      st_with_sources opt m F (ExpandSTs opt \<and> ncal \<noteq> entry_inst F) ncal [fst p] = Inr st)" .
  have "(\<exists>p \<in> set out. \<exists>ncal \<in> set (concat (map (ST_taints_at F an) (snd p))). Q (fst p) ncal) \<longleftrightarrow>
      (\<exists>xmit vs v ncal. (xmit, vs) \<in> set out \<and> v \<in> set vs \<and> ncal \<in> set (ST_taints_at F an v) \<and> Q xmit ncal)" for Q
    by (force simp: Bex_def)
  from this[of "\<lambda>xmit ncal. st_with_sources opt m F (ExpandSTs opt \<and> ncal \<noteq> entry_inst F) ncal [xmit] = Inr _"]
  have "st \<in> set sts \<longleftrightarrow> (\<exists>xmit vs v ncal. (xmit, vs) \<in> set out \<and> v \<in> set vs \<and> ncal \<in> set (ST_taints_at F an v) \<and>
      st_with_sources opt m F (ExpandSTs opt \<and> ncal \<noteq> entry_inst F) ncal [xmit] = Inr st)" for st
    unfolding sts_iff .
  then show ?thesis by (intro that[OF out(1)] allI)
qed

lemma sts_ncal_xmit_in:
  assumes "wf_func m F" "sts_ncal_xmit opt m an F = Inr sts"
  shows "\<forall>st \<in> set sts. st_in (set (insts F)) st"
proof
  fix st assume st: "st \<in> set sts"
  from assms(2) obtain out where out: "getTransmitters m an F = Inr out"
    and sts: "\<forall>st. st \<in> set sts \<longleftrightarrow> (\<exists>xmit vs v ncal. (xmit, vs) \<in> set out \<and> v \<in> set vs \<and> ncal \<in> set (ST_taints_at F an v) \<and>
      st_with_sources opt m F (ExpandSTs opt \<and> ncal \<noteq> entry_inst F) ncal [xmit] = Inr st)"
    by (rule sts_ncal_xmit_cases)
  from st sts obtain xmit vs v ncal where x: "(xmit, vs) \<in> set out" "ncal \<in> set (ST_taints_at F an v)"
    "st_with_sources opt m F (ExpandSTs opt \<and> ncal \<noteq> entry_inst F) ncal [xmit] = Inr st" by blast
  have "xmit \<in> set (insts F)" using getTransmitters_law(2)[OF out] x(1) by blast
  then show "st_in (set (insts F)) st"
    using taints_at_in x(2) by (intro st_with_sources_in[OF assms(1) _ _ x(3)]) auto
qed

lemma sts_ncal_glob_in:
  assumes "sts_ncal_glob opt m an F = Inr sts"
  shows "\<forall>st \<in> set sts. st_in (set (insts F)) st"
proof -
  from assms obtain p stores where s: "filter_res p (insts_of m F [Store]) = Inr stores"
    and sts: "sts = concat (map (\<lambda>SI. map (\<lambda>LI. [[LI], [SI]]) (ST_taints_at F an (opnd (ins m SI) 0))) stores)"
    by (auto simp: sts_ncal_glob_def bindr_eq_Inr Let_def)
  from filter_res_subset[OF s] insts_of_in have "set stores \<subseteq> set (insts F)" by blast
  with sts taints_at_in show ?thesis by (fastforce simp: st_in_def)
qed

lemma sts_entry_xmit_in:
  assumes "closed_func m F" "sts_entry_xmit opt m an F = Inr sts"
  shows "\<forall>st \<in> set sts. st_in (set (insts F)) st"
proof -
  from assms(2) obtain p1 p2 P1 P2 pre post where
    "filter_res p1 (filter P1 (insts F)) = Inr pre" "filter_res p2 (filter P2 (insts F)) = Inr post"
    "sts = [[[entry_inst F], os_of (pre @ post)]]"
    by (auto simp: sts_entry_xmit_def bindr_eq_Inr)
  moreover from this have "set pre \<subseteq> set (insts F)" "set post \<subseteq> set (insts F)"
    using filter_res_subset by fastforce+
  ultimately show ?thesis using entry_in[OF assms(1)] by (auto simp: st_in_def)
qed

lemma sts_call_xmit_in:
  assumes "sts_call_xmit m F = Inr sts"
  shows "\<forall>st \<in> set sts. st_in (set (insts F)) st"
proof -
  from assms obtain p q xmits calls where "filter_res p (insts F) = Inr xmits"
    "filter_res q (insts_of m F CallBase) = Inr calls" "sts = [[os_of calls, os_of xmits]]"
    by (auto simp: sts_call_xmit_def bindr_eq_Inr)
  moreover from this have "set xmits \<subseteq> set (insts F)" "set calls \<subseteq> set (insts F)"
    using filter_res_subset insts_of_in by blast+
  ultimately show ?thesis by (auto simp: st_in_def)
qed

lemma before_in:
  assumes "wf_func m F" "closed_func m F" "I \<in> set (insts F)"
  shows "set (before m F I) \<subseteq> set (insts F)"
  using predecessors_in_insts[OF assms(1,3)] entry_in[OF assms(2)] by (simp add: before_def Let_def)

lemma loads_of_xmit_in:
  assumes "closed_func m F" "I \<in> set (insts F)" "loads_of_xmit m I = Inr ls"
  shows "set ls \<subseteq> set (insts F)"
proof
  fix L assume L: "L \<in> set ls"
  from assms(3) obtain ops lss where ops: "get_transmitter_sensitive_operands m I = Inr ops"
    and lss: "map_res (\<lambda>p. incoming_list m (snd p)) ops = Inr lss"
    and ls: "ls = os_of (filter (\<lambda>L. isa m L [Load]) (concat lss))"
    by (auto simp: loads_of_xmit_def bindr_eq_Inr)
  from L ls obtain l where l: "l \<in> set lss" "L \<in> set l" and load: "isa m L [Load]" by auto
  with map_res_set[OF lss] obtain p where p: "p \<in> set ops" "incoming_list m (snd p) = Inr l" by blast
  from load have "is_inst m L" by (simp add: isa_def)
  with closed_incoming[OF assms(1) p(2) closed_sensitive[OF assms(1,2) ops p(1)] l(2)] show "L \<in> set (insts F)" by blast
qed

lemma sts_load_xmit_in:
  assumes wf: "wf_func m F" and cl: "closed_func m F" and "sts_load_xmit opt m an F = Inr sts"
  shows "\<forall>st \<in> set sts. st_in (set (insts F)) st"
proof -
  from assms(3) obtain sts1 sts2 calls where
    1: "map_res (\<lambda>xmit. bindr (loads_of_xmit m xmit) (\<lambda>ls. Inr [ls, [xmit]])) (insts F) = Inr sts1"
    and 2: "sts_call_xmit m F = Inr sts2" and 3: "filter_res (not_direct_only m) (insts_of m F CallBase) = Inr calls"
    and sts: "sts = sts1 @ sts2 @ map (\<lambda>ret. [before m F ret, [ret]]) (insts_of m F [Ret]) @
       map (\<lambda>call. [before m F call, [call]]) calls"
    by (auto simp: sts_load_xmit_def bindr_eq_Inr)
  have "\<forall>st \<in> set sts1. st_in (set (insts F)) st"
  proof (rule map_res_Ball[OF 1])
    fix x st assume x: "x \<in> set (insts F)" and "bindr (loads_of_xmit m x) (\<lambda>ls. Inr [ls, [x]]) = Inr st"
    then obtain ls where "loads_of_xmit m x = Inr ls" "st = [ls, [x]]" by (auto simp: bindr_eq_Inr)
    with loads_of_xmit_in[OF cl x] x show "st_in (set (insts F)) st" by (simp add: st_in_def)
  qed
  moreover have "st_in (set (insts F)) [before m F I, [I]]" if "I \<in> set (insts F)" for I
    using that before_in[OF wf cl that] by (simp add: st_in_def)
  moreover have "set calls \<subseteq> set (insts F)" using filter_res_subset[OF 3] insts_of_in by blast
  ultimately show ?thesis using sts_call_xmit_in[OF 2] insts_of_in sts by fastforce
qed

lemma add_sts_law:
  assumes "add_sts opt m an F = Inr sts"
  obtains sts1 sts2 sts3 sts4 sts5 sts6 sts7 where
    "(if en_ncas_xmit opt then sts_ncas_xmit opt m an F else Inr []) = Inr sts1"
    "(if en_ncas_ctrl opt then sts_ncas_ctrl opt m an F else Inr []) = Inr sts2"
    "(if en_ncal_xmit opt then sts_ncal_xmit opt m an F else Inr []) = Inr sts3"
    "(if en_ncal_glob opt then sts_ncal_glob opt m an F else Inr []) = Inr sts4"
    "(if en_entry_xmit opt then sts_entry_xmit opt m an F else Inr []) = Inr sts5"
    "(if en_load_xmit opt then sts_load_xmit opt m an F else Inr []) = Inr sts6"
    "(if en_call_xmit opt then sts_call_xmit m F else Inr []) = Inr sts7"
    "sts = sts1 @ sts2 @ sts3 @ sts4 @ sts5 @ sts6 @ sts7"
  using assms unfolding add_sts_def bindr_eq_Inr by blast

lemma opt_sts:
  assumes "(if b then x else Inr []) = Inr sts" "\<And>sts. x = Inr sts \<Longrightarrow> \<forall>st \<in> set sts. P st"
  shows "\<forall>st \<in> set sts. P st"
  using assms by (cases b) auto

lemma add_sts_in:
  assumes wf: "wf_func m F" and cl: "closed_func m F" and "add_sts opt m an F = Inr sts"
  shows "\<forall>st \<in> set sts. st_in (set (insts F)) st"
  using assms(3)
proof (rule add_sts_law)
  fix sts1 sts2 sts3 sts4 sts5 sts6 sts7
  assume "(if en_ncas_xmit opt then sts_ncas_xmit opt m an F else Inr []) = Inr sts1"
    "(if en_ncas_ctrl opt then sts_ncas_ctrl opt m an F else Inr []) = Inr sts2"
    "(if en_ncal_xmit opt then sts_ncal_xmit opt m an F else Inr []) = Inr sts3"
    "(if en_ncal_glob opt then sts_ncal_glob opt m an F else Inr []) = Inr sts4"
    "(if en_entry_xmit opt then sts_entry_xmit opt m an F else Inr []) = Inr sts5"
    "(if en_load_xmit opt then sts_load_xmit opt m an F else Inr []) = Inr sts6"
    "(if en_call_xmit opt then sts_call_xmit m F else Inr []) = Inr sts7"
  note sts = this
  note s = opt_sts[OF sts(1) sts_ncas_xmit_in[OF wf]] opt_sts[OF sts(2) sts_ncas_ctrl_in]
    opt_sts[OF sts(3) sts_ncal_xmit_in[OF wf]] opt_sts[OF sts(4) sts_ncal_glob_in]
    opt_sts[OF sts(5) sts_entry_xmit_in[OF cl]] opt_sts[OF sts(6) sts_load_xmit_in[OF wf cl]]
    opt_sts[OF sts(7) sts_call_xmit_in]
  assume "sts = sts1 @ sts2 @ sts3 @ sts4 @ sts5 @ sts6 @ sts7"
  with s show ?thesis by (simp add: ball_Un)
qed

subsection \<open>The whole problem\<close>

definition mp_ok :: "ir_module \<Rightarrow> func \<Rightarrow> (nat \<Rightarrow> nat \<Rightarrow> nat) \<Rightarrow> bool" where
  "mp_ok m F weight \<longleftrightarrow> wf_func m F \<and> closed_func m F \<and> weights_ok m F weight \<and> 3 * length (insts F) < 2 ^ 32"

lemma mp_problemE:
  assumes "mp_problem opt m an F weight = Inr mc"
  obtains sts G where "add_sts opt m an F = Inr sts" "S_CFG m F weight = Inr G"
    "mc = \<lparr>mc_G = G, mc_sts = map (map os_of) sts, mc_cut_edges = []\<rparr>"
proof -
  have "fold add_st xs mc0 = mc0\<lparr>mc_sts := mc_sts mc0 @ xs\<rparr>" for xs and mc0 :: "nat min_cut"
    by (induction xs arbitrary: mc0) (auto simp: add_st_def)
  with assms that show ?thesis by (auto simp: mp_problem_def bindr_eq_Inr)
qed

lemma mp_problem_ok:
  assumes ok: "mp_ok m F weight" and p: "mp_problem opt m an F weight = Inr mc"
  shows "mc_ok mc" "cfg m F \<subseteq> mc_edges mc"
    "mc_edges mc \<subseteq> cfg m F \<union> {(x, e). is_exit m x = Inr True \<and> is_entry m F e = Inr True}"
    "mc_edges mc \<subseteq> set (insts F) \<times> set (insts F)"
proof -
  from ok have wf: "wf_func m F" "closed_func m F" "weights_ok m F weight" "3 * length (insts F) < 2 ^ 32"
    by (simp_all add: mp_ok_def)
  from p obtain sts G where sts: "add_sts opt m an F = Inr sts" and G: "S_CFG m F weight = Inr G"
    and mc: "mc = \<lparr>mc_G = G, mc_sts = map (map os_of) sts, mc_cut_edges = []\<rparr>" by (rule mp_problemE)
  note law = S_CFG_law[OF wf(1,3) G]
  have rel: "mc_edges mc = scfg_rel G"
    by (auto simp: mc mc_edges_def mc_weight_def scfg_rel_def split: option.splits)
  show "cfg m F \<subseteq> mc_edges mc"
    "mc_edges mc \<subseteq> cfg m F \<union> {(x, e). is_exit m x = Inr True \<and> is_entry m F e = Inr True}"
    unfolding rel using law(2,4) .
  show "mc_edges mc \<subseteq> set (insts F) \<times> set (insts F)"
  proof
    fix e assume "e \<in> mc_edges mc"
    then obtain a b ds w where e: "e = (a, b)" "om_find G a = Some ds" "om_find ds b = Some w"
      by (auto simp: rel scfg_rel_def split: option.splits)
    then have "(a, ds) \<in> set G" "(b, w) \<in> set ds" by (simp_all add: om_find_def map_of_SomeD)
    with law(1) law(3) e(1) show "e \<in> set (insts F) \<times> set (insts F)" unfolding scfg_ok_def by force
  qed
  have nodes: "set (getNodes mc) = set (insts F)"
  proof
    have "b \<in> set (insts F)" if "(a, ds) \<in> set G" "(b, w) \<in> set ds" for a ds b w
      using law(1) that unfolding scfg_ok_def by blast
    then have "insert (fst p) (fst ` set (snd p)) \<subseteq> set (insts F)" if "p \<in> set G" for p
      using that law(3) by (cases p) force
    then show "set (getNodes mc) \<subseteq> set (insts F)" unfolding set_getNodes mc by (simp add: UN_subset_iff)
    show "set (insts F) \<subseteq> set (getNodes mc)" unfolding set_getNodes mc using law(3)[symmetric] by auto
  qed
  have "distinct (getNodes mc)" by (simp add: getNodes_def os_ok_distinct)
  then have "length (getNodes mc) = card (set (insts F))" by (metis nodes distinct_card)
  then have len: "length (getNodes mc) \<le> length (insts F)" by (simp add: card_length)
  have lim: "length (getNodes mc) * k < 2 ^ 32" if "k \<le> 3" for k
  proof -
    have "length (getNodes mc) * k \<le> length (insts F) * 3" using len that by (intro mult_le_mono)
    with wf(4) show ?thesis by simp
  qed
  have st: "2 \<le> length st \<and> length (getNodes mc) * length st < 2 ^ 32 \<and> (\<forall>S \<in> set st. set S \<subseteq> set (getNodes mc))"
    if "st \<in> set (mc_sts mc)" for st
  proof -
    from that obtain st0 where st0: "st0 \<in> set sts" "st = map os_of st0" unfolding mc by auto
    with add_sts_in[OF wf(1,2) sts] have "st_in (set (insts F)) st0" by blast
    then show ?thesis unfolding nodes st0(2) using lim[of "length st0"] by (auto simp: st_in_def)
  qed
  have "mc_G mc = G" by (simp add: mc)
  with law(1) have "om_ok (mc_G mc)" "\<forall>(a, ds) \<in> set (mc_G mc). om_ok ds \<and> (\<forall>(b, w) \<in> set ds. 0 < w \<and> w < MAX_WEIGHT)"
    by (auto simp: scfg_ok_def)
  with lim[of 1] st show "mc_ok mc" unfolding mc_ok_def by simp
qed

subsection \<open>The double check\<close>

lemma srel_cut_succs:
  assumes "wf_func m F" "x \<in> set (insts F)"
  shows "(x, y) \<in> (srel (cut_succs m F C))\<^sup>+ \<longleftrightarrow> (x, y) \<in> (cfg m F - C)\<^sup>+"
proof -
  have in_cfg: "(u, v) \<in> srel (cut_succs m F C) \<longleftrightarrow> (u, v) \<in> cfg m F - C" if "u \<in> set (insts F)" for u v
    using that by (auto simp: cut_succs_def cfg_def)
  have closed: "v \<in> set (insts F)" if "(u, v) \<in> cfg m F" for u v
    using that successors_in_insts[OF assms(1)] by (auto simp: cfg_def)
  show ?thesis
  proof
    assume "(x, y) \<in> (srel (cut_succs m F C))\<^sup>+"
    then have "(x, y) \<in> (cfg m F - C)\<^sup>+ \<and> y \<in> set (insts F)"
    proof (induction rule: trancl_induct)
      case (base y)
      with in_cfg[OF assms(2)] closed show ?case by blast
    next
      case (step y z)
      with in_cfg closed show ?case by (blast intro: trancl_into_trancl)
    qed
    then show "(x, y) \<in> (cfg m F - C)\<^sup>+" ..
  next
    have "cfg m F - C \<subseteq> srel (cut_succs m F C)"
      using in_cfg by (auto simp: cfg_def)
    then show "(x, y) \<in> (cfg m F - C)\<^sup>+ \<Longrightarrow> (x, y) \<in> (srel (cut_succs m F C))\<^sup>+"
      using trancl_mono by blast
  qed
qed

lemma cut_particles_law:
  assumes wf: "wf_func m F" and S: "set S \<subseteq> set (insts F)" and Ts: "\<forall>T \<in> set Ts. set T \<subseteq> set (insts F)"
  shows "\<exists>S'. cut_particles m F C S Ts = Inr S' \<and> set S' = reach_through (cfg m F - C) (set S) (map set Ts)"
  using S Ts
proof (induction Ts arbitrary: S)
  case (Cons T Ts)
  have "\<And>u. u \<in> set (insts F) \<Longrightarrow> set (cut_succs m F C u) \<subseteq> set (insts F)"
    using successors_in_insts[OF wf] by (auto simp: cut_succs_def)
  then obtain reach p where d: "dfs_push Bad_pointer (insts F) (cut_succs m F C) (rev S) {} Map.empty = Inr (reach, p)"
    using dfs_push_total[of "rev S" "insts F" "cut_succs m F C" Bad_pointer "{}" Map.empty] Cons.prems(1) by auto
  have "reach = (srel (cut_succs m F C))\<^sup>+ `` set S" using dfs_push_reach[OF d] by simp
  then have r: "reach = (cfg m F - C)\<^sup>+ `` set S"
    using srel_cut_succs[OF wf] Cons.prems(1) by blast
  let ?S = "filter (\<lambda>t. t \<in> reach) T"
  from Cons.IH[of ?S] Cons.prems obtain S' where "cut_particles m F C ?S Ts = Inr S'"
    "set S' = reach_through (cfg m F - C) (set ?S) (map set Ts)" by auto
  moreover have "set ?S = set T \<inter> (cfg m F - C)\<^sup>+ `` set S" using r by auto
  ultimately show ?case using d by simp
qed simp

lemma mp_checkCutST_law:
  assumes "wf_func m F" "length st \<ge> 2" "\<forall>S \<in> set st. set S \<subseteq> set (insts F)"
  shows "mp_checkCutST m F C st =
     (if \<exists>x \<in> set (hd st). st_walk (cfg m F - C) (map set (tl st)) x then Inl Aborted else Inr ())"
proof -
  have "st \<noteq> []" using assms(2) by auto
  then obtain S' where S': "cut_particles m F C (hd st) (tl st) = Inr S'"
    "set S' = reach_through (cfg m F - C) (set (hd st)) (map set (tl st))"
    using cut_particles_law[OF assms(1), of "hd st" "tl st" C] assms(3) by (auto dest: list.set_sel)
  have "S' \<noteq> [] \<longleftrightarrow> reach_through (cfg m F - C) (set (hd st)) (map set (tl st)) \<noteq> {}"
    using S'(2) by (cases S') auto
  also have "\<dots> \<longleftrightarrow> (\<exists>x \<in> set (hd st). st_walk (cfg m F - C) (map set (tl st)) x)"
    by (rule reach_through_walk)
  finally show ?thesis using S'(1) assms(2) by (simp add: mp_checkCutST_def)
qed

subsection \<open>The cut\<close>

lemma st_walk_sub: "st_walk E Ws x \<Longrightarrow> E \<subseteq> E' \<Longrightarrow> st_walk E' Ws x"
  by (induction E Ws x rule: st_walk.induct) (auto dest: trancl_mono)

lemma mp_cut_law:
  assumes ok: "mp_ok m F weight" and cut: "mp_cut opt CHECKCUT timeout m an F weight = Some (Inr es)"
  obtains sts where "add_sts opt m an F = Inr sts"
    and "set es \<subseteq> cfg m F \<union> {(x, e). is_exit m x = Inr True \<and> is_entry m F e = Inr True}"
    and "\<forall>st \<in> set sts. \<forall>x \<in> set (hd st). \<not> st_walk (cfg m F - set es) (map set (tl st)) x"
    and "distinct es" and "set es \<subseteq> set (insts F) \<times> set (insts F)"
proof -
  from cut obtain mc mc' where mc: "mp_problem opt m an F weight = Inr mc" and r: "run timeout mc = Some (Inr mc')"
    and es: "es = mc_cut_edges mc'"
    by (auto simp: mp_cut_def bindo_eq_Inr)
  from mc obtain sts G where sts: "add_sts opt m an F = Inr sts"
    and eq: "mc = \<lparr>mc_G = G, mc_sts = map (map os_of) sts, mc_cut_edges = []\<rparr>" by (rule mp_problemE)
  note p = mp_problem_ok[OF ok mc]
  from run_result[OF p(1), of timeout] r es have res: "set es \<subseteq> mc_edges mc"
    and d: "distinct es" and res2: "\<forall>st \<in> set (mc_sts mc). \<forall>x \<in> set (hd st). \<not> st_walk (mc_edges mc - set es) (map set (tl st)) x"
    by (auto simp: eq)
  have "\<not> st_walk (cfg m F - set es) (map set (tl st)) x" if "st \<in> set sts" "x \<in> set (hd st)" for st x
  proof -
    from ok have "wf_func m F" "closed_func m F" by (auto simp: mp_ok_def)
    with add_sts_in[OF _ _ sts] that(1) have "st \<noteq> []" by (auto simp: st_in_def)
    then have "hd (map os_of st) = os_of (hd st)" "tl (map os_of st) = map os_of (tl st)"
      by (simp_all add: hd_map map_tl)
    with res2 that have "\<not> st_walk (mc_edges mc - set es) (map set (tl st)) x"
      by (fastforce simp: eq comp_def)
    then show ?thesis using st_walk_sub[of "cfg m F - set es" _ x "mc_edges mc - set es"] p(2) by blast
  qed
  with sts res d p(3,4) that show ?thesis by blast
qed

lemma mp_checkCut_passes:
  assumes ok: "mp_ok m F weight" and mc: "mp_problem opt m an F weight = Inr mc"
    and r: "run timeout mc = Some (Inr mc')"
  shows "mp_checkCut CHECKCUT m F (mc_sts mc) (set (mc_cut_edges mc')) = Inr ()"
proof -
  from mc obtain sts G where sts: "add_sts opt m an F = Inr sts"
    and eq: "mc = \<lparr>mc_G = G, mc_sts = map (map os_of) sts, mc_cut_edges = []\<rparr>" by (rule mp_problemE)
  from ok have wf: "wf_func m F" "closed_func m F" by (simp_all add: mp_ok_def)
  have "mp_cut opt False timeout m an F weight = Some (Inr (mc_cut_edges mc'))"
    using mc r by (simp add: mp_cut_def mp_checkCut_def)
  from mp_cut_law[OF ok this] sts have walk:
    "\<forall>st \<in> set sts. \<forall>x \<in> set (hd st). \<not> st_walk (cfg m F - set (mc_cut_edges mc')) (map set (tl st)) x"
    by (metis sum.inject(2))
  have one: "mp_checkCutST m F (set (mc_cut_edges mc')) (map os_of st) = Inr ()" if "st \<in> set sts" for st
  proof -
    have st: "st_in (set (insts F)) st" using add_sts_in[OF wf sts] that by blast
    then have "st \<noteq> []" by (auto simp: st_in_def)
    then have hd: "hd (map os_of st) = os_of (hd st)" "tl (map os_of st) = map os_of (tl st)"
      by (simp_all add: hd_map map_tl)
    have st2: "length (map os_of st) \<ge> 2" "\<forall>S \<in> set (map os_of st). set S \<subseteq> set (insts F)"
      using st by (auto simp: st_in_def)
    have "map set (map os_of (tl st)) = map set (tl st)" by (simp add: comp_def)
    with walk that have "\<not> (\<exists>x \<in> set (hd (map os_of st)). st_walk (cfg m F - set (mc_cut_edges mc')) (map set (tl (map os_of st))) x)"
      unfolding hd by (simp add: comp_def)
    then show ?thesis using mp_checkCutST_law[OF wf(1) st2] by simp
  qed
  have "foldr_res (\<lambda>st _. mp_checkCutST m F (set (mc_cut_edges mc')) st) ss () = Inr ()"
    if "\<And>st. st \<in> set ss \<Longrightarrow> mp_checkCutST m F (set (mc_cut_edges mc')) st = Inr ()" for ss
    using that by (induction ss) auto
  from this[of "map (map os_of) sts"] one show ?thesis by (auto simp: mp_checkCut_def eq)
qed

end
