(* ===== verification/Fence.thy ===== *)
theory Fence
  imports MitigateSound
begin

text \<open>
  What the inserted \<open>lfence\<close>s do. \<open>hops\<close> are the steps between the instructions of the original
  function that the edited function can still make without executing a mitigation; every mitigation
  removes the steps into the instruction it stands before (\<open>mitigate_at_hops\<close>), so at the end the
  walks that avoid all mitigations also avoid all cut edges.
\<close>

subsection \<open>One mitigation\<close>

text \<open>Edges that do not leave a mitigation.\<close>

definition free_cfg :: "ir_module \<Rightarrow> func \<Rightarrow> (nat \<times> nat) set" where
  "free_cfg m F = {(u, v). (u, v) \<in> cfg m F \<and> \<not> is_MitigationInst m u}"

inductive via :: "(nat \<times> nat) set \<Rightarrow> nat set \<Rightarrow> nat \<Rightarrow> nat \<Rightarrow> bool" for E :: "(nat \<times> nat) set" and U :: "nat set" where
  step: "(u, v) \<in> E \<Longrightarrow> v \<in> U \<Longrightarrow> via E U u v"
| hop: "(u, w) \<in> E \<Longrightarrow> w \<notin> U \<Longrightarrow> via E U w v \<Longrightarrow> via E U u v"

inductive_cases viaE: "via E U u v"

definition hops :: "ir_module \<Rightarrow> func \<Rightarrow> nat set \<Rightarrow> (nat \<times> nat) set" where
  "hops m F U = {(u, v). u \<in> U \<and> via (free_cfg m F) U u v}"

lemma via_target: "via E U u v \<Longrightarrow> v \<in> U"
  by (induction rule: via.induct) auto

lemma is_MitigationInst_cong: "vals m u = vals m' u \<Longrightarrow> is_MitigationInst m u = is_MitigationInst m' u"
  by (simp add: is_MitigationInst_def intrinsic_id_def isa_def is_inst_def ins_def)

lemma lfence_is_mitigation:
  "ins m L = intrinsic_call (x86 sse2_lfence) fl \<Longrightarrow> is_inst m L \<Longrightarrow> is_MitigationInst m L"
  by (simp add: is_MitigationInst_def intrinsic_id_def isa_def intrinsic_call_def inst0_def)

text \<open>An inserted instruction leads nowhere but to the one it stands before.\<close>

lemma insert_before_via:
  assumes ok: "edit_ok m f" and e: "insert_before f J i m = (m', a)" and i: "opc i \<notin> set Terminator"
    and J: "J \<in> set (insts (fn_of m f))" "J \<in> U" and U: "U \<subseteq> set (insts (fn_of m f))"
    and v: "via (free_cfg m' (fn_of m' f)) U u v" and u: "u \<noteq> a"
  shows "via (free_cfg m (fn_of m f)) U u v" "v = J \<Longrightarrow> \<not> is_MitigationInst m' a"
proof -
  note law = insert_before_law[OF ok e i]
  have c: "(x, y) \<in> cfg m' (fn_of m' f) \<longleftrightarrow> (x, y) \<in> cfg m (fn_of m f) \<and> y \<noteq> J \<or> (x, J) \<in> cfg m (fn_of m f) \<and> y = a \<or> x = a \<and> y = J"
    for x y using insert_before_cfg[OF ok e i J(1)] by auto
  have fresh: "a \<notin> set (insts (fn_of m f))" "f \<notin> set (insts (fn_of m f))"
    using ok wf_func_is_inst[of m "fn_of m f"] by (auto simp: edit_ok_def law(3))
  have mit: "is_MitigationInst m' x = is_MitigationInst m x" if "(x, y) \<in> cfg m (fn_of m f)" for x y
  proof -
    have "x \<in> set (insts (fn_of m f))" using that by (simp add: cfg_def)
    then have "x \<noteq> a" "x \<noteq> f" using fresh by auto
    then show ?thesis using law(6) by (intro is_MitigationInst_cong) simp
  qed
  have "u \<noteq> a \<longrightarrow> via (free_cfg m (fn_of m f)) U u v \<and> (v = J \<longrightarrow> \<not> is_MitigationInst m' a)"
    "u = a \<longrightarrow> v = J \<and> \<not> is_MitigationInst m' a"
    using v
  proof (induction rule: via.induct)
    case (step u v)
    {
      case 1
      have "v \<noteq> a" using step(2) U fresh by auto
      with step c have "u \<noteq> a \<Longrightarrow> v \<noteq> J \<and> (u, v) \<in> cfg m (fn_of m f)" by (auto simp: free_cfg_def)
      with step mit show ?case by (auto simp: free_cfg_def intro!: via.step)
    next
      case 2
      have "(a, y) \<notin> cfg m (fn_of m f)" for y using fresh by (simp add: cfg_def)
      with step c J U fresh show ?case by (auto simp: free_cfg_def)
    }
  next
    case (hop u w v)
    {
      case 1
      show ?case
      proof (cases "w = a")
        case True
        with hop.IH(2) have w: "v = J" "\<not> is_MitigationInst m' a" by blast+
        show ?thesis
        proof (intro impI conjI)
          assume "u \<noteq> a"
          have "(u, a) \<notin> cfg m (fn_of m f)" using cfg_in_insts[of m "fn_of m f" u a] ok fresh(1)
            by (auto simp: edit_ok_def cfg_def)
          with hop(1) True c \<open>u \<noteq> a\<close> have "(u, J) \<in> cfg m (fn_of m f)" "\<not> is_MitigationInst m' u"
            by (auto simp: free_cfg_def)
          then have "(u, J) \<in> free_cfg m (fn_of m f)" using mit by (simp add: free_cfg_def)
          then show "via (free_cfg m (fn_of m f)) U u v" unfolding w(1) using J(2) by (rule via.step)
          show "\<not> is_MitigationInst m' a" by (rule w(2))
        qed
      next
        case False
        have "w \<noteq> J" using hop(2) J(2) by auto
        with hop(1) c False have "u \<noteq> a \<Longrightarrow> (u, w) \<in> cfg m (fn_of m f) \<and> \<not> is_MitigationInst m' u" by (auto simp: free_cfg_def)
        with mit have "u \<noteq> a \<Longrightarrow> (u, w) \<in> free_cfg m (fn_of m f)" by (auto simp: free_cfg_def)
        with hop(2) hop.IH(1) False show ?thesis by (auto intro: via.hop)
      qed
    next
      case 2
      have "(a, y) \<notin> cfg m (fn_of m f)" for y using fresh by (simp add: cfg_def)
      with hop(1,2) c J(2) have "u \<noteq> a" by (auto simp: free_cfg_def)
      then show ?case by simp
    }
  qed
  with u show "via (free_cfg m (fn_of m f)) U u v" "v = J \<Longrightarrow> \<not> is_MitigationInst m' a" by blast+
qed

definition edited :: "ir_module \<Rightarrow> ir_module \<Rightarrow> nat \<Rightarrow> bool" where
  "edited m m' f \<longleftrightarrow> edit_ok m' f \<and> set (insts (fn_of m f)) \<subseteq> set (insts (fn_of m' f)) \<and>
     (\<forall>u \<in> set (insts (fn_of m f)). vals m' u = vals m u)"

lemma edited_refl: "edit_ok m f \<Longrightarrow> edited m m f"
  by (simp add: edited_def)

lemma edited_trans: "edited m m1 f \<Longrightarrow> edited m1 m2 f \<Longrightarrow> edited m m2 f"
  unfolding edited_def by (simp add: subset_iff)

lemma insert_before_edited:
  assumes ok: "edit_ok m f" and e: "insert_before f J i m = (m', a)" and i: "opc i \<notin> set Terminator"
  shows "edited m m' f"
proof -
  note law = insert_before_law[OF assms]
  have "u \<noteq> a \<and> u \<noteq> f" if "u \<in> set (insts (fn_of m f))" for u
    using that ok wf_func_is_inst[of m "fn_of m f"] by (auto simp: edit_ok_def law(3))
  then show ?thesis using law(1,6) unfolding edited_def law(2) by (auto simp: set_put_before)
qed

lemma insert_before_hops:
  assumes ok: "edit_ok m f" and e: "insert_before f J i m = (m', a)" and i: "opc i \<notin> set Terminator"
    and J: "J \<in> set (insts (fn_of m f))" "J \<in> U" and U: "U \<subseteq> set (insts (fn_of m f))"
  shows "hops m' (fn_of m' f) U \<subseteq> {(u, v). (u, v) \<in> hops m (fn_of m f) U \<and> (is_MitigationInst m' a \<longrightarrow> v \<noteq> J)}"
proof -
  have "a \<notin> U" using U ok insert_before_law(3)[OF ok e i] by (auto simp: edit_ok_def)
  then show ?thesis using insert_before_via[OF ok e i J U] unfolding hops_def by blast
qed

lemma mitigate_at_hops:
  assumes ok: "edit_ok m f" and J: "J \<in> set (insts (fn_of m f))" "J \<in> U" and U: "U \<subseteq> set (insts (fn_of m f))"
    and r: "mitigate_at opt f J m = Inr (m', L)"
  shows "edited m m' f" "hops m' (fn_of m' f) U \<subseteq> {(u, v). (u, v) \<in> hops m (fn_of m f) U \<and> v \<noteq> J}"
proof -
  define lf where "lf = intrinsic_call (x86 sse2_lfence) [''clou.mitigation'']"
  define mf where "mf = intrinsic_call (x86 sse2_mfence) []"
  have i: "opc lf \<notin> set Terminator" "opc mf \<notin> set Terminator" by (simp_all add: lf_def mf_def intrinsic_call_def inst0_def)
  obtain m1 a where e: "insert_before f J lf m = (m1, a)" by (cases "insert_before f J lf m")
  obtain m2 b where e2: "insert_before f J mf m1 = (m2, b)" by (cases "insert_before f J mf m1")
  note law = insert_before_law[OF ok e i(1)]
  have ed: "edited m m1 f" by (rule insert_before_edited[OF ok e i(1)])
  have "is_MitigationInst m1 a" using law(4,5) by (intro lfence_is_mitigation) (simp_all add: lf_def)
  with insert_before_hops[OF ok e i(1) J U]
  have h: "hops m1 (fn_of m1 f) U \<subseteq> {(u, v). (u, v) \<in> hops m (fn_of m f) U \<and> v \<noteq> J}" by simp
  have J1: "J \<in> set (insts (fn_of m1 f))" "U \<subseteq> set (insts (fn_of m1 f))" using ed J(1) U by (auto simp: edited_def)
  have "edited m m2 f" using edited_trans[OF ed insert_before_edited[OF law(1) e2 i(2)]] .
  moreover have "hops m2 (fn_of m2 f) U \<subseteq> {(u, v). (u, v) \<in> hops m (fn_of m f) U \<and> v \<noteq> J}"
    using insert_before_hops[OF law(1) e2 i(2) J1(1) J(2) J1(2)] h by blast
  moreover have "m' = (if InsertTrapAfterMitigations opt then m2 else m1)"
    using r by (simp add: mitigate_at_def e[unfolded lf_def] e2[unfolded mf_def] split: if_splits)
  ultimately show "edited m m' f" "hops m' (fn_of m' f) U \<subseteq> {(u, v). (u, v) \<in> hops m (fn_of m f) U \<and> v \<noteq> J}"
    using ed h by simp_all
qed

subsection \<open>All mitigations\<close>

lemma skip_phis_in:
  assumes "skip_phis m F I = Inr J"
  shows "J \<in> set (insts F)" "\<not> isa m J [PHI]"
proof -
  from assms obtain B Js where B: "block_of F I = Some B"
    and d: "dropWhile (\<lambda>J. isa m J [PHI]) (dropWhile (\<lambda>J. J \<noteq> I) (bb_insts B)) = J # Js"
    by (auto simp: skip_phis_def split: option.splits list.splits)
  have "J \<in> set (bb_insts B)" using d set_dropWhileD by (metis list.set_intros(1))
  with block_of_SomeD[OF B] show "J \<in> set (insts F)" by (auto simp: in_insts)
  show "\<not> isa m J [PHI]" using d by (simp add: dropWhile_eq_Cons_conv)
qed

lemma skip_phis_self:
  assumes "wf_func m F" "v \<in> set (insts F)" "\<not> isa m v [PHI]"
  shows "skip_phis m F v = Inr v"
proof -
  from assms(2) obtain B where B: "B \<in> set (fn_blocks F)" "v \<in> set (bb_insts B)" by (auto simp: in_insts)
  then obtain as bs where "bb_insts B = as @ v # bs" "v \<notin> set as" by (meson split_list_first)
  with assms(3) block_of_in[OF assms(1) B] show ?thesis by (simp add: skip_phis_def dropWhile_mid)
qed

lemma edge_in_place:
  assumes "mitigate_edge opt SplitEdge f e m = Inr m'" "\<not> shouldCutEdge m (fn_of m f) (fst e) (snd e)"
  obtains J L where "skip_phis m (fn_of m f) (snd e) = Inr J" "mitigate_at opt f J m = Inr (m', L)"
  using assms by (auto simp: mitigate_edge_def getMitigationPoint_def CreateMitigation_def bindr_eq_Inr Let_def)

text \<open>An insertion does not make a join point.\<close>

lemma pred_blocks_insert:
  assumes ok: "edit_ok m f" and e: "insert_before f J i m = (m', a)" and i: "opc i \<notin> set Terminator"
  shows "length (pred_blocks m' (fn_of m' f) b) = length (pred_blocks m (fn_of m f) b)"
proof -
  note law = insert_before_law[OF ok e i]
  have old: "ins m' (last (put_before J [a] (bb_insts B))) = ins m (last (bb_insts B))"
    if B: "B \<in> set (fn_blocks (fn_of m f))" for B
  proof -
    from ok B have wf: "wf_func m (fn_of m f)" and ne: "bb_insts B \<noteq> []"
      by (auto simp: edit_ok_def wf_func_def wf_bb_def)
    have "last (bb_insts B) \<in> set (insts (fn_of m f))" by (rule bb_ends_in_insts(2)[OF wf B])
    then have "last (bb_insts B) \<noteq> a" "last (bb_insts B) \<noteq> f"
      using ok wf_func_is_inst[OF wf] by (auto simp: edit_ok_def law(3))
    then show ?thesis using law(6) ne by (simp add: ins_def)
  qed
  have "length (concat (map (\<lambda>P. map (\<lambda>_. P) (filter (\<lambda>s. s = b) (succs (ins m' (last (bb_insts P)))))) (map g Bs))) =
      length (concat (map (\<lambda>P. map (\<lambda>_. P) (filter (\<lambda>s. s = b) (succs (ins m (last (bb_insts P)))))) Bs))"
    if "\<And>B. B \<in> set Bs \<Longrightarrow> ins m' (last (bb_insts (g B))) = ins m (last (bb_insts B))" for g and Bs :: "bb list"
    using that by (induction Bs) auto
  from this[of "fn_blocks (fn_of m f)" "\<lambda>B. B\<lparr>bb_insts := put_before J [a] (bb_insts B)\<rparr>"] old
  show ?thesis by (simp add: pred_blocks_def law(8) insts_before_def)
qed

lemma insert_before_no_join:
  assumes ok: "edit_ok m f" and e: "insert_before f J i m = (m', a)" and i: "opc i \<notin> set Terminator"
    and w: "w \<in> set (insts (fn_of m f))" "length (predecessors m (fn_of m f) w) \<le> 1"
  shows "length (predecessors m' (fn_of m' f) w) \<le> 1"
proof -
  note law = insert_before_law[OF ok e i]
  from ok law(1) have wf: "wf_func m (fn_of m f)" and wf': "wf_func m' (fn_of m' f)" by (auto simp: edit_ok_def)
  from w(1) obtain B where B: "B \<in> set (fn_blocks (fn_of m f))" "w \<in> set (bb_insts B)" by (auto simp: in_insts)
  define B' where "B' = B\<lparr>bb_insts := put_before J [a] (bb_insts B)\<rparr>"
  have B': "B' \<in> set (fn_blocks (fn_of m' f))" "bb_insts B' = put_before J [a] (bb_insts B)" "bb_id B' = bb_id B"
    using B(1) by (auto simp: law(8) insts_before_def B'_def)
  have "w \<in> set (bb_insts B')" using B(2) by (simp add: B' set_put_before)
  from block_split_front[OF this] show ?thesis
  proof (elim disjE exE)
    assume h: "w = hd (bb_insts B')"
    have "w \<noteq> a" using w(1) ok by (auto simp: edit_ok_def law(3))
    with h B(2) have "w = hd (bb_insts B)" by (cases "bb_insts B") (auto simp: B'(2) split: if_splits)
    with h w(2) show ?thesis
      using predecessors_front[OF wf B(1)] predecessors_front[OF wf' B'(1)] pred_blocks_insert[OF ok e i]
      by (simp add: B'(3))
  next
    fix as x bs assume "bb_insts B' = as @ x # w # bs"
    from predecessors_mid[OF wf' B'(1) this] show ?thesis by simp
  qed
qed

lemma mitigate_at_no_join:
  assumes ok: "edit_ok m f" and J: "J \<in> set (insts (fn_of m f))" and r: "mitigate_at opt f J m = Inr (m', L)"
    and w: "w \<in> set (insts (fn_of m f))" "length (predecessors m (fn_of m f) w) \<le> 1"
  shows "length (predecessors m' (fn_of m' f) w) \<le> 1"
proof -
  define lf where "lf = intrinsic_call (x86 sse2_lfence) [''clou.mitigation'']"
  define mf where "mf = intrinsic_call (x86 sse2_mfence) []"
  have i: "opc lf \<notin> set Terminator" "opc mf \<notin> set Terminator" by (simp_all add: lf_def mf_def intrinsic_call_def inst0_def)
  obtain m1 a where e: "insert_before f J lf m = (m1, a)" by (cases "insert_before f J lf m")
  obtain m2 b where e2: "insert_before f J mf m1 = (m2, b)" by (cases "insert_before f J mf m1")
  have ok1: "edit_ok m1 f" and w1: "w \<in> set (insts (fn_of m1 f))"
    using insert_before_law(1)[OF ok e i(1)] insert_before_edited[OF ok e i(1)] w(1) by (auto simp: edited_def)
  note j1 = insert_before_no_join[OF ok e i(1) w]
  note j2 = insert_before_no_join[OF ok1 e2 i(2) w1 j1]
  have "m' = (if InsertTrapAfterMitigations opt then m2 else m1)"
    using r by (simp add: mitigate_at_def e[unfolded lf_def] e2[unfolded mf_def] split: if_splits)
  with j1 j2 show ?thesis by simp
qed

text \<open>Mitigating edges that end neither at a join point nor at a PHI removes all steps along them.\<close>

definition in_place :: "ir_module \<Rightarrow> func \<Rightarrow> nat \<Rightarrow> bool" where
  "in_place m F v \<longleftrightarrow> v \<in> set (insts F) \<and> \<not> isa m v [PHI] \<and> length (predecessors m F v) \<le> 1"

lemma in_place_keep:
  assumes ok: "edit_ok m f" and J: "J \<in> set (insts (fn_of m f))" and r: "mitigate_at opt f J m = Inr (m', L)"
    and ed: "edited m m' f" and v: "in_place m (fn_of m f) v"
  shows "in_place m' (fn_of m' f) v"
proof -
  from v have vin: "v \<in> set (insts (fn_of m f))" by (simp add: in_place_def)
  with ed have "vals m' v = vals m v" "v \<in> set (insts (fn_of m' f))" by (auto simp: edited_def)
  with v mitigate_at_no_join[OF ok J r vin] show ?thesis by (simp add: in_place_def isa_def is_inst_def ins_def)
qed

lemma mitigate_edges_hops:
  assumes "foldr_res (mitigate_edge opt SplitEdge f) es m = Inr m'" "edit_ok m f"
    "U \<subseteq> set (insts (fn_of m f))" "\<forall>e \<in> set es. snd e \<in> U \<and> in_place m (fn_of m f) (snd e)"
  shows "edited m m' f \<and> hops m' (fn_of m' f) U \<subseteq> {(u, v). (u, v) \<in> hops m (fn_of m f) U \<and> v \<notin> snd ` set es}"
  using assms
proof (induction es arbitrary: m)
  case Nil
  then show ?case by (simp add: edited_refl)
next
  case (Cons e es)
  from Cons.prems(1) obtain m1 where m1: "mitigate_edge opt SplitEdge f e m = Inr m1"
    "foldr_res (mitigate_edge opt SplitEdge f) es m1 = Inr m'" by (auto simp: bindr_eq_Inr)
  from Cons.prems(4) have e: "snd e \<in> U" "in_place m (fn_of m f) (snd e)" by auto
  then have wf: "wf_func m (fn_of m f)" and sin: "snd e \<in> set (insts (fn_of m f))" and nphi: "\<not> isa m (snd e) [PHI]"
    using Cons.prems(2) by (auto simp: in_place_def edit_ok_def)
  have "\<not> shouldCutEdge m (fn_of m f) (fst e) (snd e)" using e(2) by (simp add: in_place_def shouldCutEdge_def)
  from edge_in_place[OF m1(1) this] obtain L where L: "mitigate_at opt f (snd e) m = Inr (m1, L)"
    using skip_phis_self[OF wf sin nphi] by auto
  note step = mitigate_at_hops[OF Cons.prems(2) sin e(1) Cons.prems(3) L]
  have U1: "U \<subseteq> set (insts (fn_of m1 f))" and ok1: "edit_ok m1 f" using step(1) Cons.prems(3) by (auto simp: edited_def)
  have "\<forall>e \<in> set es. snd e \<in> U \<and> in_place m1 (fn_of m1 f) (snd e)"
    using Cons.prems(4) in_place_keep[OF Cons.prems(2) sin L step(1)] by auto
  from Cons.IH[OF m1(2) ok1 U1 this] have IH: "edited m1 m' f"
    "hops m' (fn_of m' f) U \<subseteq> {(u, v). (u, v) \<in> hops m1 (fn_of m1 f) U \<and> v \<notin> snd ` set es}" by blast+
  from edited_trans[OF step(1) IH(1)] IH(2) step(2) show ?case by auto
qed

subsection \<open>Walks without mitigations\<close>

lemma free_walk_hops:
  assumes "(u, v) \<in> (free_cfg m F)\<^sup>+" "u \<in> U" "v \<in> U"
  shows "(u, v) \<in> (hops m F U)\<^sup>+"
proof -
  have "(v \<in> U \<longrightarrow> (x \<in> U \<longrightarrow> (x, v) \<in> (hops m F U)\<^sup>+) \<and>
      (x \<notin> U \<longrightarrow> (\<exists>w. via (free_cfg m F) U x w \<and> (w = v \<or> (w, v) \<in> (hops m F U)\<^sup>+))))"
    if "(x, v) \<in> (free_cfg m F)\<^sup>+" for x
    using that
  proof (induction rule: converse_trancl_induct)
    case (base y)
    then show ?case by (auto simp: hops_def intro: via.step)
  next
    case (step y z)
    show ?case
    proof (intro impI)
      assume v: "v \<in> U"
      show "(y \<in> U \<longrightarrow> (y, v) \<in> (hops m F U)\<^sup>+) \<and>
        (y \<notin> U \<longrightarrow> (\<exists>w. via (free_cfg m F) U y w \<and> (w = v \<or> (w, v) \<in> (hops m F U)\<^sup>+)))"
      proof (cases "z \<in> U")
        case True
        with step v have zv: "(z, v) \<in> (hops m F U)\<^sup>+" and yz: "via (free_cfg m F) U y z" by (auto intro: via.step)
        then have "y \<in> U \<Longrightarrow> (y, v) \<in> (hops m F U)\<^sup>+" by (intro trancl_into_trancl2[of y z]) (simp add: hops_def)
        with zv yz show ?thesis by blast
      next
        case False
        with step v obtain w where w: "via (free_cfg m F) U z w" "w = v \<or> (w, v) \<in> (hops m F U)\<^sup>+" by blast
        have yw: "via (free_cfg m F) U y w" by (rule via.hop[OF step(1) False w(1)])
        have "(y, v) \<in> (hops m F U)\<^sup>+" if "y \<in> U"
        proof -
          have "(y, w) \<in> hops m F U" using yw that by (simp add: hops_def)
          with w(2) show ?thesis by (auto intro: trancl_into_trancl2)
        qed
        with yw w(2) show ?thesis by blast
      qed
    qed
  qed
  with assms show ?thesis by blast
qed

lemma hops_all: "wf_func m F \<Longrightarrow> hops m F (set (insts F)) \<subseteq> cfg m F"
proof -
  assume wf: "wf_func m F"
  have "via (free_cfg m F) (set (insts F)) u v \<Longrightarrow> u \<in> set (insts F) \<Longrightarrow> (u, v) \<in> cfg m F" for u v
  proof (induction rule: via.induct)
    case (hop u w v)
    have "w \<in> set (insts F)" using hop(1) cfg_in_insts[OF wf, of u w] hop.prems by (auto simp: free_cfg_def)
    with hop(2) show ?case by simp
  qed (auto simp: free_cfg_def)
  then show ?thesis by (auto simp: hops_def)
qed

text \<open>After the edges are mitigated, a walk that executes no mitigation takes none of them.\<close>

lemma mitigated_walks:
  assumes "foldr_res (mitigate_edge opt SplitEdge f) es m = Inr m'" "edit_ok m f"
    "\<forall>e \<in> set es. in_place m (fn_of m f) (snd e)"
    "u \<in> set (insts (fn_of m f))" "v \<in> set (insts (fn_of m f))" "(u, v) \<in> (free_cfg m' (fn_of m' f))\<^sup>+"
  shows "(u, v) \<in> (cfg m (fn_of m f) - set es)\<^sup>+"
proof -
  let ?U = "set (insts (fn_of m f))"
  have "\<forall>e \<in> set es. snd e \<in> ?U \<and> in_place m (fn_of m f) (snd e)" using assms(3) by (auto simp: in_place_def)
  from mitigate_edges_hops[OF assms(1,2) _ this]
  have "hops m' (fn_of m' f) ?U \<subseteq> {(u, v). (u, v) \<in> hops m (fn_of m f) ?U \<and> v \<notin> snd ` set es}" by simp
  also have "\<dots> \<subseteq> cfg m (fn_of m f) - set es"
    using hops_all[of m "fn_of m f"] assms(2) by (force simp: edit_ok_def)
  finally show ?thesis using free_walk_hops[OF assms(6,4,5)] trancl_mono by blast
qed

end
