(* ===== verification/Protection.thy ===== *)
theory Protection
  imports Fence
begin

text \<open>
  What the cut and the fences protect: for each enabled kind of leak, the waypoint list the pass
  adds, and what it means that no walk is left through it.
\<close>

subsection \<open>Pairs\<close>

lemma pair_cut:
  assumes ok: "mp_ok m F weight" and cut: "mp_cut opt CHECKCUT timeout m an F weight = Some (Inr es)"
    and sts: "add_sts opt m an F = Inr sts" and st: "[A, B] \<in> set sts" and xy: "x \<in> set A" "y \<in> set B"
  shows "(x, y) \<notin> (cfg m F - set es)\<^sup>+"
proof -
  from mp_cut_law[OF ok cut] sts have "\<forall>st \<in> set sts. \<forall>x \<in> set (hd st). \<not> st_walk (cfg m F - set es) (map set (tl st)) x"
    by (metis sum.inject(2))
  with st xy(1) have "\<not> st_walk (cfg m F - set es) [set B] x" by fastforce
  with xy(2) show ?thesis by auto
qed

lemma triple_cut:
  assumes ok: "mp_ok m F weight" and cut: "mp_cut opt CHECKCUT timeout m an F weight = Some (Inr es)"
    and sts: "add_sts opt m an F = Inr sts" and st: "[A, B, C] \<in> set sts" and xyz: "x \<in> set A" "y \<in> set B" "z \<in> set C"
  shows "(x, y) \<notin> (cfg m F - set es)\<^sup>+ \<or> (y, z) \<notin> (cfg m F - set es)\<^sup>+"
proof -
  from mp_cut_law[OF ok cut] sts have "\<forall>st \<in> set sts. \<forall>x \<in> set (hd st). \<not> st_walk (cfg m F - set es) (map set (tl st)) x"
    by (metis sum.inject(2))
  with st xyz(1) have "\<not> st_walk (cfg m F - set es) [set B, set C] x" by fastforce
  with xyz(2,3) show ?thesis by auto
qed

lemma mp_cut_sts:
  assumes "mp_ok m F weight" "mp_cut opt CHECKCUT timeout m an F weight = Some (Inr es)"
  obtains sts where "add_sts opt m an F = Inr sts"
  by (rule mp_cut_law[OF assms]) (rule that)

lemma foldr_res_in: "foldr_res (\<lambda>x s. bindr (g x) (\<lambda>y. h x y s)) xs s = Inr s' \<Longrightarrow> x \<in> set xs \<Longrightarrow> \<exists>y. g x = Inr y"
proof (induction xs arbitrary: s)
  case (Cons a xs)
  then obtain y s1 where "g a = Inr y" "foldr_res (\<lambda>x s. bindr (g x) (\<lambda>y. h x y s)) xs s1 = Inr s'"
    unfolding foldr_res.simps bindr_eq_Inr by blast
  with Cons show ?case by auto
qed simp

lemma filter_res_in: "filter_res p xs = Inr ys \<Longrightarrow> x \<in> set xs \<Longrightarrow> \<exists>b. p x = Inr b"
  by (induction xs arbitrary: ys) (auto simp: bindr_eq_Inr)

subsection \<open>Transmitters of tainted values\<close>

lemma tainted_transmitter:
  assumes sts: "sts_ncal_xmit opt m an F = Inr sts" and cl: "closed_func m F"
    and I: "I \<in> set (insts F)" "get_transmitter_sensitive_operands m I = Inr ops" "(t, v) \<in> set ops"
    and l: "(v, l) \<in> an_taints an" "l \<in> set (insts F)" and v: "is_inst m v"
  shows "\<exists>st. st_with_sources opt m F (ExpandSTs opt \<and> l \<noteq> entry_inst F) l [I] = Inr st \<and> st \<in> set sts"
proof -
  from sts obtain out where out: "getTransmitters m an F = Inr out"
    and st_iff: "\<forall>st. st \<in> set sts \<longleftrightarrow> (\<exists>xmit vs v ncal. (xmit, vs) \<in> set out \<and> v \<in> set vs \<and> ncal \<in> set (ST_taints_at F an v) \<and>
      st_with_sources opt m F (ExpandSTs opt \<and> ncal \<noteq> entry_inst F) ncal [xmit] = Inr st)"
    by (rule sts_ncal_xmit_cases)
  from foldr_res_in[OF out[unfolded getTransmitters_def] I(1)] obtain vs where vs: "secret_operands m an I = Inr vs" ..
  with I(2) obtain ys where ys: "filter_res (ST_secret m an) (map snd ops) = Inr ys" "vs = os_of ys"
    by (auto simp: secret_operands_def bindr_eq_Inr)
  have "v \<noteq> null" using v cl by (auto simp: closed_func_def)
  then have "ST_secret m an v = Inr True" using l(1) v by (auto simp: ST_secret_def st_secret_def)
  then have "v \<in> set vs" using ys(2) filter_res_set[OF ys(1)] I(3) by force
  moreover from this have "(I, vs) \<in> set out" using getTransmitters_law(2)[OF out] I(1) vs by auto
  moreover have "l \<in> set (ST_taints_at F an v)" using l by (simp add: in_taints_at)
  moreover have "\<exists>st. st_with_sources opt m F (ExpandSTs opt \<and> l \<noteq> entry_inst F) l [I] = Inr st"
  proof -
    from sts out have "\<exists>y. map_res (\<lambda>ncal. st_with_sources opt m F (ExpandSTs opt \<and> ncal \<noteq> entry_inst F) ncal [I])
        (os_of (concat (map (ST_taints_at F an) vs))) = Inr y"
      using map_res_in \<open>(I, vs) \<in> set out\<close>
      by (fastforce simp: sts_ncal_xmit_def bindr_eq_Inr Let_def)
    then obtain y where "map_res (\<lambda>ncal. st_with_sources opt m F (ExpandSTs opt \<and> ncal \<noteq> entry_inst F) ncal [I])
        (os_of (concat (map (ST_taints_at F an) vs))) = Inr y" ..
    from map_res_in[OF this] \<open>v \<in> set vs\<close> \<open>l \<in> set (ST_taints_at F an v)\<close> show ?thesis by auto
  qed
  ultimately show ?thesis using st_iff by blast
qed

lemma enabled_ncal_xmit:
  assumes "add_sts opt m an F = Inr sts" "en_ncal_xmit opt"
  obtains sts' where "sts_ncal_xmit opt m an F = Inr sts'" "set sts' \<subseteq> set sts"
  using assms by (elim add_sts_law) auto

lemma ncal_xmit_pair:
  assumes ok: "mp_ok m F weight" and cut: "mp_cut opt CHECKCUT timeout m an F weight = Some (Inr es)"
    and en: "en_ncal_xmit opt" "\<not> ExpandSTs opt"
    and I: "I \<in> set (insts F)" "get_transmitter_sensitive_operands m I = Inr ops" "(t, v) \<in> set ops"
    and l: "(v, l) \<in> an_taints an" "l \<in> set (insts F)" and v: "is_inst m v"
  shows "(l, I) \<notin> (cfg m F - set es)\<^sup>+"
proof -
  obtain sts where sts: "add_sts opt m an F = Inr sts" using mp_cut_sts[OF ok cut] .
  obtain sts' where s: "sts_ncal_xmit opt m an F = Inr sts'" "set sts' \<subseteq> set sts"
    using enabled_ncal_xmit[OF sts en(1)] .
  have cl: "closed_func m F" using ok by (simp add: mp_ok_def)
  have "[[l], [I]] \<in> set sts" using tainted_transmitter[OF s(1) cl I l v] s(2) en(2) by (auto simp: st_with_sources_def)
  then show ?thesis by (rule pair_cut[OF ok cut sts]) simp_all
qed

text \<open>With \<open>ExpandSTs\<close> only the walks that pass a source of the load first have to be cut.\<close>

lemma ncal_xmit_triple:
  assumes ok: "mp_ok m F weight" and cut: "mp_cut opt CHECKCUT timeout m an F weight = Some (Inr es)"
    and en: "en_ncal_xmit opt" "ExpandSTs opt" "l \<noteq> entry_inst F"
    and I: "I \<in> set (insts F)" "get_transmitter_sensitive_operands m I = Inr ops" "(t, v) \<in> set ops"
    and l: "(v, l) \<in> an_taints an" "l \<in> set (insts F)" and v: "is_inst m v"
  obtains sources where "getSourcesForNCAAccess m F l = Inr sources"
    "\<And>s. s \<in> set sources \<Longrightarrow> (s, l) \<notin> (cfg m F - set es)\<^sup>+ \<or> (l, I) \<notin> (cfg m F - set es)\<^sup>+"
proof -
  obtain sts where sts: "add_sts opt m an F = Inr sts" using mp_cut_sts[OF ok cut] .
  obtain sts' where s: "sts_ncal_xmit opt m an F = Inr sts'" "set sts' \<subseteq> set sts"
    using enabled_ncal_xmit[OF sts en(1)] .
  have cl: "closed_func m F" using ok by (simp add: mp_ok_def)
  obtain sources where src: "getSourcesForNCAAccess m F l = Inr sources" "[sources, [l], [I]] \<in> set sts"
    using tainted_transmitter[OF s(1) cl I l v] s(2) en(2,3) by (auto simp: st_with_sources_def bindr_eq_Inr)
  from triple_cut[OF ok cut sts src(2)] src(1) that show ?thesis by simp
qed

subsection \<open>Stores before control transfers, calls before transmitters\<close>

lemma ncas_ctrl_pair:
  assumes ok: "mp_ok m F weight" and cut: "mp_cut opt CHECKCUT timeout m an F weight = Some (Inr es)"
    and en: "en_ncas_ctrl opt" and S: "ncas opt m an F = Inr stores" "S \<in> set stores"
    and C: "C \<in> set (insts F)" "isa m C [Ret] \<or> lowered_call m C = Inr True"
  shows "(S, C) \<notin> (cfg m F - set es)\<^sup>+"
proof -
  obtain sts where sts: "add_sts opt m an F = Inr sts" using mp_cut_sts[OF ok cut] .
  then obtain sts' where s: "sts_ncas_ctrl opt m an F = Inr sts'" "set sts' \<subseteq> set sts"
    using en by (elim add_sts_law) auto
  then obtain ctrls where c: "getCtrls m F = Inr ctrls" "sts' = [[stores, ctrls]]"
    using S(1) by (auto simp: sts_ncas_ctrl_def bindr_eq_Inr)
  then obtain cs where cs: "filter_res (\<lambda>I. if isa m I CallBase then mayLowerToFunctionCall m I else Inr (isa m I [Ret])) (insts F) = Inr cs"
    "ctrls = os_of cs" by (auto simp: getCtrls_def bindr_eq_Inr)
  have "C \<in> set ctrls"
    unfolding cs(2) set_os_of filter_res_set[OF cs(1)]
    using C by (auto simp: lowered_call_def and_res_def bindr_eq_Inr isa_def split: if_splits)
  then show ?thesis using pair_cut[OF ok cut sts, of stores ctrls S C] s(2) c(2) S(2) by auto
qed

lemma call_xmit_pair:
  assumes ok: "mp_ok m F weight" and cut: "mp_cut opt CHECKCUT timeout m an F weight = Some (Inr es)"
    and en: "en_call_xmit opt" and C: "C \<in> set (insts F)" "isa m C CallBase" "mayLowerToFunctionCall m C = Inr True"
    and I: "I \<in> set (insts F)" "get_transmitter_sensitive_operands m I = Inr ops" "(t, v) \<in> set ops"
      "\<not> is_constant (vals m v)"
  shows "(C, I) \<notin> (cfg m F - set es)\<^sup>+"
proof -
  obtain sts where sts: "add_sts opt m an F = Inr sts" using mp_cut_sts[OF ok cut] .
  then obtain sts' where s: "sts_call_xmit m F = Inr sts'" "set sts' \<subseteq> set sts"
    using en by (elim add_sts_law) auto
  then obtain xmits calls where x: "filter_res (nonconst_xmit m) (insts F) = Inr xmits"
    and c: "filter_res (mayLowerToFunctionCall m) (insts_of m F CallBase) = Inr calls"
    and st: "sts' = [[os_of calls, os_of xmits]]" by (auto simp: sts_call_xmit_def bindr_eq_Inr)
  have "C \<in> set calls" unfolding filter_res_set[OF c] using C by (simp add: insts_of_def)
  moreover have "I \<in> set xmits" unfolding filter_res_set[OF x] using I
    by (force simp: nonconst_xmit_def bindr_eq_Inr list_ex_iff)
  ultimately show ?thesis using pair_cut[OF ok cut sts, of "os_of calls" "os_of xmits" C I] s(2) st by auto
qed

lemma load_xmit_pair:
  assumes ok: "mp_ok m F weight" and cut: "mp_cut opt CHECKCUT timeout m an F weight = Some (Inr es)"
    and en: "en_load_xmit opt" and I: "I \<in> set (insts F)" "get_transmitter_sensitive_operands m I = Inr ops" "(t, v) \<in> set ops"
    and L: "incoming_list m v = Inr ls" "L \<in> set ls" "isa m L [Load]"
  shows "(L, I) \<notin> (cfg m F - set es)\<^sup>+"
proof -
  obtain sts where sts: "add_sts opt m an F = Inr sts" using mp_cut_sts[OF ok cut] .
  then obtain sts' where s: "sts_load_xmit opt m an F = Inr sts'" "set sts' \<subseteq> set sts"
    using en by (elim add_sts_law) auto
  then obtain sts1 where s1: "map_res (\<lambda>xmit. bindr (loads_of_xmit m xmit) (\<lambda>ls. Inr [ls, [xmit]])) (insts F) = Inr sts1"
    "set sts1 \<subseteq> set sts'" by (auto simp: sts_load_xmit_def bindr_eq_Inr)
  from map_res_in[OF s1(1) I(1)] obtain Ls where Ls: "loads_of_xmit m I = Inr Ls" by (auto simp: bindr_eq_Inr)
  then have st: "[Ls, [I]] \<in> set sts1" using map_res_set[OF s1(1)] I(1) by force
  from Ls I(2) obtain lss where lss: "map_res (\<lambda>p. incoming_list m (snd p)) ops = Inr lss"
    "Ls = os_of (filter (\<lambda>L. isa m L [Load]) (concat lss))" by (auto simp: loads_of_xmit_def bindr_eq_Inr)
  have "ls \<in> set lss" using map_res_set[OF lss(1)] I(3) L(1) by force
  then have "L \<in> set Ls" using L(2,3) by (auto simp: lss(2))
  with st s(2) s1(2) show ?thesis using pair_cut[OF ok cut sts, of Ls "[I]" L I] by auto
qed

subsection \<open>The statistics assertion\<close>

text \<open>Every load from a non-constant address taints itself.\<close>

lemma ncal_taints_itself:
  assumes run: "st_runOnFunction opt AA m ca F = Some (Inr T)" and L: "L \<in> set (insts_of m F [Load])"
    and ca: "ca (getPointerOperand (ins m L)) = Inr False"
  shows "(L, L) \<in> T"
proof -
  from run obtain ncals rfs X where i: "st_inv opt AA m ca F ncals rfs {}"
    and r: "until_stable (\<lambda>T. T) (st_round m ca F ncals rfs) {} = Some (Inr X)"
    and X: "st_inv opt AA m ca F ncals rfs X" "st_round m ca F ncals rfs X = Inr X"
    and T: "T = (\<lambda>p. (fst p, ncals ! snd p)) ` X" by (rule st_runE)
  from X(1) have ncals: "st_ncals m ca F = Inr ncals" by (simp add: st_inv_def)
  have Lin: "L \<in> set ncals" using st_ncals_set(1)[OF ncals] L ca by simp
  from ncal_to_idx_law[OF st_ncals_set(2)[OF ncals] Lin]
  obtain k where k: "ncal_to_idx ncals L = Inr k" "ncals ! k = L" by blast
  have Lf: "L \<in> set (insts F)" using L insts_of_in by blast
  have "\<exists>s1 s2. st_inst m ca ncals rfs X L s1 = Inr s2 \<and> s1 = X \<and> s2 = X"
    by (rule foldr_res_stable[OF X(2)[unfolded st_round_def] refl st_inst_grows Lf])
  then have "st_inst m ca ncals rfs X L X = Inr X" by blast
  then have "(L, k) \<in> X" using L ca k(1) by (auto simp: st_inst_def insts_of_def Let_def)
  then show ?thesis unfolding T using k(2) by force
qed

lemma count_loads_total:
  assumes "\<And>L. L \<in> set Ls \<Longrightarrow> CAA m an (getPointerOperand (ins m L)) = Inr False \<Longrightarrow> ST_secret m an L = Inr True"
    "\<And>L. L \<in> set Ls \<Longrightarrow> \<exists>b. CAA m an (getPointerOperand (ins m L)) = Inr b" "null \<notin> set Ls"
  shows "\<exists>s'. foldr_res (count_loads m an) Ls s = Inr s'"
  using assms
proof (induction Ls arbitrary: s)
  case (Cons L Ls)
  from Cons.prems(2)[of L] obtain b where b: "CAA m an (getPointerOperand (ins m L)) = Inr b" by auto
  have "ST_secret m an L = Inr (is_inst m L \<and> an_taints an `` {L} \<noteq> {})"
    using Cons.prems(3) by (simp add: ST_secret_def st_secret_def)
  then obtain c where c: "ST_secret m an L = Inr c" ..
  have "\<exists>s1. count_loads m an L s = Inr s1"
    using b c Cons.prems(1)[of L] by (cases b) (auto simp: count_loads_def)
  then obtain s1 where "count_loads m an L s = Inr s1" ..
  moreover have "\<exists>s'. foldr_res (count_loads m an) Ls s1 = Inr s'" using Cons.prems by (intro Cons.IH) auto
  ultimately show ?case by simp
qed simp

end
