(* ===== verification/AnalysisProperties.thy ===== *)
theory AnalysisProperties
  imports Protection
begin

text \<open>
  The properties of the control-flow helpers and of the analyses, each with a concrete instance.
  The instances are small modules: a chain of a load, an address computation and a second load
  (\<open>chain_mod\<close>), a loop that copies through the stack (\<open>gate_mod\<close>), and two functions with a call
  (\<open>call_mod\<close>).
\<close>

subsection \<open>Example modules\<close>

definition opt0 :: options where
  "opt0 = \<lparr>UnsafeAA = False, StrictCallingConv = False, ExpandSTs = False, NCASAll = False, WeightGraph = False,
     InsertTrapAfterMitigations = False, en_fps = False, en_ncas_xmit = False, en_ncas_ctrl = False,
     en_ncal_xmit = True, en_ncal_glob = False, en_entry_xmit = False, en_load_xmit = False, en_call_xmit = False\<rparr>"

definition must_alias :: "nat \<Rightarrow> nat \<Rightarrow> alias_result" where
  "must_alias p q = (if p = q then MustAlias else NoAlias)"

definition chain_func :: func where
  "chain_func = func0\<lparr>fn_name := ''chain'', fn_args := [3], fn_blocks := [\<lparr>bb_id = 2, bb_insts = [11, 12, 13, 14]\<rparr>]\<rparr>"

definition chain_vals :: "nat \<Rightarrow> vdesc" where
  "chain_vals v = (if v = 1 then Function chain_func else if v = 2 then BasicBlock
     else if v = 3 then Argument 1 0 PtrTy
     else if v = 11 then Inst (inst0\<lparr>opc := Load, ity := IntTy 64, operands := [3]\<rparr>)
     else if v = 12 then Inst (inst0\<lparr>opc := GetElementPtr, ity := PtrTy, operands := [3, 11]\<rparr>)
     else if v = 13 then Inst (inst0\<lparr>opc := Load, ity := IntTy 64, operands := [12]\<rparr>)
     else if v = 14 then Inst (inst0\<lparr>opc := Ret\<rparr>)
     else Undef)"

definition chain_mod :: ir_module where
  "chain_mod = \<lparr>vals = chain_vals, vbound = 15, fn_list = [1]\<rparr>"

definition gate_func :: func where
  "gate_func = func0\<lparr>fn_name := ''gate'', fn_args := [3], fn_blocks := [\<lparr>bb_id = 2, bb_insts = [10, 11, 19]\<rparr>,
     \<lparr>bb_id = 4, bb_insts = [12, 13, 14, 15, 16, 17]\<rparr>]\<rparr>"

definition gate_vals :: "nat \<Rightarrow> vdesc" where
  "gate_vals v = (if v = 1 then Function gate_func else if v = 2 \<or> v = 4 then BasicBlock
     else if v = 3 then Argument 1 0 PtrTy
     else if v = 10 \<or> v = 11 then Inst (inst0\<lparr>opc := Alloca, ity := PtrTy\<rparr>)
     else if v = 19 \<or> v = 17 then Inst (inst0\<lparr>opc := Br, operands := [4], succs := [4]\<rparr>)
     else if v = 12 then Inst (inst0\<lparr>opc := Load, ity := IntTy 64, operands := [10]\<rparr>)
     else if v = 13 then Inst (inst0\<lparr>opc := Store, operands := [12, 11]\<rparr>)
     else if v = 14 then Inst (inst0\<lparr>opc := Load, ity := IntTy 64, operands := [11]\<rparr>)
     else if v = 15 then Inst (inst0\<lparr>opc := Load, ity := IntTy 64, operands := [3]\<rparr>)
     else if v = 16 then Inst (inst0\<lparr>opc := Store, operands := [15, 10]\<rparr>)
     else Undef)"

definition gate_mod :: ir_module where
  "gate_mod = \<lparr>vals = gate_vals, vbound = 20, fn_list = [1]\<rparr>"

definition callee_func :: func where
  "callee_func = func0\<lparr>fn_name := ''callee'', fn_linkage := InternalLinkage, fn_addr_taken := False, fn_args := [3, 4],
     fn_blocks := [\<lparr>bb_id = 2, bb_insts = [11, 12, 13]\<rparr>]\<rparr>"

definition caller_func :: func where
  "caller_func = func0\<lparr>fn_name := ''main'', fn_args := [7], fn_blocks := [\<lparr>bb_id = 6, bb_insts = [20, 21, 22, 23]\<rparr>]\<rparr>"

definition call_vals :: "nat \<Rightarrow> vdesc" where
  "call_vals v = (if v = 1 then Function callee_func else if v = 5 then Function caller_func
     else if v = 2 \<or> v = 6 then BasicBlock
     else if v = 3 then Argument 1 0 PtrTy else if v = 4 then Argument 1 1 PtrTy else if v = 7 then Argument 5 0 PtrTy
     else if v = 11 then Inst (inst0\<lparr>opc := Load, ity := IntTy 64, operands := [3]\<rparr>)
     else if v = 12 then Inst (inst0\<lparr>opc := Load, ity := IntTy 64, operands := [4]\<rparr>)
     else if v = 13 \<or> v = 23 then Inst (inst0\<lparr>opc := Ret\<rparr>)
     else if v = 20 then Inst (inst0\<lparr>opc := Alloca, ity := PtrTy\<rparr>)
     else if v = 21 then Inst (inst0\<lparr>opc := Call, operands := [20, 7, 1], nargs := 2\<rparr>)
     else if v = 22 then Inst (inst0\<lparr>opc := Call, operands := [20, 20, 1], nargs := 2\<rparr>)
     else Undef)"

definition call_mod :: ir_module where
  "call_mod = \<lparr>vals = call_vals, vbound = 24, fn_list = [1, 5]\<rparr>"

lemma wf_module_chain: "wf_module chain_mod"
  by (auto simp: wf_module_def chain_mod_def chain_vals_def is_inst_def ins_def inst0_def split: if_splits)

lemma fn_ok_chain: "fn_ok chain_mod chain_func"
proof -
  have "\<forall>I \<in> set (insts chain_func). is_inst chain_mod I \<and> I < vbound chain_mod" by code_simp
  moreover have "\<forall>A \<in> set (fn_args chain_func). A < vbound chain_mod" by code_simp
  ultimately show ?thesis using wf_module_chain by (simp add: fn_ok_def)
qed

lemma wf_chain: "wf_func chain_mod chain_func"
  by code_simp

lemma wf_gate: "wf_func gate_mod gate_func"
  by code_simp

subsection \<open>Control flow\<close>

text \<open>\<open>successors_inst\<close> and \<open>predecessors\<close> are inverse: in a function that passes LLVM's
  verifier one instruction is a successor of another exactly if that is a predecessor of it.\<close>

theorem succ_pred_inverse:
  assumes "wf_func m F" "I \<in> set (insts F)" "J \<in> set (insts F)"
  shows "J \<in> set (successors_inst m F I) \<longleftrightarrow> I \<in> set (predecessors m F J)"
  using assms by (rule succ_iff_pred)

lemma succ_pred_inverse_witness:
  "12 \<in> set (predecessors gate_mod gate_func 13) \<and> 17 \<in> set (predecessors gate_mod gate_func 12)"
proof -
  have "13 \<in> set (successors_inst gate_mod gate_func 12)" "12 \<in> set (successors_inst gate_mod gate_func 17)"
    "12 \<in> set (insts gate_func)" "13 \<in> set (insts gate_func)" "17 \<in> set (insts gate_func)" by code_simp+
  then show ?thesis using succ_pred_inverse[OF wf_gate, of 12 13] succ_pred_inverse[OF wf_gate, of 17 12] by blast
qed

text \<open>C39. \<open>forward_frontier\<close> terminates; it reports whether every path from the entry to the
  endpoint meets an instruction with the property, and what it returns are such instructions,
  reachable from the entry and reaching the endpoint.\<close>

theorem forward_frontier_exact:
  assumes "wf_func m F" "endpoint \<in> set (insts F)"
  shows "\<exists>ok fr. forward_frontier m F endpoint p = Inr (ok, fr) \<and>
    (ok \<longleftrightarrow> (entry_inst F, endpoint) \<notin> {(u, v) \<in> cfg m F. \<not> p u}\<^sup>*) \<and>
    (\<forall>I \<in> fr. p I \<and> (entry_inst F, I) \<in> (cfg m F)\<^sup>* \<and> (I, endpoint) \<in> (cfg m F)\<^sup>*)"
proof (rule forward_frontier_law[OF assms, of p])
  fix ok fr
  assume "forward_frontier m F endpoint p = Inr (ok, fr)"
    "ok \<longleftrightarrow> (entry_inst F, endpoint) \<notin> {(u, v) \<in> cfg m F. \<not> p u}\<^sup>*"
    "\<And>I. I \<in> fr \<Longrightarrow> p I \<and> (entry_inst F, I) \<in> (cfg m F)\<^sup>* \<and> (I, endpoint) \<in> (cfg m F)\<^sup>*"
  then show ?thesis by blast
qed

lemma forward_frontier_exact_witness:
  "\<exists>ok fr. forward_frontier chain_mod chain_func 14 (\<lambda>I. I = 12) = Inr (ok, fr) \<and>
    (ok \<longleftrightarrow> (entry_inst chain_func, 14) \<notin> {(u, v) \<in> cfg chain_mod chain_func. \<not> u = 12}\<^sup>*) \<and> ok \<and> fr = {12}"
proof -
  have "14 \<in> set (insts chain_func)" by code_simp
  moreover have "forward_frontier chain_mod chain_func 14 (\<lambda>I. I = 12) = Inr (True, {12})" by code_simp
  ultimately show ?thesis using forward_frontier_exact[OF wf_chain, of 14 "\<lambda>I. I = 12"] by auto
qed

text \<open>C40. \<open>reverse_frontier\<close> walks the predecessors from the entry instruction, not from the
  endpoint: when the entry has no predecessors the search never leaves it, so the frontier is at
  most the entry and the endpoint counts as covered whatever the property is.\<close>

theorem reverse_frontier_never_moves:
  assumes "wf_func m F" "endpoint \<in> set (insts F)" "predecessors m F (entry_inst F) = []"
  shows "\<exists>fr. reverse_frontier m F endpoint p = Inr (endpoint \<noteq> entry_inst F, fr) \<and> fr \<subseteq> {entry_inst F}"
  using assms by (rule reverse_frontier_stuck)

lemma reverse_frontier_never_moves_witness:
  "\<exists>fr. reverse_frontier chain_mod chain_func 14 (\<lambda>I. I = 12) = Inr (True, fr) \<and> fr \<subseteq> {11}"
proof -
  have "14 \<in> set (insts chain_func)" "predecessors chain_mod chain_func (entry_inst chain_func) = []"
    "entry_inst chain_func = 11" by code_simp+
  then show ?thesis using reverse_frontier_never_moves[OF wf_chain, of 14 "\<lambda>I. I = 12"] by simp
qed

text \<open>\<open>getInstructionsReachableFrom\<close> without the start returns only the direct successors of the
  start, in either direction, while with the start it is full reachability.\<close>

theorem reachable_from_shapes:
  assumes "wf_func m F" "start \<in> set (insts F)"
  shows "getInstructionsReachableFrom m F start True False = Inr (set (successors_inst m F start)) \<and>
    getInstructionsReachableFrom m F start False False = Inr (set (predecessors m F start)) \<and>
    getInstructionsReachableFrom m F start True True = Inr {J. (start, J) \<in> (cfg m F)\<^sup>*}"
proof (intro conjI)
  show "getInstructionsReachableFrom m F start True False = Inr (set (successors_inst m F start))"
    "getInstructionsReachableFrom m F start False False = Inr (set (predecessors m F start))"
    using reachable_from_exclusive[OF assms(2)] next_nodes_forward[OF assms]
    by (simp_all add: getInstructionsReachableFrom_def next_nodes_backward)
  have nx: "set (next_nodes m F True u) \<subseteq> set (insts F)" if "u \<in> set (insts F)" for u
    using next_nodes_forward[OF assms(1) that] successors_in_insts[OF assms(1) that] by simp
  have "\<exists>R. wl_pop Bad_pointer (insts F) queue_push (next_nodes m F True) [start] {} = Inr R"
    using nx assms(2) by (intro wl_pop_total) auto
  then obtain R where R: "wl_pop Bad_pointer (insts F) queue_push (next_nodes m F True) [start] {} = Inr R" ..
  have "(start, J) \<in> (srel (next_nodes m F True))\<^sup>* \<longleftrightarrow> (start, J) \<in> (cfg m F)\<^sup>*" for J
  proof -
    have eq: "(u, v) \<in> srel (next_nodes m F True) \<longleftrightarrow> (u, v) \<in> cfg m F" if "u \<in> set (insts F)" for u v
      using next_nodes_forward[OF assms(1) that] that by (simp add: cfg_def)
    show ?thesis
    proof
      assume "(start, J) \<in> (srel (next_nodes m F True))\<^sup>*"
      then have "(start, J) \<in> (cfg m F)\<^sup>* \<and> J \<in> set (insts F)"
        by (induction rule: rtrancl_induct) (use assms(2) eq nx in \<open>auto intro: rtrancl_into_rtrancl\<close>)
      then show "(start, J) \<in> (cfg m F)\<^sup>*" ..
    next
      have "cfg m F \<subseteq> srel (next_nodes m F True)" using eq by (auto simp: cfg_def)
      then show "(start, J) \<in> (cfg m F)\<^sup>* \<Longrightarrow> (start, J) \<in> (srel (next_nodes m F True))\<^sup>*"
        using rtrancl_mono by blast
    qed
  qed
  with wl_pop_reach[OF R] have "R = {J. (start, J) \<in> (cfg m F)\<^sup>*}" by auto
  with R show "getInstructionsReachableFrom m F start True True = Inr {J. (start, J) \<in> (cfg m F)\<^sup>*}"
    unfolding getInstructionsReachableFrom_def reachable_from_inclusive by simp
qed

lemma reachable_from_shapes_witness:
  "getInstructionsReachableFrom chain_mod chain_func 11 True False = Inr {12} \<and>
   getInstructionsReachableFrom chain_mod chain_func 11 True True = Inr {J. (11, J) \<in> (cfg chain_mod chain_func)\<^sup>*}"
proof -
  have "11 \<in> set (insts chain_func)" "set (successors_inst chain_mod chain_func 11) = {12}" by code_simp+
  then show ?thesis using reachable_from_shapes[OF wf_chain, of 11] by simp
qed

subsection \<open>Values\<close>

text \<open>C38. \<open>get_incoming_loads\<close> terminates on a well-formed module and returns exactly the loads,
  calls and arguments a value is computed from through other instructions.\<close>

theorem incoming_loads_exact:
  assumes "wf_module m" "1 \<le> V" "V < vbound m"
  shows "get_incoming_loads m V = Inr {v. (V, v) \<in> (computed_from m)\<^sup>* \<and> incoming_leaf m v}"
  using assms by (rule get_incoming_loads_total)

lemma incoming_loads_exact_witness:
  "get_incoming_loads chain_mod 12 = Inr {3, 11} \<and> (12, 11) \<in> (computed_from chain_mod)\<^sup>*"
proof -
  have "get_incoming_loads chain_mod 12 = Inr {3, 11}" by code_simp
  moreover have "1 \<le> (12::nat)" "12 < vbound chain_mod" by code_simp+
  ultimately show ?thesis using incoming_loads_exact[OF wf_module_chain, of 12] by auto
qed

text \<open>What \<open>get_transmitter_sensitive_operands\<close> lists for an instruction are operands of that
  instruction (or the null pointer of a missing one).\<close>

theorem sensitive_operands_are_operands:
  assumes "get_transmitter_sensitive_operands m I = Inr ops"
  shows "snd ` set ops \<subseteq> insert null (set (operands (ins m I)))"
  using get_transmitter_sensitive_operands_in[OF assms] by fastforce

lemma sensitive_operands_are_operands_witness:
  "\<exists>ops. get_transmitter_sensitive_operands gate_mod 16 = Inr ops \<and> ops \<noteq> [] \<and>
     snd ` set ops \<subseteq> insert null (set (operands (ins gate_mod 16)))"
proof -
  have "get_transmitter_sensitive_operands gate_mod 16 = Inr [(TRUE, 10)]" by code_simp
  from sensitive_operands_are_operands[OF this] this show ?thesis by auto
qed

text \<open>An intrinsic without a result has no sensitive operands: the cases that list the arguments
  of \<open>memset\<close> and \<open>memcpy\<close> come after a test that such a call has a result, and are never reached.\<close>

theorem void_intrinsics_never_transmit:
  assumes "intrinsic_id m I = Some k" "is_void m I" "operands (ins m I) \<noteq> []"
  shows "get_transmitter_sensitive_operands m I = Inr []"
  using assms by (intro void_intrinsic_transmits) auto

definition memset_mod :: ir_module where
  "memset_mod = \<lparr>vals = (\<lambda>v. if v = 1 then Function func0 else if v = 3 \<or> v = 4 then Argument 1 0 PtrTy
     else if v = 5 then Inst (inst0\<lparr>opc := Call, iid := Some In_memset, operands := [3, 4, 4, 4, 1], nargs := 4\<rparr>)
     else Undef), vbound = 6, fn_list = []\<rparr>"

lemma void_intrinsics_never_transmit_witness:
  "intrinsic_id memset_mod 5 = Some In_memset \<and> get_transmitter_sensitive_operands memset_mod 5 = Inr []"
proof -
  have "intrinsic_id memset_mod 5 = Some In_memset" "is_void memset_mod 5" "operands (ins memset_mod 5) \<noteq> []"
    by code_simp+
  then show ?thesis using void_intrinsics_never_transmit by blast
qed



text \<open>It is not complete: the set of visited functions is shared by all calls, so a function
  that calls another one twice counts as recursive, although nothing recurses.\<close>

theorem two_calls_count_as_recursion:
  "doesNotRecurse call_mod 5 = Inr False \<and> no_recursion call_mod 5"
proof
  show "doesNotRecurse call_mod 5 = Inr False" by code_simp
  have fns: "fn_of call_mod v = (if v = 1 then callee_func else if v = 5 then caller_func else func0)" for v
    by (simp add: fn_of_def call_mod_def call_vals_def)
  have calls: "getCalledFunction call_mod 21 = Inr (Some 1)" "getCalledFunction call_mod 22 = Inr (Some 1)"
    "\<forall>I \<in> set (insts callee_func). \<not> ext_call call_mod I" "\<forall>I \<in> set (insts caller_func). ext_call call_mod I \<longrightarrow> I = 21 \<or> I = 22"
    "insts func0 = []"
    by code_simp+
  have out: "(v, g) \<in> direct_calls call_mod \<Longrightarrow> v = 5 \<and> g = 1" for v g
    using calls unfolding direct_calls_def by (auto simp: fns split: if_splits)
  have reach: "(5, g) \<in> (direct_calls call_mod)\<^sup>* \<Longrightarrow> g = 5 \<or> g = 1" for g
    by (induction rule: rtrancl_induct) (auto dest: out)
  have acyclic: "(g, h) \<in> (direct_calls call_mod)\<^sup>+ \<Longrightarrow> g = 5 \<and> h = 1" for g h
    by (induction rule: trancl_induct) (auto dest: out)
  have "closed_fn call_mod 5" "closed_fn call_mod 1"
    using calls by (auto simp: closed_fn_def fns isDeclaration_def callee_func_def[THEN arg_cong[where f = fn_blocks]]
        caller_func_def[THEN arg_cong[where f = fn_blocks]])
  with reach acyclic show "no_recursion call_mod 5" unfolding no_recursion_def by fastforce
qed

subsection \<open>The analyses\<close>

text \<open>C12. The nonspeculative taint analysis terminates, and unless it stops at something it does not
  handle, the values it calls public are exactly the least set closed under its rules.\<close>

theorem nst_computes_least:
  assumes "fn_ok m F"
  shows "\<exists>r. nst_runOnFunction opt AA m F = Some r \<and> (\<forall>pub. r = Inr pub \<longrightarrow> pub = nst_public opt AA m F)"
proof -
  obtain r where r: "nst_runOnFunction opt AA m F = Some r" using nst_returns_always[OF assms] by blast
  have "\<forall>pub. r = Inr pub \<longrightarrow> pub = nst_public opt AA m F" using nst_exact[OF assms] r by blast
  with r show ?thesis by blast
qed

lemma nst_computes_least_witness:
  "nst_public opt0 must_alias chain_mod chain_func = {3, 11, 12}"
proof -
  have "nst_runOnFunction opt0 must_alias chain_mod chain_func = Some (Inr {3, 11, 12})" by code_simp
  with nst_computes_least[OF fn_ok_chain, of opt0 must_alias] show ?thesis by auto
qed

text \<open>C26. No transmitted operand is treated as a nonspeculative secret, and no pointer is.\<close>

theorem nst_transmitted_is_public:
  assumes "fn_ok m F" "nst_runOnFunction opt AA m F = Some (Inr pub)" "I \<in> set (insts F)"
  shows "(is_ptr m I \<longrightarrow> \<not> nst_secret m pub I) \<and>
    (\<forall>ops t v. get_transmitter_sensitive_operands m I = Inr ops \<and> (t, v) \<in> set ops \<longrightarrow> \<not> nst_secret m pub v)"
proof -
  have pub: "pub = nst_public opt AA m F" by (rule nst_exact[OF assms(1,2)])
  have "\<not> nst_secret m pub v" if "v \<in> pub \<or> \<not> is_inst m v" for v using that by (auto simp: nst_secret_def)
  then show ?thesis unfolding pub using assms(3) by (blast intro: nst_public.transmitter nst_public.pointer)
qed

lemma nst_transmitted_is_public_witness:
  "\<not> nst_secret chain_mod {3, 11, 12} 12 \<and> nst_secret chain_mod {3, 11, 12} 13"
proof -
  have run: "nst_runOnFunction opt0 must_alias chain_mod chain_func = Some (Inr {3, 11, 12})" by code_simp
  have I: "13 \<in> set (insts chain_func)" "get_transmitter_sensitive_operands chain_mod 13 = Inr [(TRUE, 12)]" by code_simp+
  have "nst_secret chain_mod {3, 11, 12} 13" by code_simp
  with nst_transmitted_is_public[OF fn_ok_chain run I(1)] I(2) show ?thesis by auto
qed

text \<open>C14. The leak analysis terminates although it inserts into the set it iterates over, and unless
  it stops at something it does not handle, its result is the least set that contains the
  transmitted operands and is closed under its rules.\<close>

theorem leak_computes_least:
  assumes "fn_ok m F"
  shows "\<exists>r. leak_runOnFunction opt AA m F = Some r \<and> (\<forall>leaks. r = Inr leaks \<longrightarrow> leaks = may_leak opt AA m F)"
proof -
  obtain r where r: "leak_runOnFunction opt AA m F = Some r" using leak_returns[OF assms] by blast
  have "\<forall>leaks. r = Inr leaks \<longrightarrow> leaks = may_leak opt AA m F" using leak_exact[OF assms] r by blast
  with r show ?thesis by blast
qed

lemma leak_computes_least_witness: "11 \<in> may_leak opt0 must_alias chain_mod chain_func"
proof -
  have "leak_runOnFunction opt0 must_alias chain_mod chain_func = Some (Inr {3, 11, 12})" by code_simp
  with leak_computes_least[OF fn_ok_chain, of opt0 must_alias]
  have "{3, 11, 12} = may_leak opt0 must_alias chain_mod chain_func" by simp
  moreover have "11 \<in> {3, 11, 12::nat}" by simp
  ultimately show ?thesis by (rule subst)
qed

text \<open>C13. The constant-address analysis terminates on every module; the map it ends with is
  consistent with every call (each passes a constant address for each argument of the map), and it
  is the greatest such map below the initial one.\<close>

theorem constant_address_greatest:
  "\<exists>r. ca_runOnModule m = Some r \<and> (\<forall>ca. r = Inr ca \<longrightarrow> ca_consistent m ca \<and> ca_le ca (ca_top m) \<and>
     (\<forall>X. ca_consistent m X \<and> ca_le X (ca_top m) \<longrightarrow> ca_le X ca))"
proof -
  obtain r where r: "ca_runOnModule m = Some r" using ca_returns by blast
  have "ca_consistent m ca \<and> ca_le ca (ca_top m) \<and> (\<forall>X. ca_consistent m X \<and> ca_le X (ca_top m) \<longrightarrow> ca_le X ca)"
    if "r = Inr ca" for ca
  proof -
    have run: "ca_runOnModule m = Some (Inr ca)" using r that by simp
    show ?thesis using ca_greatest[OF run] by simp
  qed
  with r show ?thesis by blast
qed

lemma constant_address_greatest_witness:
  "ca_runOnModule call_mod = Some (Inr [(1, [3])]) \<and> ca_consistent call_mod [(1, [3])] \<and> \<not> ca_le (ca_top call_mod) [(1, [3])]"
proof -
  have run: "ca_runOnModule call_mod = Some (Inr [(1, [3])])" by code_simp
  have "4 \<in> set (getConstAddrArgs (ca_top call_mod) 1)" "4 \<notin> set (getConstAddrArgs [(1, [3])] 1)" by code_simp+
  then have "\<not> ca_le (ca_top call_mod) [(1, [3])]" unfolding ca_le_def by blast
  with run constant_address_greatest[of call_mod] show ?thesis by auto
qed

text \<open>C10. The speculative taint analysis terminates, and every taint it reports is a flow from a load
  of a non-constant address.\<close>

theorem st_reports_flows:
  "\<exists>r. st_runOnFunction opt AA m ca F = Some r \<and> (\<forall>R. r = Inr R \<longrightarrow> R \<subseteq> st_flow opt AA m ca F)"
proof -
  obtain r where r: "st_runOnFunction opt AA m ca F = Some r" using st_returns by blast
  have "\<forall>R. r = Inr R \<longrightarrow> R \<subseteq> st_flow opt AA m ca F" using st_sound r by blast
  with r show ?thesis by blast
qed

lemma st_reports_flows_witness:
  "(12, 15) \<in> st_flow opt0 must_alias gate_mod (CAA_isConstantAddress gate_mod []) gate_func"
proof -
  have "st_runOnFunction opt0 must_alias gate_mod (CAA_isConstantAddress gate_mod []) gate_func =
    Some (Inr {(15, 15), (12, 15)})" by code_simp
  with st_reports_flows[of opt0 must_alias gate_mod "CAA_isConstantAddress gate_mod []" gate_func] show ?thesis
    by auto
qed

text \<open>C11. When every stored value is computed before its store in the order of the function and is
  not itself a load of a constant address, the analysis reports all flows.\<close>

theorem st_reports_all_flows:
  assumes "st_ordered m ca F" "st_runOnFunction opt AA m ca F = Some (Inr R)"
  shows "R = st_flow opt AA m ca F"
  using st_exact[OF assms(2,1)] .

lemma st_reports_all_flows_witness:
  "st_flow opt0 must_alias chain_mod (CAA_isConstantAddress chain_mod []) chain_func = {(11, 11), (12, 11), (13, 13)}"
proof -
  have "insts_of chain_mod chain_func [Store] = []" "distinct (insts chain_func)" by code_simp+
  then have ord: "st_ordered chain_mod (CAA_isConstantAddress chain_mod []) chain_func" by (simp add: st_ordered_def)
  have "st_runOnFunction opt0 must_alias chain_mod (CAA_isConstantAddress chain_mod []) chain_func =
    Some (Inr {(11, 11), (12, 11), (13, 13)})" by code_simp
  from st_reports_all_flows[OF ord this] show ?thesis by simp
qed


end
