(* ===== verification/PassProperties.thy ===== *)
theory PassProperties
  imports AnalysisProperties
begin

text \<open>
  The properties of \<open>MitigatePass\<close>: what it gives to the min-cut engine, what the cut separates, and
  what the inserted fences guarantee about the function that leaves the pass.
\<close>

lemma mp_ok_chain: "mp_ok chain_mod chain_func (\<lambda>_ _. 1)"
proof -
  have "closed_func chain_mod chain_func" "3 * length (insts chain_func) < 2 ^ 32" by code_simp+
  moreover have "weights_ok chain_mod chain_func (\<lambda>_ _. 1)" by (simp add: weights_ok_def MAX_WEIGHT_def)
  ultimately show ?thesis using wf_chain by (simp add: mp_ok_def)
qed

definition chain_an :: analyses where
  "chain_an = \<lparr>an_pub = {}, an_taints = {(11, 11), (12, 11), (13, 13)}, an_leaks = {}, an_ca = []\<rparr>"

text \<open>The pieces of a cut, to evaluate the instances.\<close>

lemma mp_cutI:
  assumes "add_sts opt m an F = Inr sts" "S_CFG m F weight = Inr G"
    "run timeout \<lparr>mc_G = G, mc_sts = map (map os_of) sts, mc_cut_edges = []\<rparr> =
       Some (Inr \<lparr>mc_G = G, mc_sts = map (map os_of) sts, mc_cut_edges = es\<rparr>)"
  shows "mp_cut opt False timeout m an F weight = Some (Inr es)"
proof -
  have "fold add_st xs mc0 = mc0\<lparr>mc_sts := mc_sts mc0 @ xs\<rparr>" for xs and mc0 :: "nat min_cut"
    by (induction xs arbitrary: mc0) (auto simp: add_st_def)
  then show ?thesis using assms by (simp add: mp_cut_def mp_problem_def mp_checkCut_def)
qed

lemma chain_cut: "mp_cut opt0 False (\<lambda>_. False) chain_mod chain_an chain_func (\<lambda>_ _. 1) = Some (Inr [(11, 12)])"
  by (rule mp_cutI[of _ _ _ _ "[[[11], [13]]]" _ "[(11, [(12, 1)]), (12, [(13, 1)]), (13, [(14, 1)]), (14, [(11, 1)])]"])
     code_simp+

lemma chain_xmit:
  "13 \<in> set (insts chain_func)" "11 \<in> set (insts chain_func)"
  "get_transmitter_sensitive_operands chain_mod 13 = Inr [(TRUE, 12)]" "is_inst chain_mod 12"
  "(12, 11) \<in> an_taints chain_an"
  by code_simp+

subsection \<open>The problem and its solution\<close>



text \<open>C23. The double check after the cut never aborts: with \<open>CHECKCUT\<close> set the pass computes the same
  as without.\<close>

theorem double_check_passes:
  assumes "mp_ok m F weight"
  shows "mp_cut opt True timeout m an F weight = mp_cut opt False timeout m an F weight"
proof (cases "mp_problem opt m an F weight")
  case mc: (Inr mc)
  show ?thesis
  proof (cases "\<exists>mc'. run timeout mc = Some (Inr mc')")
    case True
    then obtain mc' where "run timeout mc = Some (Inr mc')" ..
    with mc mp_checkCut_passes[OF assms mc this] show ?thesis by (simp add: mp_cut_def mp_checkCut_def[of False])
  next
    case False
    then show ?thesis using mc by (auto simp: mp_cut_def bindo_def split: option.splits sum.splits)
  qed
qed (simp add: mp_cut_def)

lemma double_check_passes_witness:
  "mp_cut opt0 True (\<lambda>_. False) chain_mod chain_an chain_func (\<lambda>_ _. 1) = Some (Inr [(11, 12)])"
  using double_check_passes[OF mp_ok_chain, of opt0 "\<lambda>_. False" chain_an] chain_cut by simp

text \<open>C4. The cut separates every waypoint list the pass adds: there is no walk in the control-flow
  graph without the cut edges that meets the sets of a list in order. Cut edges are control-flow
  edges or back edges from an exit to an entry.\<close>

theorem pass_cut_separates:
  assumes "mp_ok m F weight" "mp_cut opt CHECKCUT timeout m an F weight = Some (Inr es)"
  shows "\<exists>sts. add_sts opt m an F = Inr sts \<and>
    set es \<subseteq> cfg m F \<union> {(x, e). is_exit m x = Inr True \<and> is_entry m F e = Inr True} \<and>
    (\<forall>st \<in> set sts. \<forall>x \<in> set (hd st). \<not> st_walk (cfg m F - set es) (map set (tl st)) x)"
  by (rule mp_cut_law[OF assms]) blast

lemma pass_cut_separates_witness: "(11, 13) \<notin> (cfg chain_mod chain_func - {(11, 12)})\<^sup>+"
proof -
  have "add_sts opt0 chain_mod chain_an chain_func = Inr [[[11], [13]]]" by code_simp
  with pass_cut_separates[OF mp_ok_chain chain_cut] show ?thesis by simp
qed

subsection \<open>The kinds of leak\<close>

text \<open>C17. With \<open>ExpandSTs\<close>, for every load that taints an operand of a transmitter, the cut leaves no
  walk from a source of the load's address or control through the load to the transmitter.\<close>

theorem expanded_ncal_xmit_cut:
  assumes "mp_ok m F weight" "mp_cut opt CHECKCUT timeout m an F weight = Some (Inr es)"
    "en_ncal_xmit opt" "ExpandSTs opt" "l \<noteq> entry_inst F"
    "I \<in> set (insts F)" "get_transmitter_sensitive_operands m I = Inr ops" "(t, v) \<in> set ops"
    "(v, l) \<in> an_taints an" "l \<in> set (insts F)" "is_inst m v"
  shows "\<exists>sources. getSourcesForNCAAccess m F l = Inr sources \<and>
    (\<forall>s \<in> set sources. (s, l) \<notin> (cfg m F - set es)\<^sup>+ \<or> (l, I) \<notin> (cfg m F - set es)\<^sup>+)"
  by (rule ncal_xmit_triple[OF assms(1-5,6-11)]) blast

definition chain2_func :: func where
  "chain2_func = func0\<lparr>fn_args := [3], fn_blocks := [\<lparr>bb_id = 2, bb_insts = [11, 12, 13, 14, 15, 16]\<rparr>]\<rparr>"

definition chain2_vals :: "nat \<Rightarrow> vdesc" where
  "chain2_vals v = (if v = 1 then Function chain2_func else if v = 2 then BasicBlock
     else if v = 3 then Argument 1 0 PtrTy
     else if v = 11 then Inst (inst0\<lparr>opc := Load, ity := IntTy 64, operands := [3]\<rparr>)
     else if v = 12 then Inst (inst0\<lparr>opc := GetElementPtr, ity := PtrTy, operands := [3, 11]\<rparr>)
     else if v = 13 then Inst (inst0\<lparr>opc := Load, ity := IntTy 64, operands := [12]\<rparr>)
     else if v = 14 then Inst (inst0\<lparr>opc := GetElementPtr, ity := PtrTy, operands := [3, 13]\<rparr>)
     else if v = 15 then Inst (inst0\<lparr>opc := Load, ity := IntTy 64, operands := [14]\<rparr>)
     else if v = 16 then Inst (inst0\<lparr>opc := Ret\<rparr>)
     else Undef)"

definition chain2_mod :: ir_module where
  "chain2_mod = \<lparr>vals = chain2_vals, vbound = 17, fn_list = [1]\<rparr>"

definition chain2_an :: analyses where
  "chain2_an = \<lparr>an_pub = {}, an_taints = {(11, 11), (12, 11), (13, 13), (14, 13), (15, 15)}, an_leaks = {}, an_ca = []\<rparr>"

lemma mp_okI:
  "wf_func m F \<Longrightarrow> closed_func m F \<Longrightarrow> 3 * length (insts F) < 2 ^ 32 \<Longrightarrow> mp_ok m F (\<lambda>_ _. 1)"
  by (simp add: mp_ok_def weights_ok_def MAX_WEIGHT_def)

lemma expanded_ncal_xmit_cut_witness:
  "\<exists>es. mp_cut (opt0\<lparr>ExpandSTs := True\<rparr>) False (\<lambda>_. False) chain2_mod chain2_an chain2_func (\<lambda>_ _. 1) = Some (Inr es) \<and>
    ((11, 13) \<notin> (cfg chain2_mod chain2_func - set es)\<^sup>+ \<or> (13, 15) \<notin> (cfg chain2_mod chain2_func - set es)\<^sup>+)"
proof -
  have "wf_func chain2_mod chain2_func" "closed_func chain2_mod chain2_func" "3 * length (insts chain2_func) < 2 ^ 32"
    by code_simp+
  note ok = mp_okI[OF this]
  have cut: "mp_cut (opt0\<lparr>ExpandSTs := True\<rparr>) False (\<lambda>_. False) chain2_mod chain2_an chain2_func (\<lambda>_ _. 1) =
    Some (Inr [(11, 12)])"
    by (rule mp_cutI[of _ _ _ _ "[[[11], [13]], [[11], [13], [15]]]" _
          "[(11, [(12, 1)]), (12, [(13, 1)]), (13, [(14, 1)]), (14, [(15, 1)]), (15, [(16, 1)]), (16, [(11, 1)])]"])
       code_simp+
  have "en_ncal_xmit (opt0\<lparr>ExpandSTs := True\<rparr>)" "ExpandSTs (opt0\<lparr>ExpandSTs := True\<rparr>)" "13 \<noteq> entry_inst chain2_func"
    "15 \<in> set (insts chain2_func)" "get_transmitter_sensitive_operands chain2_mod 15 = Inr [(TRUE, 14)]"
    "(TRUE, 14) \<in> set [(TRUE, 14::nat)]" "(14, 13) \<in> an_taints chain2_an" "13 \<in> set (insts chain2_func)"
    "is_inst chain2_mod 14"
    by code_simp+
  from expanded_ncal_xmit_cut[OF ok cut this] obtain sources where
    "getSourcesForNCAAccess chain2_mod chain2_func 13 = Inr sources"
    "\<forall>s \<in> set sources. (s, 13) \<notin> (cfg chain2_mod chain2_func - set [(11, 12)])\<^sup>+ \<or>
       (13, 15) \<notin> (cfg chain2_mod chain2_func - set [(11, 12)])\<^sup>+" by blast
  moreover have "getSourcesForNCAAccess chain2_mod chain2_func 13 = Inr [11]" by code_simp
  ultimately have "sources = [11]" "\<forall>s \<in> set sources. (s, 13) \<notin> (cfg chain2_mod chain2_func - set [(11, 12)])\<^sup>+ \<or>
       (13, 15) \<notin> (cfg chain2_mod chain2_func - set [(11, 12)])\<^sup>+" by simp_all
  then have "(11, 13) \<notin> (cfg chain2_mod chain2_func - set [(11, 12)])\<^sup>+ \<or>
    (13, 15) \<notin> (cfg chain2_mod chain2_func - set [(11, 12)])\<^sup>+" by simp
  with cut show ?thesis by blast
qed


definition store_func :: func where
  "store_func = func0\<lparr>fn_args := [3, 4], fn_blocks := [\<lparr>bb_id = 2, bb_insts = [11, 12, 13]\<rparr>]\<rparr>"

definition store_vals :: "nat \<Rightarrow> vdesc" where
  "store_vals v = (if v = 1 then Function store_func else if v = 2 then BasicBlock
     else if v = 3 then Argument 1 0 PtrTy else if v = 4 then Argument 1 1 PtrTy
     else if v = 11 then Inst (inst0\<lparr>opc := Load, ity := IntTy 64, operands := [3]\<rparr>)
     else if v = 12 then Inst (inst0\<lparr>opc := Store, operands := [11, 4]\<rparr>)
     else if v = 13 then Inst (inst0\<lparr>opc := Ret\<rparr>)
     else Undef)"

definition store_mod :: ir_module where
  "store_mod = \<lparr>vals = store_vals, vbound = 14, fn_list = [1]\<rparr>"

definition store_an :: analyses where
  "store_an = \<lparr>an_pub = {}, an_taints = {(11, 11)}, an_leaks = {}, an_ca = []\<rparr>"

lemma store_ok: "mp_ok store_mod store_func (\<lambda>_ _. 1)"
proof -
  have "wf_func store_mod store_func" "closed_func store_mod store_func" "3 * length (insts store_func) < 2 ^ 32"
    by code_simp+
  then show ?thesis by (rule mp_okI)
qed

lemma store_cut: "mp_cut (opt0\<lparr>en_ncas_ctrl := True\<rparr>) False (\<lambda>_. False) store_mod store_an store_func (\<lambda>_ _. 1) =
    Some (Inr [(12, 13)])"
  by (rule mp_cutI[of _ _ _ _ "[[[12], [13]]]" _ "[(11, [(12, 1)]), (12, [(13, 1)]), (13, [(11, 1)])]"]) code_simp+

lemma store_before_ret:
  "ncas (opt0\<lparr>en_ncas_ctrl := True\<rparr>) store_mod store_an store_func = Inr [12]" "12 \<in> set [12::nat]"
  "13 \<in> set (insts store_func)" "isa store_mod 13 [Ret] \<or> lowered_call store_mod 13 = Inr True"
  by code_simp+


text \<open>C19. With \<open>call_xmit\<close> (the SSBD variant), every walk from a call that is lowered to a call to a
  transmitter of something that is not a constant takes a cut edge.\<close>

theorem call_xmit_cut:
  assumes "mp_ok m F weight" "mp_cut opt CHECKCUT timeout m an F weight = Some (Inr es)" "en_call_xmit opt"
    "C \<in> set (insts F)" "isa m C CallBase" "mayLowerToFunctionCall m C = Inr True"
    "I \<in> set (insts F)" "get_transmitter_sensitive_operands m I = Inr ops" "(t, v) \<in> set ops"
    "\<not> is_constant (vals m v)"
  shows "(C, I) \<notin> (cfg m F - set es)\<^sup>+"
  using assms by (rule call_xmit_pair)

definition ssbd_func :: func where
  "ssbd_func = func0\<lparr>fn_args := [7], fn_blocks := [\<lparr>bb_id = 6, bb_insts = [21, 22, 23]\<rparr>]\<rparr>"

definition ssbd_vals :: "nat \<Rightarrow> vdesc" where
  "ssbd_vals v = (if v = 1 then Function func0 else if v = 5 then Function ssbd_func
     else if v = 6 then BasicBlock else if v = 7 then Argument 5 0 PtrTy
     else if v = 21 then Inst (inst0\<lparr>opc := Call, operands := [1]\<rparr>)
     else if v = 22 then Inst (inst0\<lparr>opc := Load, ity := IntTy 64, operands := [7]\<rparr>)
     else if v = 23 then Inst (inst0\<lparr>opc := Ret\<rparr>)
     else Undef)"

definition ssbd_mod :: ir_module where
  "ssbd_mod = \<lparr>vals = ssbd_vals, vbound = 24, fn_list = [1, 5]\<rparr>"

lemma call_xmit_cut_witness: "(21, 22) \<notin> (cfg ssbd_mod ssbd_func - {(21, 22)})\<^sup>+"
proof -
  have "wf_func ssbd_mod ssbd_func" "closed_func ssbd_mod ssbd_func" "3 * length (insts ssbd_func) < 2 ^ 32"
    by code_simp+
  note ok = mp_okI[OF this]
  have cut: "mp_cut (opt0\<lparr>en_ncal_xmit := False, en_call_xmit := True\<rparr>) False (\<lambda>_. False) ssbd_mod chain_an ssbd_func (\<lambda>_ _. 1) =
    Some (Inr [(21, 22)])"
    by (rule mp_cutI[of _ _ _ _ "[[[21], [22]]]" _ "[(21, [(22, 1)]), (22, [(23, 1)]), (23, [(21, 1), (22, 1)])]"])
       code_simp+
  have "en_call_xmit (opt0\<lparr>en_ncal_xmit := False, en_call_xmit := True\<rparr>)" "21 \<in> set (insts ssbd_func)"
    "isa ssbd_mod 21 CallBase" "mayLowerToFunctionCall ssbd_mod 21 = Inr True" "22 \<in> set (insts ssbd_func)"
    "get_transmitter_sensitive_operands ssbd_mod 22 = Inr [(TRUE, 7)]"
    "(TRUE, 7) \<in> set [(TRUE, 7::nat)]" "\<not> is_constant (vals ssbd_mod 7)"
    by code_simp+
  from call_xmit_cut[OF ok cut this] show ?thesis by simp
qed

text \<open>C20. With \<open>load_xmit\<close>, every walk from a load to a transmitter of a value computed from it takes a
  cut edge.\<close>

theorem load_xmit_cut:
  assumes "mp_ok m F weight" "mp_cut opt CHECKCUT timeout m an F weight = Some (Inr es)" "en_load_xmit opt"
    "I \<in> set (insts F)" "get_transmitter_sensitive_operands m I = Inr ops" "(t, v) \<in> set ops"
    "incoming_list m v = Inr ls" "L \<in> set ls" "isa m L [Load]"
  shows "(L, I) \<notin> (cfg m F - set es)\<^sup>+"
  using assms by (rule load_xmit_pair)

lemma load_xmit_cut_witness: "(11, 13) \<notin> (cfg chain_mod chain_func - {(11, 12), (13, 14)})\<^sup>+"
proof -
  have cut: "mp_cut (opt0\<lparr>en_ncal_xmit := False, en_load_xmit := True\<rparr>) False (\<lambda>_. False) chain_mod chain_an chain_func (\<lambda>_ _. 1) =
    Some (Inr [(11, 12), (13, 14)])"
    by (rule mp_cutI[of _ _ _ _ "[[[], [11]], [[], [12]], [[11], [13]], [[], [14]], [[], [11, 13]], [[13], [14]]]" _
          "[(11, [(12, 1)]), (12, [(13, 1)]), (13, [(14, 1)]), (14, [(11, 1)])]"])
       code_simp+
  have "en_load_xmit (opt0\<lparr>en_ncal_xmit := False, en_load_xmit := True\<rparr>)" "(TRUE, 12) \<in> set [(TRUE, 12::nat)]"
    "incoming_list chain_mod 12 = Inr [3, 11]" "11 \<in> set [3, 11::nat]" "isa chain_mod 11 [Load]"
    by code_simp+
  from load_xmit_cut[OF mp_ok_chain cut this(1) chain_xmit(1,3) this(2-5)] show ?thesis by simp
qed

subsection \<open>The function after the pass\<close>

text \<open>C24. The assertion in the statistics that every load from a non-constant address is speculatively
  secret never fails, for the taints the analysis computed with the same constant addresses.\<close>

theorem ncal_assertion_holds:
  assumes "st_runOnFunction opt AA m (CAA m an) F = Some (Inr (an_taints an))" "wf_func m F" "closed_func m F"
    "\<forall>L \<in> set (insts_of m F [Load]). \<exists>b. CAA m an (getPointerOperand (ins m L)) = Inr b"
  shows "\<exists>s'. foldr_res (count_loads m an) (insts_of m F [Load]) s = Inr s'"
proof (rule count_loads_total)
  fix L assume L: "L \<in> set (insts_of m F [Load])"
  with assms(2) have inst: "is_inst m L" using wf_func_is_inst insts_of_in by blast
  with assms(3) have "L \<noteq> null" by (auto simp: closed_func_def)
  moreover assume "CAA m an (getPointerOperand (ins m L)) = Inr False"
  ultimately show "ST_secret m an L = Inr True"
    using ncal_taints_itself[OF assms(1) L] inst by (auto simp: ST_secret_def st_secret_def)
next
  show "null \<notin> set (insts_of m F [Load])"
    using assms(3) by (auto simp: closed_func_def insts_of_def isa_def)
qed (use assms(4) in blast)

lemma ncal_assertion_holds_witness:
  "\<exists>s'. foldr_res (count_loads chain_mod chain_an) (insts_of chain_mod chain_func [Load])
     \<lparr>ls_cal = 0, ls_cal_leak = 0, ls_cal_specsec = 0, ls_ncal_leak = 0, ls_ncal_safe = 0\<rparr> = Inr s'"
proof -
  have run: "st_runOnFunction opt0 must_alias chain_mod (CAA chain_mod chain_an) chain_func = Some (Inr (an_taints chain_an))"
    and cl: "closed_func chain_mod chain_func" by code_simp+
  have "\<forall>L \<in> set (insts_of chain_mod chain_func [Load]). CAA chain_mod chain_an (getPointerOperand (ins chain_mod L)) = Inr False"
    by code_simp
  then show ?thesis by (intro ncal_assertion_holds[OF run wf_chain cl]) blast
qed

text \<open>C21. \<open>CreateMitigation\<close> inserts in front of the first instruction from the given one on that is no
  PHI; the function stays well-formed, and afterwards nothing reaches that instruction from an old
  instruction without executing an \<open>lfence\<close> on the way.\<close>

theorem mitigation_guards:
  assumes "edit_ok m f" "CreateMitigation opt f I m = Inr (m', L)"
  shows "\<exists>J. skip_phis m (fn_of m f) I = Inr J \<and> edited m m' f \<and>
    (\<forall>u \<in> set (insts (fn_of m f)). (u, J) \<notin> hops m' (fn_of m' f) (set (insts (fn_of m f))))"
proof -
  from assms(2) obtain J where J: "skip_phis m (fn_of m f) I = Inr J" "mitigate_at opt f J m = Inr (m', L)"
    by (auto simp: CreateMitigation_def bindr_eq_Inr)
  have Jin: "J \<in> set (insts (fn_of m f))" by (rule skip_phis_in(1)[OF J(1)])
  from mitigate_at_hops[OF assms(1) Jin Jin order_refl J(2)] J(1) show ?thesis by auto
qed

lemma edit_ok_chain: "edit_ok chain_mod 1"
  by code_simp

lemma chain_fn: "fn_of chain_mod 1 = chain_func"
  by code_simp

lemma mitigation_guards_witness:
  "\<exists>m' L. CreateMitigation opt0 1 12 chain_mod = Inr (m', L) \<and> (11, 12) \<notin> hops m' (fn_of m' 1) {11, 12, 13, 14} \<and>
     map bb_insts (fn_blocks (fn_of m' 1)) = [[11, 15, 12, 13, 14]]"
proof -
  have e: "map_sum id (\<lambda>r. map bb_insts (fn_blocks (fn_of (fst r) 1))) (CreateMitigation opt0 1 12 chain_mod) =
    Inr [[11, 15, 12, 13, 14]]" by code_simp
  then obtain m' L where r: "CreateMitigation opt0 1 12 chain_mod = Inr (m', L)"
    "map bb_insts (fn_blocks (fn_of m' 1)) = [[11, 15, 12, 13, 14]]"
    by (cases "CreateMitigation opt0 1 12 chain_mod") auto
  have "skip_phis chain_mod chain_func 12 = Inr 12" "set (insts chain_func) = {11, 12, 13, 14}" by code_simp+
  then have "(11, 12) \<notin> hops m' (fn_of m' 1) {11, 12, 13, 14}"
    using mitigation_guards[OF edit_ok_chain r(1)] unfolding chain_fn by auto
  from r(1) this r(2) show ?thesis by (intro exI conjI)
qed



end
