(* ===== verification/SplitFence.thy ===== *)
theory SplitFence
  imports Fence
begin

text \<open>
  Mitigated edges that end at a join point. There \<open>getMitigationPoint\<close> splits the edge with LLVM's
  \<open>SplitEdge\<close> and puts the \<open>lfence\<close> into the new block. What \<open>SplitEdge\<close> promises is the locale
  \<open>edge_splitter\<close>: a critical edge gets a block of its own; otherwise the source block is split before its
  terminator. The result for the whole list of edges, \<open>mitigated_walks_split\<close>, needs no condition on where the
  edges end.
\<close>

subsection \<open>What an edit keeps\<close>

text \<open>The instructions stay, up to the targets of a terminator.\<close>

definition keeps :: "ir_module \<Rightarrow> ir_module \<Rightarrow> nat \<Rightarrow> bool" where
  "keeps m m' f \<longleftrightarrow> edit_ok m' f \<and> set (insts (fn_of m f)) \<subseteq> set (insts (fn_of m' f)) \<and>
     (\<forall>u \<in> set (insts (fn_of m f)). \<exists>s os. vals m' u = Inst (ins m u\<lparr>succs := s, operands := os\<rparr>) \<and>
       (distinct (succs (ins m u)) \<longrightarrow> distinct s) \<and> (succs (ins m u) = [] \<longrightarrow> s = []))"

lemma keeps_inst:
  assumes "keeps m m' f" "u \<in> set (insts (fn_of m f))" "edit_ok m f"
  shows "isa m' u os = isa m u os" "isTerminator m' u = isTerminator m u" "is_MitigationInst m' u = is_MitigationInst m u"
    "distinct (succs (ins m u)) \<Longrightarrow> distinct (succs (ins m' u))" "succs (ins m u) = [] \<Longrightarrow> succs (ins m' u) = []"
proof -
  from assms(1,2) obtain s os' where s: "vals m' u = Inst (ins m u\<lparr>succs := s, operands := os'\<rparr>)" "distinct (succs (ins m u)) \<Longrightarrow> distinct s"
    "succs (ins m u) = [] \<Longrightarrow> s = []"
    unfolding keeps_def by blast
  have "is_inst m u" using assms(2,3) wf_func_is_inst by (auto simp: edit_ok_def)
  then have i: "isa m' u os = isa m u os" for os using s(1) by (simp add: isa_def is_inst_def ins_def)
  then show "isa m' u os = isa m u os" "isTerminator m' u = isTerminator m u" by (simp_all add: isTerminator_def)
  show "is_MitigationInst m' u = is_MitigationInst m u"
    using s(1) i by (simp add: is_MitigationInst_def intrinsic_id_def ins_def)
  show "distinct (succs (ins m u)) \<Longrightarrow> distinct (succs (ins m' u))" "succs (ins m u) = [] \<Longrightarrow> succs (ins m' u) = []"
    using s by (simp_all add: ins_def)
qed

lemma edited_keeps: "edit_ok m f \<Longrightarrow> edited m m' f \<Longrightarrow> keeps m m' f"
  unfolding keeps_def edited_def
proof (elim conjE, intro conjI ballI)
  fix u assume ok: "edit_ok m f" and u: "u \<in> set (insts (fn_of m f))" and v: "\<forall>u \<in> set (insts (fn_of m f)). vals m' u = vals m u"
  have "is_inst m u" using ok u wf_func_is_inst by (auto simp: edit_ok_def)
  then have "vals m u = Inst (ins m u)" by (auto simp: is_inst_def ins_def split: vdesc.splits)
  with u v show "\<exists>s os. vals m' u = Inst (ins m u\<lparr>succs := s, operands := os\<rparr>) \<and>
      (distinct (succs (ins m u)) \<longrightarrow> distinct s) \<and> (succs (ins m u) = [] \<longrightarrow> s = [])"
    by (intro exI[of _ "succs (ins m u)"] exI[of _ "operands (ins m u)"]) simp
qed simp_all

lemma keeps_trans:
  assumes "edit_ok m f" "keeps m m1 f" "keeps m1 m2 f"
  shows "keeps m m2 f"
  unfolding keeps_def
proof (intro conjI ballI)
  show "edit_ok m2 f" "set (insts (fn_of m f)) \<subseteq> set (insts (fn_of m2 f))" using assms(2,3) by (auto simp: keeps_def)
  fix u assume u: "u \<in> set (insts (fn_of m f))"
  let ?P = "\<lambda>m u s. (distinct (succs (ins m u)) \<longrightarrow> distinct s) \<and> (succs (ins m u) = [] \<longrightarrow> s = [])"
  from u assms(2) obtain s os where s: "vals m1 u = Inst (ins m u\<lparr>succs := s, operands := os\<rparr>)" "?P m u s"
    unfolding keeps_def by blast
  have "u \<in> set (insts (fn_of m1 f))" using u assms(2) by (auto simp: keeps_def)
  with assms(3) obtain t ot where t: "vals m2 u = Inst (ins m1 u\<lparr>succs := t, operands := ot\<rparr>)" "?P m1 u t"
    unfolding keeps_def by blast
  from s t show "\<exists>s os. vals m2 u = Inst (ins m u\<lparr>succs := s, operands := os\<rparr>) \<and> ?P m u s"
    by (intro exI[of _ t] exI[of _ ot]) (simp add: ins_def)
qed

text \<open>An edge the pass can still handle: it is there, or its end is no join point.\<close>

definition ready :: "ir_module \<Rightarrow> nat \<Rightarrow> nat \<times> nat \<Rightarrow> bool" where
  "ready m f e \<longleftrightarrow> snd e \<in> set (insts (fn_of m f)) \<and>
     (e \<in> cfg m (fn_of m f) \<or> length (predecessors m (fn_of m f) (snd e)) \<le> 1)"

lemma insert_before_pred:
  assumes ok: "edit_ok m f" and e: "insert_before f J i m = (m', a)" and i: "opc i \<notin> set Terminator"
    and J: "J \<in> set (insts (fn_of m f))"
  shows "predecessors m' (fn_of m' f) J = [a]"
proof -
  note law = insert_before_law[OF ok e i]
  from law(1) have wf': "wf_func m' (fn_of m' f)" by (simp add: edit_ok_def)
  from J obtain B where B: "B \<in> set (fn_blocks (fn_of m f))" "J \<in> set (bb_insts B)" by (auto simp: in_insts)
  from split_list_first[OF B(2)] obtain as bs where xs: "bb_insts B = as @ J # bs" "J \<notin> set as" by blast
  have B': "B\<lparr>bb_insts := put_before J [a] (bb_insts B)\<rparr> \<in> set (fn_blocks (fn_of m' f))"
    using B(1) by (simp add: law(8) insts_before_def)
  have "bb_insts (B\<lparr>bb_insts := put_before J [a] (bb_insts B)\<rparr>) = as @ a # J # bs" by (simp add: xs put_before_split)
  from predecessors_mid[OF wf' B' this] show ?thesis .
qed

lemma insert_before_ready:
  assumes ok: "edit_ok m f" and e: "insert_before f J i m = (m', a)" and i: "opc i \<notin> set Terminator"
    and J: "J \<in> set (insts (fn_of m f))" and r: "ready m f e'"
  shows "ready m' f e'"
proof -
  from r have s: "snd e' \<in> set (insts (fn_of m f))" by (simp add: ready_def)
  have s': "snd e' \<in> set (insts (fn_of m' f))" using insert_before_edited[OF ok e i] s by (auto simp: edited_def)
  show ?thesis
  proof (cases "snd e' = J")
    case True
    with insert_before_pred[OF ok e i J] s' show ?thesis by (simp add: ready_def)
  next
    case False
    have "e' \<in> cfg m' (fn_of m' f) \<or> length (predecessors m' (fn_of m' f) (snd e')) \<le> 1"
    proof (cases "e' \<in> cfg m (fn_of m f)")
      case True
      with False insert_before_cfg[OF ok e i J] show ?thesis by (cases e') auto
    next
      case no: False
      with r insert_before_no_join[OF ok e i s] show ?thesis by (simp add: ready_def)
    qed
    with s' show ?thesis by (simp add: ready_def)
  qed
qed

subsection \<open>A fence in place\<close>

lemma mitigate_at_law:
  assumes ok: "edit_ok m f" and J: "J \<in> set (insts (fn_of m f))" and r: "mitigate_at opt f J m = Inr (m', L)"
  shows "edited m m' f" "L \<notin> set (insts (fn_of m f))" "is_MitigationInst m' L"
    "x \<in> set (insts (fn_of m f)) \<Longrightarrow>
      (x, y) \<in> cfg m' (fn_of m' f) \<longleftrightarrow> (x, y) \<in> cfg m (fn_of m f) \<and> y \<noteq> J \<or> y = L \<and> (x, J) \<in> cfg m (fn_of m f)"
    "ready m f e \<Longrightarrow> ready m' f e"
proof -
  define lf where "lf = intrinsic_call (x86 sse2_lfence) [''clou.mitigation'']"
  define mf where "mf = intrinsic_call (x86 sse2_mfence) []"
  have i: "opc lf \<notin> set Terminator" "opc mf \<notin> set Terminator" by (simp_all add: lf_def mf_def intrinsic_call_def inst0_def)
  obtain m1 a where e: "insert_before f J lf m = (m1, a)" by (cases "insert_before f J lf m")
  obtain m2 b where e2: "insert_before f J mf m1 = (m2, b)" by (cases "insert_before f J mf m1")
  note law = insert_before_law[OF ok e i(1)]
  have ed: "edited m m1 f" by (rule insert_before_edited[OF ok e i(1)])
  have J1: "J \<in> set (insts (fn_of m1 f))" using ed J by (auto simp: edited_def)
  note law2 = insert_before_law[OF law(1) e2 i(2)]
  have ed2: "edited m m2 f" using edited_trans[OF ed insert_before_edited[OF law(1) e2 i(2)]] .
  have m': "m' = (if InsertTrapAfterMitigations opt then m2 else m1)" "L = a"
    using r by (auto simp: mitigate_at_def e[unfolded lf_def] e2[unfolded mf_def] split: if_splits)
  show "edited m m' f" using ed ed2 by (simp add: m')
  show fresh: "L \<notin> set (insts (fn_of m f))" using ok by (auto simp: m' edit_ok_def law(3))
  have mit1: "is_MitigationInst m1 a" using law(4,5) by (intro lfence_is_mitigation) (simp_all add: lf_def)
  have "a \<noteq> b" "a \<noteq> f" using ok by (auto simp: law(3,7) law2(3) edit_ok_def)
  then have "is_MitigationInst m2 a" using mit1 law2(6) is_MitigationInst_cong[of m2 a m1] by simp
  with mit1 show "is_MitigationInst m' L" by (simp add: m')
  have ab: "a \<noteq> J" "b \<notin> set (insts (fn_of m1 f))" using fresh J law(1) by (auto simp: m' edit_ok_def law2(3))
  have nb: "(u, b) \<notin> cfg m1 (fn_of m1 f)" for u
    using ab(2) cfg_in_insts[of m1 "fn_of m1 f" u b] law(1) by (auto simp: edit_ok_def cfg_def)
  note c1 = insert_before_cfg[OF ok e i(1) J] and c2 = insert_before_cfg[OF law(1) e2 i(2) J1]
  {
    assume x: "x \<in> set (insts (fn_of m f))"
    then have xa: "x \<noteq> a" "x \<noteq> b" using fresh ab(2) ed by (auto simp: m' edited_def)
    have c: "(x, y) \<in> cfg m1 (fn_of m1 f) \<longleftrightarrow> (x, y) \<in> cfg m (fn_of m f) \<and> y \<noteq> J \<or> y = L \<and> (x, J) \<in> cfg m (fn_of m f)" for y
      unfolding c1 using xa(1) by (auto simp: m')
    have "(x, J) \<notin> cfg m1 (fn_of m1 f)" using c ab(1) by (auto simp: m')
    then have "(x, y) \<in> cfg m2 (fn_of m2 f) \<longleftrightarrow> (x, y) \<in> cfg m1 (fn_of m1 f)" for y
      unfolding c2 using xa(2) by auto
    with c show "(x, y) \<in> cfg m' (fn_of m' f) \<longleftrightarrow> (x, y) \<in> cfg m (fn_of m f) \<and> y \<noteq> J \<or> y = L \<and> (x, J) \<in> cfg m (fn_of m f)"
      by (simp add: m')
  }
  assume "ready m f e"
  then have "ready m1 f e" by (rule insert_before_ready[OF ok e i(1) J])
  moreover from this have "ready m2 f e" by (rule insert_before_ready[OF law(1) e2 i(2) J1])
  ultimately show "ready m' f e" by (simp add: m')
qed

subsection \<open>Steps that close edges\<close>

text \<open>\<open>closes m m' f R\<close>: the edit adds instructions that a mitigation-free walk can enter but not leave, and
  what is left of the old free edges is not in \<open>R\<close>; or it adds nothing to them.\<close>

definition closes :: "ir_module \<Rightarrow> ir_module \<Rightarrow> nat \<Rightarrow> (nat \<times> nat) set \<Rightarrow> bool" where
  "closes m m' f R \<longleftrightarrow> keeps m m' f \<and> (\<exists>Z. Z \<inter> set (insts (fn_of m f)) = {} \<and>
     (\<forall>x \<in> set (insts (fn_of m f)). \<forall>y. (x, y) \<in> free_cfg m' (fn_of m' f) \<longrightarrow>
        y \<in> Z \<or> (x, y) \<in> free_cfg m (fn_of m f) - R) \<and>
     (\<forall>x \<in> Z. \<forall>y. (x, y) \<in> free_cfg m' (fn_of m' f) \<longrightarrow> y \<in> Z))"

text \<open>A fence in place closes all edges into its instruction.\<close>

lemma mitigate_at_closes:
  assumes ok: "edit_ok m f" and J: "J \<in> set (insts (fn_of m f))" and r: "mitigate_at opt f J m = Inr (m', L)"
  shows "closes m m' f (UNIV \<times> {J})"
proof -
  note law = mitigate_at_law[OF ok J r]
  have k: "keeps m m' f" by (rule edited_keeps[OF ok law(1)])
  have "y \<in> {L} \<or> (x, y) \<in> free_cfg m (fn_of m f) - UNIV \<times> {J}"
    if "x \<in> set (insts (fn_of m f))" "(x, y) \<in> free_cfg m' (fn_of m' f)" for x y
    using that law(4)[OF that(1)] keeps_inst(3)[OF k that(1) ok] by (auto simp: free_cfg_def)
  moreover have "(L, y) \<notin> free_cfg m' (fn_of m' f)" for y using law(3) by (simp add: free_cfg_def)
  ultimately show ?thesis using k law(2) unfolding closes_def by (intro conjI exI[of _ "{L}"]) auto
qed

text \<open>A mitigation goes behind the PHIs; they lead only to each other and to it.\<close>

lemma skip_phis_group:
  assumes wf: "wf_func m F" and s: "skip_phis m F dst = Inr J"
  obtains P where "dst = J \<or> dst \<in> P" "\<forall>p \<in> P. isa m p [PHI]" "\<And>p y. p \<in> P \<Longrightarrow> (p, y) \<in> cfg m F \<Longrightarrow> y \<in> P \<or> y = J"
proof -
  from s obtain B Js where B: "block_of F dst = Some B"
    and d: "dropWhile (\<lambda>J. isa m J [PHI]) (dropWhile (\<lambda>J. J \<noteq> dst) (bb_insts B)) = J # Js"
    by (auto simp: skip_phis_def split: option.splits list.splits)
  from block_of_SomeD[OF B] have Bin: "B \<in> set (fn_blocks F)" "dst \<in> set (bb_insts B)" by auto
  from split_list_first[OF Bin(2)] obtain as bs where xs: "bb_insts B = as @ dst # bs" "dst \<notin> set as" by blast
  define ps where "ps = takeWhile (\<lambda>J. isa m J [PHI]) (dst # bs)"
  have "dst # bs = ps @ J # Js" using d takeWhile_dropWhile_id[of "\<lambda>J. isa m J [PHI]" "dst # bs"]
    by (simp add: ps_def xs dropWhile_mid)
  then have all: "bb_insts B = as @ ps @ J # Js" and hd: "dst = hd (ps @ [J])" by (simp_all add: xs) (cases ps; simp)
  have "y \<in> set ps \<or> y = J" if p: "p \<in> set ps" and e: "(p, y) \<in> cfg m F" for p y
  proof -
    from split_list[OF p] obtain qs rs where ps: "ps = qs @ p # rs" by blast
    obtain z zs where z: "rs @ J # Js = z # zs" "z \<in> set rs \<or> z = J" by (cases rs) auto
    have "bb_insts B = (as @ qs) @ p # z # zs" using all z(1) by (simp add: ps)
    from successors_mid[OF wf Bin(1) this] e z(2) show ?thesis by (auto simp: cfg_def ps)
  qed
  moreover have "\<forall>p \<in> set ps. isa m p [PHI]" by (auto simp: ps_def dest: set_takeWhileD)
  moreover have "dst = J \<or> dst \<in> set ps" using hd by (cases ps) auto
  ultimately show ?thesis using that[of "set ps"] by blast
qed

subsection \<open>What LLVM's splitting of an edge promises\<close>

text \<open>\<open>subdivides m m' f S J a\<close>: the new instruction \<open>a\<close> stands in the edges \<open>S\<close> into \<open>J\<close>, and no instruction
  becomes a join point.\<close>

definition subdivides :: "ir_module \<Rightarrow> ir_module \<Rightarrow> nat \<Rightarrow> (nat \<times> nat) set \<Rightarrow> nat \<Rightarrow> nat \<Rightarrow> bool" where
  "subdivides m m' f S J a \<longleftrightarrow> keeps m m' f \<and> a \<in> set (insts (fn_of m' f)) - set (insts (fn_of m f)) \<and> \<not> isa m' a [PHI] \<and>
     (\<forall>x \<in> set (insts (fn_of m f)). \<forall>y. (x, y) \<in> cfg m' (fn_of m' f) \<longleftrightarrow>
        (x, y) \<in> cfg m (fn_of m f) - S \<or> y = a \<and> (x, J) \<in> cfg m (fn_of m f) \<inter> S) \<and>
     (\<forall>y. (a, y) \<in> cfg m' (fn_of m' f) \<longrightarrow> y = J) \<and>
     (\<forall>w \<in> set (insts (fn_of m f)). length (predecessors m (fn_of m f) w) \<le> 1 \<longrightarrow>
        length (predecessors m' (fn_of m' f) w) \<le> 1)"

text \<open>LLVM splits edges of branches and switches (not of \<open>indirectbr\<close>); of parallel edges it redirects only one.\<close>

definition branch_ok :: "ir_module \<Rightarrow> nat \<Rightarrow> bool" where
  "branch_ok m u \<longleftrightarrow> (isTerminator m u \<longrightarrow> distinct (succs (ins m u)) \<and> (isa m u [Br, Switch] \<or> succs (ins m u) = []))"

lemma keeps_branch_ok: "keeps m m' f \<Longrightarrow> u \<in> set (insts (fn_of m f)) \<Longrightarrow> edit_ok m f \<Longrightarrow> branch_ok m u \<Longrightarrow> branch_ok m' u"
  using keeps_inst[of m m' f u] by (auto simp: branch_ok_def)

definition can_split :: "ir_module \<Rightarrow> nat \<Rightarrow> bb \<Rightarrow> bb \<Rightarrow> bool" where
  "can_split m f B D \<longleftrightarrow> edit_ok m f \<and> B \<in> set (fn_blocks (fn_of m f)) \<and> D \<in> set (fn_blocks (fn_of m f)) \<and>
     bb_id D \<in> set (succs (ins m (last (bb_insts B)))) \<and> distinct (succs (ins m (last (bb_insts B)))) \<and>
     isa m (last (bb_insts B)) [Br, Switch] \<and> length (pred_blocks m (fn_of m f) (bb_id D)) > 1"

locale edge_splitter =
  fixes SplitEdge :: split_edge
  assumes split_critical: "can_split m f B D \<Longrightarrow> length (succs (ins m (last (bb_insts B)))) > 1 \<Longrightarrow>
      SplitEdge f (bb_id B) (bb_id D) m = (m', b) \<Longrightarrow>
      \<exists>p. subdivides m m' f {(last (bb_insts B), hd (bb_insts D))} (hd (bb_insts D)) p \<and> front_of (fn_of m' f) b = [p]"
    and split_block: "can_split m f B D \<Longrightarrow> length (succs (ins m (last (bb_insts B)))) = 1 \<Longrightarrow>
      SplitEdge f (bb_id B) (bb_id D) m = (m', b) \<Longrightarrow>
      \<exists>q. subdivides m m' f (UNIV \<times> {last (bb_insts B)}) (last (bb_insts B)) q \<and>
        front_of (fn_of m' f) b = [last (bb_insts B)] \<and> length (predecessors m' (fn_of m' f) (last (bb_insts B))) \<le> 1"

text \<open>A fence before the new instruction closes \<open>S\<close>.\<close>

lemma subdivides_closes:
  assumes ok: "edit_ok m f" and s: "subdivides m m1 f S J a" and I: "I = a \<and> S \<subseteq> UNIV \<times> {J} \<or> I = J \<and> S = UNIV \<times> {J}"
    and J: "J \<in> set (insts (fn_of m f))" and r: "mitigate_at opt f I m1 = Inr (m', L)"
  shows "closes m m' f S"
proof -
  let ?X = "set (insts (fn_of m f))"
  have k: "keeps m m1 f" and a: "a \<in> set (insts (fn_of m1 f))" "a \<notin> ?X"
    and c: "\<And>x y. x \<in> ?X \<Longrightarrow> (x, y) \<in> cfg m1 (fn_of m1 f) \<longleftrightarrow> (x, y) \<in> cfg m (fn_of m f) - S \<or> y = a \<and> (x, J) \<in> cfg m (fn_of m f) \<inter> S"
    and ca: "\<And>y. (a, y) \<in> cfg m1 (fn_of m1 f) \<Longrightarrow> y = J"
    using s by (auto simp: subdivides_def)
  have ok1: "edit_ok m1 f" and X1: "?X \<subseteq> set (insts (fn_of m1 f))" using k by (auto simp: keeps_def)
  have I1: "I \<in> set (insts (fn_of m1 f))" using I J X1 a by auto
  note law = mitigate_at_law[OF ok1 I1 r]
  have k': "keeps m m' f" using keeps_trans[OF ok k edited_keeps[OF ok1 law(1)]] .
  have L: "L \<notin> ?X" "L \<noteq> a" using law(2) X1 a(1) by auto
  have noL: "(L, y) \<notin> free_cfg m' (fn_of m' f)" for y using law(3) by (simp add: free_cfg_def)
  have old: "y \<in> {a, L} \<or> (x, y) \<in> free_cfg m (fn_of m f) - S"
    if x: "x \<in> ?X" and e: "(x, y) \<in> free_cfg m' (fn_of m' f)" for x y
  proof -
    have "x \<in> set (insts (fn_of m1 f))" using x X1 by auto
    with e law(4)[of x y] have "(x, y) \<in> cfg m1 (fn_of m1 f) \<or> y = L" by (auto simp: free_cfg_def)
    with c[OF x] e keeps_inst(3)[OF k' x ok] show ?thesis by (auto simp: free_cfg_def)
  qed
  have from_a: "y = L" if I: "I = J" and e: "(a, y) \<in> free_cfg m' (fn_of m' f)" for y
    using e law(4)[OF a(1), of y] ca I by (auto simp: free_cfg_def)
  show ?thesis
  proof (cases "I = a")
    case True
    have "y \<noteq> a" if "x \<in> ?X" "(x, y) \<in> free_cfg m' (fn_of m' f)" for x y
      using that law(4)[of x y] X1 L(2) True by (auto simp: free_cfg_def)
    with old have "y \<in> {L} \<or> (x, y) \<in> free_cfg m (fn_of m f) - S"
      if "x \<in> ?X" "(x, y) \<in> free_cfg m' (fn_of m' f)" for x y using that by blast
    with k' L noL show ?thesis unfolding closes_def by (intro conjI exI[of _ "{L}"]) auto
  next
    case False
    with I have "I = J" by simp
    from from_a[OF this] k' L a(2) noL old show ?thesis unfolding closes_def by (intro conjI exI[of _ "{a, L}"]) auto
  qed
qed

text \<open>The other edges stay ready.\<close>

lemma subdivides_ready:
  assumes s: "subdivides m m1 f S J a" and r: "ready m f e" "e \<notin> S \<or> snd e = J \<and> length (predecessors m1 (fn_of m1 f) J) \<le> 1"
  shows "ready m1 f e"
proof -
  obtain x y where e: "e = (x, y)" by (cases e)
  have y: "y \<in> set (insts (fn_of m f))" using r(1) by (simp add: ready_def e)
  then have y1: "y \<in> set (insts (fn_of m1 f))" using s by (auto simp: subdivides_def keeps_def)
  show ?thesis
  proof (cases "e \<in> cfg m (fn_of m f) \<and> e \<notin> S")
    case True
    then have "x \<in> set (insts (fn_of m f))" by (simp add: cfg_def e)
    with True s have "e \<in> cfg m1 (fn_of m1 f)" by (simp add: subdivides_def e)
    with y1 show ?thesis by (simp add: ready_def e)
  next
    case False
    have "length (predecessors m1 (fn_of m1 f) y) \<le> 1"
    proof (cases "e \<in> cfg m (fn_of m f)")
      case True
      with False r(2) show ?thesis by (simp add: e)
    next
      case no: False
      with r(1) have "length (predecessors m (fn_of m f) y) \<le> 1" by (simp add: ready_def e)
      with s y show ?thesis by (simp add: subdivides_def)
    qed
    with y1 show ?thesis by (simp add: ready_def e)
  qed
qed

subsection \<open>One edge\<close>

definition covers :: "ir_module \<Rightarrow> func \<Rightarrow> nat \<times> nat \<Rightarrow> (nat \<times> nat) set \<Rightarrow> bool" where
  "covers m F e R \<longleftrightarrow> e \<in> R \<or> isTerminator m (fst e) \<and> UNIV \<times> {fst e} \<subseteq> R \<or>
     (\<exists>P. snd e \<in> P \<and> (\<forall>p \<in> P. isa m p [PHI]) \<and> (\<forall>p y. p \<in> P \<longrightarrow> (p, y) \<in> cfg m F - R \<longrightarrow> y \<in> P))"

text \<open>A join point is the front of its block, and the edge comes from the end of one.\<close>

lemma join_edge:
  assumes ok: "edit_ok m f" and F: "F = fn_of m f" and j: "length (predecessors m F dst) > 1" and e: "(src, dst) \<in> cfg m F"
    and D: "block_of F dst = Some D" and B: "block_of F src = Some B" and t: "isTerminator m src" and br: "branch_ok m src"
  shows "dst = hd (bb_insts D)" "src = last (bb_insts B)" "can_split m f B D"
proof -
  from ok have wf: "wf_func m F" by (simp add: edit_ok_def F)
  from block_of_SomeD[OF D] block_of_SomeD[OF B] have in_D: "D \<in> set (fn_blocks F)" "dst \<in> set (bb_insts D)"
    and in_B: "B \<in> set (fn_blocks F)" "src \<in> set (bb_insts B)" by auto
  show h: "dst = hd (bb_insts D)"
    using block_split_front[OF in_D(2)] predecessors_mid[OF wf in_D(1)] j by fastforce
  show l: "src = last (bb_insts B)" using wf_last_terminator[OF wf in_B] t by simp
  from e successors_last[OF wf in_B(1)] obtain s where s: "s \<in> set (succs (ins m src))" "dst \<in> set (front_of F s)"
    by (auto simp: cfg_def l)
  then obtain D' where D': "block_at F s = Some D'" "dst \<in> set (take 1 (bb_insts D'))"
    by (cases "block_at F s") (auto simp: front_of_def)
  then have "D' \<in> set (fn_blocks F)" "bb_id D' = s" by (auto simp: block_at_def find_Some_iff)
  moreover from D'(2) have "dst \<in> set (bb_insts D')" by (rule in_set_takeD)
  ultimately have "bb_id D \<in> set (succs (ins m src))" using wf_block_unique[OF wf in_D(1) _ in_D(2)] s(1) by auto
  moreover have "length (pred_blocks m F (bb_id D)) > 1" using predecessors_front[OF wf in_D(1)] j h by simp
  ultimately show "can_split m f B D" using ok in_D in_B br t l
    by (auto simp: can_split_def F branch_ok_def)
qed

text \<open>An edge that ends at no join point is closed where it ends, or behind the PHIs there.\<close>

lemma plain_edge_closes:
  assumes ok: "edit_ok m f" and r: "mitigate_edge opt SplitEdge f e m = Inr m'"
    and nj: "\<not> shouldCutEdge m (fn_of m f) (fst e) (snd e)"
  shows "\<exists>R. closes m m' f R \<and> covers m (fn_of m f) e R \<and> (\<forall>e'. ready m f e' \<longrightarrow> ready m' f e')"
proof -
  from edge_in_place[OF r nj] obtain J L where J: "skip_phis m (fn_of m f) (snd e) = Inr J" "mitigate_at opt f J m = Inr (m', L)" .
  have Jin: "J \<in> set (insts (fn_of m f))" by (rule skip_phis_in(1)[OF J(1)])
  from ok have wf: "wf_func m (fn_of m f)" by (simp add: edit_ok_def)
  have "covers m (fn_of m f) e (UNIV \<times> {J})"
  proof (rule skip_phis_group[OF wf J(1)])
    fix P assume P: "snd e = J \<or> snd e \<in> P" "\<forall>p \<in> P. isa m p [PHI]"
      "\<And>p y. p \<in> P \<Longrightarrow> (p, y) \<in> cfg m (fn_of m f) \<Longrightarrow> y \<in> P \<or> y = J"
    show ?thesis
    proof (cases "snd e = J")
      case True
      then have "e \<in> UNIV \<times> {J}" by (cases e) simp
      then show ?thesis by (simp add: covers_def)
    next
      case False
      with P have "snd e \<in> P \<and> (\<forall>p \<in> P. isa m p [PHI]) \<and> (\<forall>p y. p \<in> P \<longrightarrow> (p, y) \<in> cfg m (fn_of m f) - UNIV \<times> {J} \<longrightarrow> y \<in> P)"
        by blast
      then show ?thesis unfolding covers_def by blast
    qed
  qed
  with mitigate_at_closes[OF ok Jin J(2)] mitigate_at_law(5)[OF ok Jin J(2)] show ?thesis by blast
qed

context edge_splitter
begin

lemma mitigate_edge_closes:
  assumes ok: "edit_ok m f" and r: "mitigate_edge opt SplitEdge f e m = Inr m'" and rd: "ready m f e"
    and br: "branch_ok m (fst e)"
  obtains R where "closes m m' f R" "covers m (fn_of m f) e R" "\<And>e'. e' \<noteq> e \<Longrightarrow> ready m f e' \<Longrightarrow> ready m' f e'"
proof (cases "shouldCutEdge m (fn_of m f) (fst e) (snd e)")
  case False
  from plain_edge_closes[OF ok r False] that show ?thesis by blast
next
  case True
  note finish = that
  obtain src dst where e: "e = (src, dst)" by (cases e)
  let ?F = "fn_of m f"
  have j: "length (predecessors m ?F dst) > 1" using True by (simp add: shouldCutEdge_def e)
  with rd have c: "(src, dst) \<in> cfg m ?F" and din: "dst \<in> set (insts ?F)" by (auto simp: ready_def e)
  from r True obtain B D where b: "block_of ?F src = Some B" "block_of ?F dst = Some D" "isTerminator m src"
    by (auto simp: mitigate_edge_def getMitigationPoint_def Let_def bindr_eq_Inr e split: option.splits)
  have br': "branch_ok m src" using br by (simp add: e)
  note je = join_edge[OF ok refl j c b(2,1,3) br']
  obtain m1 b1 where sp: "SplitEdge f (bb_id B) (bb_id D) m = (m1, b1)" by (cases "SplitEdge f (bb_id B) (bb_id D) m")
  have point: "\<exists>I Is L. front_of (fn_of m1 f) b1 = I # Is \<and> CreateMitigation opt f I m1 = Inr (m', L)"
    using r True b je(1) sp
    by (auto simp: mitigate_edge_def getMitigationPoint_def Let_def bindr_eq_Inr e split: option.splits list.splits)
  have src_in: "src \<in> set (insts ?F)" using c by (simp add: cfg_def)
  have nphi: "\<not> isa m src [PHI]" using b(3) by (auto simp: isTerminator_def isa_def)
  have ne: "succs (ins m (last (bb_insts B))) \<noteq> []" using je(3) by (auto simp: can_split_def)
  have fin: thesis if s: "subdivides m m1 f S J a" and I: "front_of (fn_of m1 f) b1 = [I]"
      "I = a \<and> S \<subseteq> UNIV \<times> {J} \<or> I = J \<and> S = UNIV \<times> {J}" "\<not> isa m1 I [PHI]"
    and J: "J \<in> set (insts ?F)" and cov: "covers m ?F e S"
    and S: "\<And>e'. e' \<noteq> e \<Longrightarrow> e' \<in> S \<Longrightarrow> snd e' = J \<and> length (predecessors m1 (fn_of m1 f) J) \<le> 1" for S J a I
  proof -
    have k: "keeps m m1 f" and ok1: "edit_ok m1 f" using s by (auto simp: subdivides_def keeps_def)
    have Iin: "I \<in> set (insts (fn_of m1 f))" using I(2) J s by (auto simp: subdivides_def keeps_def)
    have wf1: "wf_func m1 (fn_of m1 f)" using ok1 by (simp add: edit_ok_def)
    from point I(1) obtain L where "CreateMitigation opt f I m1 = Inr (m', L)" by auto
    with skip_phis_self[OF wf1 Iin I(3)] have mt: "mitigate_at opt f I m1 = Inr (m', L)" by (simp add: CreateMitigation_def)
    have "ready m' f e'" if "e' \<noteq> e" "ready m f e'" for e'
      using mitigate_at_law(5)[OF ok1 Iin mt] subdivides_ready[OF s that(2)] S[OF that(1)] by blast
    from finish[OF subdivides_closes[OF ok s I(2) J mt] cov this] show thesis .
  qed
  show ?thesis
  proof (cases "length (succs (ins m (last (bb_insts B)))) > 1")
    case crit: True
    from split_critical[OF je(3) crit sp] obtain p where
      p: "subdivides m m1 f {(src, dst)} dst p" "front_of (fn_of m1 f) b1 = [p]" by (auto simp: je(1,2)[symmetric])
    have "\<not> isa m1 p [PHI]" using p(1) by (simp add: subdivides_def)
    with p din show ?thesis by (intro fin[of "{e}" dst p p]) (auto simp: e covers_def)
  next
    case False
    with ne have one: "length (succs (ins m (last (bb_insts B)))) = 1" by (cases "succs (ins m (last (bb_insts B)))") auto
    from split_block[OF je(3) one sp] obtain q where
      q: "subdivides m m1 f (UNIV \<times> {src}) src q" "front_of (fn_of m1 f) b1 = [src]" "length (predecessors m1 (fn_of m1 f) src) \<le> 1"
      by (auto simp: je(1,2)[symmetric])
    have "keeps m m1 f" using q(1) by (simp add: subdivides_def)
    then have "\<not> isa m1 src [PHI]" using keeps_inst(1) src_in ok nphi by blast
    with q src_in b(3) show ?thesis by (intro fin[of "UNIV \<times> {src}" src q src]) (auto simp: e covers_def)
  qed
qed

text \<open>All edges: what a mitigation-free walk between old instructions can still do.\<close>

end

definition old_edges :: "ir_module \<Rightarrow> nat \<Rightarrow> nat set \<Rightarrow> (nat \<times> nat) set" where
  "old_edges m f U = free_cfg m (fn_of m f) \<inter> U \<times> U"

text \<open>Walks do not come back from the instructions that were added.\<close>

definition no_return :: "ir_module \<Rightarrow> nat \<Rightarrow> nat set \<Rightarrow> nat set \<Rightarrow> bool" where
  "no_return m f U Z \<longleftrightarrow> Z \<inter> U = {} \<and> Z \<subseteq> set (insts (fn_of m f)) \<and>
     (\<forall>x \<in> U. \<forall>y. (x, y) \<in> free_cfg m (fn_of m f) \<longrightarrow> y \<in> U \<union> Z) \<and>
     (\<forall>x \<in> Z. \<forall>y. (x, y) \<in> free_cfg m (fn_of m f) \<longrightarrow> y \<in> Z)"

lemma no_return_step:
  assumes c: "closes m m' f R" and ok: "edit_ok m f" and n: "no_return m f U Z" and U: "U \<subseteq> set (insts (fn_of m f))"
  shows "\<exists>Z'. no_return m' f U Z'" "old_edges m' f U \<subseteq> old_edges m f U - R"
proof -
  let ?X = "set (insts (fn_of m f))"
  from c obtain Y where Y: "Y \<inter> ?X = {}"
    "\<And>x y. x \<in> ?X \<Longrightarrow> (x, y) \<in> free_cfg m' (fn_of m' f) \<Longrightarrow> y \<in> Y \<or> (x, y) \<in> free_cfg m (fn_of m f) - R"
    "\<And>x y. x \<in> Y \<Longrightarrow> (x, y) \<in> free_cfg m' (fn_of m' f) \<Longrightarrow> y \<in> Y" and k: "keeps m m' f" unfolding closes_def by blast
  let ?X' = "set (insts (fn_of m' f))"
  have ok': "edit_ok m' f" and XX: "?X \<subseteq> ?X'" using k by (auto simp: keeps_def)
  have tgt: "y \<in> ?X'" if "(x, y) \<in> free_cfg m' (fn_of m' f)" for x y
    using that cfg_in_insts[of m' "fn_of m' f" x y] ok' by (auto simp: free_cfg_def edit_ok_def cfg_def)
  from n have Z: "Z \<inter> U = {}" "Z \<subseteq> ?X" "\<And>x y. x \<in> U \<Longrightarrow> (x, y) \<in> free_cfg m (fn_of m f) \<Longrightarrow> y \<in> U \<union> Z"
    "\<And>x y. x \<in> Z \<Longrightarrow> (x, y) \<in> free_cfg m (fn_of m f) \<Longrightarrow> y \<in> Z" unfolding no_return_def by blast+
  define Z' where "Z' = Z \<union> Y \<inter> ?X'"
  have "Z' \<inter> U = {}" using Z(1) Y(1) U by (auto simp: Z'_def)
  moreover have "Z' \<subseteq> ?X'" using Z(2) XX by (auto simp: Z'_def)
  moreover have "y \<in> U \<union> Z'" if x: "x \<in> U" and e: "(x, y) \<in> free_cfg m' (fn_of m' f)" for x y
    using Y(2)[of x y] Z(3)[OF x] x U e tgt[OF e] by (auto simp: Z'_def)
  moreover have "y \<in> Z'" if x: "x \<in> Z'" and e: "(x, y) \<in> free_cfg m' (fn_of m' f)" for x y
  proof (cases "x \<in> Y")
    case True
    from Y(3)[OF this e] tgt[OF e] show ?thesis by (simp add: Z'_def)
  next
    case False
    with x have xz: "x \<in> Z" by (simp add: Z'_def)
    from Y(2)[OF subsetD[OF Z(2) xz] e] show ?thesis
    proof
      assume "y \<in> Y"
      with tgt[OF e] show ?thesis by (simp add: Z'_def)
    next
      assume "(x, y) \<in> free_cfg m (fn_of m f) - R"
      then have "y \<in> Z" by (intro Z(4)[OF xz]) simp
      then show ?thesis by (simp add: Z'_def)
    qed
  qed
  ultimately have "no_return m' f U Z'" unfolding no_return_def by (intro conjI ballI allI impI) simp_all
  then show "\<exists>Z'. no_return m' f U Z'" ..
  show "old_edges m' f U \<subseteq> old_edges m f U - R"
  proof
    fix e assume "e \<in> old_edges m' f U"
    then obtain x y where e: "e = (x, y)" "(x, y) \<in> free_cfg m' (fn_of m' f)" and xy: "x \<in> U" "y \<in> U"
      by (cases e) (simp add: old_edges_def)
    have "y \<notin> Y" using xy(2) U Y(1) by blast
    with Y(2)[OF subsetD[OF U xy(1)] e(2)] xy show "e \<in> old_edges m f U - R" by (simp add: old_edges_def e(1))
  qed
qed

lemma no_return_walk:
  assumes n: "no_return m f U Z" and w: "(u, v) \<in> (free_cfg m (fn_of m f))\<^sup>+" and uv: "u \<in> U" "v \<in> U"
  shows "(u, v) \<in> (old_edges m f U)\<^sup>+"
proof -
  have "(u \<in> U \<longrightarrow> v \<in> U \<and> (u, v) \<in> (old_edges m f U)\<^sup>+ \<or> v \<in> Z) \<and> (u \<in> Z \<longrightarrow> v \<in> Z)"
    using w
  proof (induction rule: trancl_induct)
    case (base y)
    with n show ?case by (fastforce simp: no_return_def old_edges_def)
  next
    case (step y z)
    have "z \<in> Z" if "y \<in> Z" using that n step(2) unfolding no_return_def by blast
    moreover have "z \<in> U \<and> (y, z) \<in> old_edges m f U \<or> z \<in> Z" if "y \<in> U"
      using that n step(2) unfolding no_return_def old_edges_def by blast
    ultimately show ?case using step.IH by (meson trancl.trancl_into_trancl)
  qed
  moreover have "Z \<inter> U = {}" using n by (simp add: no_return_def)
  ultimately show ?thesis using uv by blast
qed

definition blocked :: "ir_module \<Rightarrow> nat set \<Rightarrow> (nat \<times> nat) set \<Rightarrow> nat \<times> nat \<Rightarrow> bool" where
  "blocked m U H e \<longleftrightarrow> e \<notin> H \<or> isTerminator m (fst e) \<and> (\<forall>u. (u, fst e) \<notin> H) \<or>
     (\<exists>P. snd e \<in> P \<and> (\<forall>p \<in> P \<inter> U. isa m p [PHI]) \<and> (\<forall>p y. p \<in> P \<longrightarrow> (p, y) \<in> H \<longrightarrow> y \<in> P))"

lemma covers_blocked:
  assumes "covers m (fn_of m f) e R" "H \<subseteq> old_edges m f U - R"
  shows "blocked m U H e"
proof -
  have sub: "H \<subseteq> cfg m (fn_of m f) - R" using assms(2) by (auto simp: old_edges_def free_cfg_def)
  from assms(1)[unfolded covers_def] show ?thesis
  proof (elim disjE)
    assume "e \<in> R"
    with sub have "e \<notin> H" by blast
    then show ?thesis by (simp add: blocked_def)
  next
    assume t: "isTerminator m (fst e) \<and> UNIV \<times> {fst e} \<subseteq> R"
    with sub have "\<forall>u. (u, fst e) \<notin> H" by blast
    with t show ?thesis by (simp add: blocked_def)
  next
    assume "\<exists>P. snd e \<in> P \<and> (\<forall>p \<in> P. isa m p [PHI]) \<and> (\<forall>p y. p \<in> P \<longrightarrow> (p, y) \<in> cfg m (fn_of m f) - R \<longrightarrow> y \<in> P)"
    then obtain P where P: "snd e \<in> P" "\<forall>p \<in> P \<inter> U. isa m p [PHI]" "\<forall>p y. p \<in> P \<longrightarrow> (p, y) \<in> cfg m (fn_of m f) - R \<longrightarrow> y \<in> P"
      by blast
    from P(3) sub have "\<forall>p y. p \<in> P \<longrightarrow> (p, y) \<in> H \<longrightarrow> y \<in> P" by blast
    with P(1,2) show ?thesis unfolding blocked_def by blast
  qed
qed

lemma blocked_keeps:
  assumes "blocked m1 U H e" "keeps m m1 f" "edit_ok m f" "U \<subseteq> set (insts (fn_of m f))" "fst e \<in> U"
  shows "blocked m U H e"
proof -
  have t: "isTerminator m1 (fst e) = isTerminator m (fst e)" "\<And>p. p \<in> U \<Longrightarrow> isa m1 p [PHI] = isa m p [PHI]"
    using keeps_inst(1,2)[OF assms(2) _ assms(3)] assms(4,5) by blast+
  have "(\<forall>p \<in> P \<inter> U. isa m1 p [PHI]) \<longleftrightarrow> (\<forall>p \<in> P \<inter> U. isa m p [PHI])" for P using t(2) by (intro ball_cong) auto
  with t(1) assms(1) show ?thesis unfolding blocked_def by simp
qed

context edge_splitter
begin

lemma mitigate_edges_block:
  assumes "foldr_res (mitigate_edge opt SplitEdge f) es m = Inr m'" "edit_ok m f" "U \<subseteq> set (insts (fn_of m f))"
    "\<exists>Z. no_return m f U Z" "distinct es" "\<forall>e \<in> set es. ready m f e \<and> fst e \<in> U \<and> branch_ok m (fst e)"
  shows "(\<exists>Z. no_return m' f U Z) \<and> old_edges m' f U \<subseteq> old_edges m f U \<and> (\<forall>e \<in> set es. blocked m U (old_edges m' f U) e)"
  using assms
proof (induction es arbitrary: m)
  case (Cons e es)
  from Cons.prems(1) obtain m1 where m1: "mitigate_edge opt SplitEdge f e m = Inr m1"
    "foldr_res (mitigate_edge opt SplitEdge f) es m1 = Inr m'" by (auto simp: bindr_eq_Inr)
  note ok = Cons.prems(2) and U = Cons.prems(3)
  have e: "ready m f e" "branch_ok m (fst e)" "fst e \<in> U" using Cons.prems(6) by auto
  obtain R where R: "closes m m1 f R" "covers m (fn_of m f) e R" "\<And>e'. e' \<noteq> e \<Longrightarrow> ready m f e' \<Longrightarrow> ready m1 f e'"
    using mitigate_edge_closes[OF ok m1(1) e(1,2)] by metis
  from Cons.prems(4) obtain Z where Z: "no_return m f U Z" by blast
  note st = no_return_step[OF R(1) ok Z U]
  have k: "keeps m m1 f" using R(1) by (simp add: closes_def)
  then have ok1: "edit_ok m1 f" and U1: "U \<subseteq> set (insts (fn_of m1 f))" using U by (auto simp: keeps_def)
  have "ready m1 f d \<and> fst d \<in> U \<and> branch_ok m1 (fst d)" if d: "d \<in> set es" for d
  proof -
    from d Cons.prems(5,6) have "d \<noteq> e" and p: "ready m f d" "fst d \<in> U" "branch_ok m (fst d)" by auto
    from R(3)[OF this(1) p(1)] keeps_branch_ok[OF k subsetD[OF U p(2)] ok p(3)] p(2) show ?thesis by simp
  qed
  then have "\<forall>e \<in> set es. ready m1 f e \<and> fst e \<in> U \<and> branch_ok m1 (fst e)" by blast
  with Cons.IH[OF m1(2) ok1 U1 st(1)] Cons.prems(5) have IH: "\<exists>Z. no_return m' f U Z" "old_edges m' f U \<subseteq> old_edges m1 f U"
    "\<forall>e \<in> set es. blocked m1 U (old_edges m' f U) e" by auto
  have "old_edges m' f U \<subseteq> old_edges m f U - R" using IH(2) st(2) by blast
  moreover have "blocked m U (old_edges m' f U) e" by (rule covers_blocked[OF R(2) calculation])
  moreover have "blocked m U (old_edges m' f U) e'" if "e' \<in> set es" for e'
    using blocked_keeps[OF _ k ok U] IH(3) that Cons.prems(6) by auto
  ultimately show ?case using IH(1) by auto
qed simp

text \<open>A walk that executes no mitigation, from an instruction that ends no block to one that is no PHI,
  takes none of the edges.\<close>

lemma mitigated_walks_split:
  assumes run: "foldr_res (mitigate_edge opt SplitEdge f) es m = Inr m'" and ok: "edit_ok m f"
    and es: "distinct es" "\<forall>e \<in> set es. ready m f e \<and> fst e \<in> set (insts (fn_of m f)) \<and> branch_ok m (fst e)"
    and uv: "u \<in> set (insts (fn_of m f))" "v \<in> set (insts (fn_of m f))" "\<not> isTerminator m u" "\<not> isa m v [PHI]"
    and walk: "(u, v) \<in> (free_cfg m' (fn_of m' f))\<^sup>+"
  shows "(u, v) \<in> (cfg m (fn_of m f) - set es)\<^sup>+"
proof -
  let ?U = "set (insts (fn_of m f))"
  have "y \<in> ?U" if "(x, y) \<in> free_cfg m (fn_of m f)" for x y
    using that cfg_in_insts[of m "fn_of m f" x y] ok by (auto simp: free_cfg_def edit_ok_def cfg_def)
  then have "no_return m f ?U {}" by (auto simp: no_return_def)
  with mitigate_edges_block[OF run ok order_refl _ es] obtain Z where Z: "no_return m' f ?U Z"
    and sub: "old_edges m' f ?U \<subseteq> old_edges m f ?U" and bl: "\<forall>e \<in> set es. blocked m ?U (old_edges m' f ?U) e" by blast
  let ?H = "old_edges m' f ?U"
  have H: "?H \<subseteq> cfg m (fn_of m f)" "?H \<subseteq> ?U \<times> ?U" using sub by (auto simp: old_edges_def free_cfg_def)
  have avoid: "(x, y) \<notin> set es" if x: "x = u \<or> (\<exists>w. (w, x) \<in> ?H)" and xy: "(x, y) \<in> ?H" and yv: "(y, v) \<in> ?H\<^sup>*" for x y
  proof
    assume "(x, y) \<in> set es"
    with bl have "blocked m ?U ?H (x, y)" by blast
    with x xy uv(3) obtain P where P: "y \<in> P" "\<forall>p \<in> P \<inter> ?U. isa m p [PHI]" "\<And>p z. p \<in> P \<Longrightarrow> (p, z) \<in> ?H \<Longrightarrow> z \<in> P"
      by (auto simp: blocked_def)
    from yv P(1) have "v \<in> P" by (induction rule: rtrancl_induct) (use P(3) in auto)
    with P(2) uv(2,4) show False by blast
  qed
  have tail: "(x = u \<or> (\<exists>w. (w, x) \<in> ?H)) \<longrightarrow> (x, v) \<in> (cfg m (fn_of m f) - set es)\<^sup>*" if "(x, v) \<in> ?H\<^sup>*" for x
    using that
  proof (induction rule: converse_rtrancl_induct)
    case (step x y)
    show ?case
    proof
      assume "x = u \<or> (\<exists>w. (w, x) \<in> ?H)"
      from avoid[OF this step(1,2)] step(1) H(1) have "(x, y) \<in> cfg m (fn_of m f) - set es" by blast
      with step.IH step(1) show "(x, v) \<in> (cfg m (fn_of m f) - set es)\<^sup>*" by (meson converse_rtrancl_into_rtrancl)
    qed
  qed simp
  from no_return_walk[OF Z walk uv(1,2)] obtain y where y: "(u, y) \<in> ?H" "(y, v) \<in> ?H\<^sup>*" by (meson tranclD)
  from avoid[OF _ y] y(1) H(1) have "(u, y) \<in> cfg m (fn_of m f) - set es" by blast
  with tail[OF y(2)] y(1) show ?thesis by (meson rtrancl_into_trancl2)
qed

end

subsection \<open>No assertion of the edit fails\<close>

lemma mitigate_at_total:
  assumes ok: "edit_ok m f"
  shows "\<exists>m' L. mitigate_at opt f J m = Inr (m', L)"
proof -
  define lf where "lf = intrinsic_call (x86 sse2_lfence) [''clou.mitigation'']"
  have i: "opc lf \<notin> set Terminator" by (simp add: lf_def intrinsic_call_def inst0_def)
  obtain m1 a where e: "insert_before f J lf m = (m1, a)" by (cases "insert_before f J lf m")
  have "is_MitigationInst m1 a" using insert_before_law(4,5)[OF ok e i] by (intro lfence_is_mitigation) (simp_all add: lf_def)
  then show ?thesis by (simp add: mitigate_at_def e[unfolded lf_def])
qed

lemma skip_phis_total:
  assumes wf: "wf_func m F" and v: "v \<in> set (insts F)"
  shows "\<exists>J. skip_phis m F v = Inr J"
proof -
  from v obtain B where B: "B \<in> set (fn_blocks F)" "v \<in> set (bb_insts B)" by (auto simp: in_insts)
  from split_list_first[OF B(2)] obtain as bs where xs: "bb_insts B = as @ v # bs" "v \<notin> set as" by blast
  have "isTerminator m (last (v # bs))" using wf B(1) xs(1) by (auto simp: wf_func_def wf_bb_def)
  then have "\<not> isa m (last (v # bs)) [PHI]" by (auto simp: isTerminator_def isa_def)
  then have "\<exists>x \<in> set (v # bs). \<not> isa m x [PHI]" using last_in_set[of "v # bs"] by blast
  then have "dropWhile (\<lambda>J. isa m J [PHI]) (v # bs) \<noteq> []" unfolding dropWhile_eq_Nil_conv by blast
  then obtain J Js where "dropWhile (\<lambda>J. isa m J [PHI]) (v # bs) = J # Js" by (meson neq_Nil_conv)
  then show ?thesis using block_of_in[OF wf B] xs by (simp add: skip_phis_def dropWhile_mid)
qed

lemma CreateMitigation_total:
  assumes "edit_ok m f" "v \<in> set (insts (fn_of m f))"
  shows "\<exists>m' L. CreateMitigation opt f v m = Inr (m', L)"
proof -
  from assms(1) have "wf_func m (fn_of m f)" by (simp add: edit_ok_def)
  from skip_phis_total[OF this assms(2)] obtain J where "skip_phis m (fn_of m f) v = Inr J" ..
  with mitigate_at_total[OF assms(1)] show ?thesis by (simp add: CreateMitigation_def)
qed

context edge_splitter
begin

lemma mitigate_edge_total:
  assumes ok: "edit_ok m f" and rd: "ready m f e" and br: "branch_ok m (fst e)"
  shows "\<exists>m'. mitigate_edge opt SplitEdge f e m = Inr m'"
proof (cases "shouldCutEdge m (fn_of m f) (fst e) (snd e)")
  case False
  from rd have "snd e \<in> set (insts (fn_of m f))" by (simp add: ready_def)
  from CreateMitigation_total[OF ok this] obtain m' L where "CreateMitigation opt f (snd e) m = Inr (m', L)" by blast
  with False show ?thesis by (simp add: mitigate_edge_def getMitigationPoint_def)
next
  case True
  let ?F = "fn_of m f"
  obtain src dst where e: "e = (src, dst)" by (cases e)
  have wf: "wf_func m ?F" using ok by (simp add: edit_ok_def)
  have j: "length (predecessors m ?F dst) > 1" using True by (simp add: shouldCutEdge_def e)
  with rd have c: "(src, dst) \<in> cfg m ?F" and din: "dst \<in> set (insts ?F)" by (auto simp: ready_def e)
  have sin: "src \<in> set (insts ?F)" using c by (simp add: cfg_def)
  then obtain B where B: "B \<in> set (fn_blocks ?F)" "src \<in> set (bb_insts B)" by (auto simp: in_insts)
  from din obtain D where D: "D \<in> set (fn_blocks ?F)" "dst \<in> set (bb_insts D)" by (auto simp: in_insts)
  note b = block_of_in[OF wf B] block_of_in[OF wf D]
  have t: "isTerminator m src"
  proof -
    from block_split[OF B(2)] show ?thesis
    proof (elim disjE exE)
      fix as y bs assume xs: "bb_insts B = as @ src # y # bs"
      with successors_mid[OF wf B(1) xs] c have "dst = y" by (simp add: cfg_def)
      with predecessors_mid[OF wf B(1) xs] j show ?thesis by simp
    qed (use wf_last_terminator[OF wf B] in simp)
  qed
  have br': "branch_ok m src" using br by (simp add: e)
  note je = join_edge[OF ok refl j c b(2,1) t br']
  obtain m1 b1 where sp: "SplitEdge f (bb_id B) (bb_id D) m = (m1, b1)" by (cases "SplitEdge f (bb_id B) (bb_id D) m")
  have ne: "succs (ins m (last (bb_insts B))) \<noteq> []" using je(3) by (auto simp: can_split_def)
  have point: "\<exists>I. edit_ok m1 f \<and> I \<in> set (insts (fn_of m1 f)) \<and> front_of (fn_of m1 f) b1 = [I]"
  proof (cases "length (succs (ins m (last (bb_insts B)))) > 1")
    case True
    from split_critical[OF je(3) this sp] show ?thesis by (auto simp: subdivides_def keeps_def)
  next
    case False
    with ne have "length (succs (ins m (last (bb_insts B)))) = 1" by (cases "succs (ins m (last (bb_insts B)))") auto
    from split_block[OF je(3) this sp] sin show ?thesis by (auto simp: subdivides_def keeps_def je(2))
  qed
  then obtain I where I: "edit_ok m1 f" "I \<in> set (insts (fn_of m1 f))" "front_of (fn_of m1 f) b1 = [I]" by blast
  from CreateMitigation_total[OF I(1,2)] obtain m' L where mt: "CreateMitigation opt f I m1 = Inr (m', L)" by blast
  have "takeWhile (\<lambda>J. J \<noteq> dst) (bb_insts D) = []" using je(1) D(2) by (cases "bb_insts D") auto
  then have "getMitigationPoint SplitEdge f src dst m = Inr (m1, Some I)"
    using True b t je(1) sp I(3) by (simp add: getMitigationPoint_def Let_def e)
  with mt show ?thesis by (simp add: mitigate_edge_def e)
qed

lemma mitigate_edges_total:
  assumes "edit_ok m f" "distinct es" "\<forall>e \<in> set es. ready m f e \<and> fst e \<in> set (insts (fn_of m f)) \<and> branch_ok m (fst e)"
  shows "\<exists>m'. foldr_res (mitigate_edge opt SplitEdge f) es m = Inr m'"
  using assms
proof (induction es arbitrary: m)
  case (Cons e es)
  note ok = Cons.prems(1)
  have e: "ready m f e" "branch_ok m (fst e)" using Cons.prems(3) by auto
  from mitigate_edge_total[OF ok e] obtain m1 where m1: "mitigate_edge opt SplitEdge f e m = Inr m1" ..
  obtain R where R: "closes m m1 f R" "\<And>e'. e' \<noteq> e \<Longrightarrow> ready m f e' \<Longrightarrow> ready m1 f e'"
    using mitigate_edge_closes[OF ok m1 e] by metis
  have k: "keeps m m1 f" using R(1) by (simp add: closes_def)
  then have "edit_ok m1 f" by (simp add: keeps_def)
  moreover have "ready m1 f d \<and> fst d \<in> set (insts (fn_of m1 f)) \<and> branch_ok m1 (fst d)" if d: "d \<in> set es" for d
  proof -
    from d Cons.prems(2,3) have "d \<noteq> e" and p: "ready m f d" "fst d \<in> set (insts (fn_of m f))" "branch_ok m (fst d)" by auto
    from R(2)[OF this(1) p(1)] keeps_branch_ok[OF k p(2) ok p(3)] p(2) k show ?thesis by (auto simp: keeps_def)
  qed
  ultimately have "\<exists>m'. foldr_res (mitigate_edge opt SplitEdge f) es m1 = Inr m'" using Cons.prems(2) by (intro Cons.IH) auto
  with m1 show ?case by simp
qed simp

end

end
