(* ===== verification/EdgeSplit.thy ===== *)
theory EdgeSplit
  imports SplitFence
begin

text \<open>
  LLVM's \<open>SplitEdge\<close> as its documentation describes it, for the edges the mitigation pass splits: a critical
  edge gets a new block that branches to its end; otherwise the source block is split before its terminator. It
  keeps the contract \<open>edge_splitter\<close> (\<open>ref: edge_splitter split_edge_ref\<close>), so the contract can be met, and the
  pass runs on it.
\<close>

subsection \<open>Splitting an edge\<close>

text \<open>\<open>graft\<close> puts a new branch \<open>i\<close> and a new block with the instruction \<open>n\<close> into a function whose other blocks
  become \<open>g\<close> of what they were, and changes the instruction \<open>t\<close> to \<open>ti\<close>.\<close>

definition fresh_block :: "ir_module \<Rightarrow> nat \<Rightarrow> nat" where
  "fresh_block m f = Suc (Max (set (vbound m # map bb_id (fn_blocks (fn_of m f)))))"

definition graft :: "nat \<Rightarrow> (bb \<Rightarrow> bb) \<Rightarrow> nat \<Rightarrow> inst \<Rightarrow> nat \<Rightarrow> inst \<Rightarrow> ir_module \<Rightarrow> ir_module" where
  "graft f g n i t ti m =
     m\<lparr>vals := (vals m)(t := Inst ti, vbound m := Inst i, fresh_block m f := BasicBlock,
         f := Function (fn_of m f\<lparr>fn_blocks := map g (fn_blocks (fn_of m f)) @ [\<lparr>bb_id = fresh_block m f, bb_insts = [n]\<rparr>]\<rparr>)),
       vbound := Suc (fresh_block m f)\<rparr>"

definition jump_to :: "nat \<Rightarrow> inst" where
  "jump_to b = inst0\<lparr>opc := Br, operands := [b], succs := [b]\<rparr>"

definition redirect :: "nat \<Rightarrow> nat \<Rightarrow> nat list \<Rightarrow> nat list" where
  "redirect b c xs = map (\<lambda>x. if x = b then c else x) xs"

definition cut_last :: "nat \<Rightarrow> nat \<Rightarrow> bb \<Rightarrow> bb" where
  "cut_last b q B = (if bb_id B = b then B\<lparr>bb_insts := butlast (bb_insts B) @ [q]\<rparr> else B)"

text \<open>\<open>give_block\<close>: a new block in a critical edge. \<open>cut_block\<close>: the terminator of a block gets a block of its own.\<close>

definition give_block :: "nat \<Rightarrow> bb \<Rightarrow> nat \<Rightarrow> ir_module \<Rightarrow> ir_module" where
  "give_block f B dst m = (let c = fresh_block m f; t = last (bb_insts B); i = ins m t in
     graft f (\<lambda>B. B) (vbound m) (jump_to dst) t
       (i\<lparr>succs := redirect dst c (succs i), operands := redirect dst c (operands i)\<rparr>) m)"

definition cut_block :: "nat \<Rightarrow> bb \<Rightarrow> ir_module \<Rightarrow> ir_module" where
  "cut_block f B m = (let t = last (bb_insts B) in
     graft f (cut_last (bb_id B) (vbound m)) t (jump_to (fresh_block m f)) t (ins m t) m)"

definition split_edge_ref :: split_edge where
  "split_edge_ref f src dst m = (case block_at (fn_of m f) src of
       Some B \<Rightarrow> (if length (succs (ins m (last (bb_insts B)))) > 1 then give_block f B dst m else cut_block f B m, fresh_block m f)
     | None \<Rightarrow> (m, fresh_block m f))"

subsection \<open>Blocks and edges\<close>

lemma cfg_iff:
  assumes wf: "wf_func m F"
  shows "(x, y) \<in> cfg m F \<longleftrightarrow> (\<exists>B \<in> set (fn_blocks F). \<exists>as bs. bb_insts B = as @ x # y # bs) \<or>
     (\<exists>B \<in> set (fn_blocks F). \<exists>C \<in> set (fn_blocks F). x = last (bb_insts B) \<and> y = hd (bb_insts C) \<and>
        bb_id C \<in> set (succs (ins m x)))"
proof
  assume "(x, y) \<in> cfg m F"
  then show "(\<exists>B \<in> set (fn_blocks F). \<exists>as bs. bb_insts B = as @ x # y # bs) \<or>
     (\<exists>B \<in> set (fn_blocks F). \<exists>C \<in> set (fn_blocks F). x = last (bb_insts B) \<and> y = hd (bb_insts C) \<and>
        bb_id C \<in> set (succs (ins m x)))"
    using successors_step[OF wf] by (simp add: cfg_def)
next
  assume "(\<exists>B \<in> set (fn_blocks F). \<exists>as bs. bb_insts B = as @ x # y # bs) \<or>
     (\<exists>B \<in> set (fn_blocks F). \<exists>C \<in> set (fn_blocks F). x = last (bb_insts B) \<and> y = hd (bb_insts C) \<and>
        bb_id C \<in> set (succs (ins m x)))"
  then show "(x, y) \<in> cfg m F"
  proof (elim disjE bexE exE conjE)
    fix B as bs assume B: "B \<in> set (fn_blocks F)" "bb_insts B = as @ x # y # bs"
    have "x \<in> set (insts F)" using B by (force simp: in_insts)
    with successors_mid[OF wf B] show ?thesis by (simp add: cfg_def)
  next
    fix B C assume B: "B \<in> set (fn_blocks F)" "C \<in> set (fn_blocks F)" "x = last (bb_insts B)" "y = hd (bb_insts C)"
      "bb_id C \<in> set (succs (ins m x))"
    have "x \<in> set (insts F)" using bb_ends_in_insts(2)[OF wf B(1)] B(3) by simp
    moreover have "y \<in> set (successors_inst m F x)" using last_succ_front[OF wf B(1,2)] B(3,4,5) by simp
    ultimately show ?thesis by (simp add: cfg_def)
  qed
qed

lemma length_pred_blocks:
  "length (pred_blocks m F b) = (\<Sum>P\<leftarrow>fn_blocks F. count_list (succs (ins m (last (bb_insts P)))) b)"
proof -
  have "length (filter (\<lambda>s. s = b) xs) = count_list xs b" for xs by (induction xs) auto
  then show ?thesis by (simp add: pred_blocks_def length_concat comp_def)
qed

lemma wf_succs_ids:
  "wf_func m F \<Longrightarrow> B \<in> set (fn_blocks F) \<Longrightarrow> set (succs (ins m (last (bb_insts B)))) \<subseteq> bb_id ` set (fn_blocks F)"
  by (simp add: wf_func_def wf_bb_def)

lemma wf_front_unique:
  assumes "wf_func m F" "B \<in> set (fn_blocks F)" "C \<in> set (fn_blocks F)" "hd (bb_insts B) = hd (bb_insts C)"
  shows "B = C"
  using wf_block_unique[OF assms(1-3)] front_of_in[OF assms(1,2)] front_of_in[OF assms(1,3)] assms(4)
  by (metis hd_in_set)

lemma fresh_block_law:
  "vbound m < fresh_block m f" "B \<in> set (fn_blocks (fn_of m f)) \<Longrightarrow> bb_id B < fresh_block m f"
  unfolding fresh_block_def by (intro le_imp_less_Suc Max_ge; simp)+

lemma graft_law:
  assumes ok: "edit_ok m f" and t: "t \<in> set (insts (fn_of m f))" and m': "m' = graft f g n i t ti m"
  shows "fn_blocks (fn_of m' f) = map g (fn_blocks (fn_of m f)) @ [\<lparr>bb_id = fresh_block m f, bb_insts = [n]\<rparr>]"
    "vals m' (vbound m) = Inst i" "vals m' t = Inst ti"
    "\<And>u. u \<in> set (insts (fn_of m f)) \<Longrightarrow> u \<noteq> t \<Longrightarrow> vals m' u = vals m u"
    "vbound m \<notin> set (insts (fn_of m f))" "\<not> is_inst m' f" "f < vbound m'" "vbound m < vbound m'"
    "\<And>u. u \<in> set (insts (fn_of m f)) \<Longrightarrow> u < vbound m'"
proof -
  from ok have wf: "wf_func m (fn_of m f)" and f: "f < vbound m" "\<not> is_inst m f"
    and lim: "\<And>I. I \<in> set (insts (fn_of m f)) \<Longrightarrow> I < vbound m" by (auto simp: edit_ok_def)
  have nf: "I \<noteq> f" if "I \<in> set (insts (fn_of m f))" for I using wf_func_is_inst[OF wf that] f(2) by auto
  note fr = fresh_block_law(1)[of m f]
  show "fn_blocks (fn_of m' f) = map g (fn_blocks (fn_of m f)) @ [\<lparr>bb_id = fresh_block m f, bb_insts = [n]\<rparr>]"
    by (simp add: m' graft_def fn_of_def)
  show "vals m' (vbound m) = Inst i" using f fr by (simp add: m' graft_def)
  show "vals m' t = Inst ti" using lim[OF t] nf[OF t] fr by (simp add: m' graft_def)
  show "vals m' u = vals m u" if "u \<in> set (insts (fn_of m f))" "u \<noteq> t" for u
    using lim[OF that(1)] nf[OF that(1)] that(2) fr by (simp add: m' graft_def)
  show "vbound m \<notin> set (insts (fn_of m f))" using lim by blast
  show "\<not> is_inst m' f" by (simp add: m' graft_def is_inst_def)
  show "f < vbound m'" "vbound m < vbound m'" using f fr by (simp_all add: m' graft_def)
  show "u < vbound m'" if "u \<in> set (insts (fn_of m f))" for u using lim[OF that] fr by (simp add: m' graft_def)
qed

text \<open>The old instructions keep their place in the order; only \<open>t\<close> may change its targets.\<close>

lemma graft_ins:
  assumes ok: "edit_ok m f" and t: "t \<in> set (insts (fn_of m f))" and m': "m' = graft f g n i t ti m"
    and ti: "ti = ins m t\<lparr>succs := s, operands := os\<rparr>"
  shows "u \<in> set (insts (fn_of m f)) \<Longrightarrow> is_inst m' u" "u \<in> set (insts (fn_of m f)) \<Longrightarrow> isTerminator m' u = isTerminator m u"
    "u \<in> set (insts (fn_of m f)) \<Longrightarrow> succs (ins m' u) = (if u = t then s else succs (ins m u))"
    "is_inst m' (vbound m)" "ins m' (vbound m) = i"
proof -
  note law = graft_law[OF ok t m']
  have wf: "wf_func m (fn_of m f)" using ok by (simp add: edit_ok_def)
  have t_inst: "is_inst m t" by (rule wf_func_is_inst[OF wf t])
  {
    assume u: "u \<in> set (insts (fn_of m f))"
    have "is_inst m u" by (rule wf_func_is_inst[OF wf u])
    with law(3) law(4)[OF u] t_inst ti
    show "is_inst m' u" "isTerminator m' u = isTerminator m u" "succs (ins m' u) = (if u = t then s else succs (ins m u))"
      by (cases "u = t"; simp add: is_inst_def isTerminator_def isa_def ins_def)+
  }
  show "is_inst m' (vbound m)" "ins m' (vbound m) = i" using law(2) by (simp_all add: is_inst_def ins_def)
qed

lemma graft_keeps:
  assumes ok: "edit_ok m f" and t: "t \<in> set (insts (fn_of m f))" and m': "m' = graft f g n i t ti m"
    and ti: "ti = ins m t\<lparr>succs := s, operands := os\<rparr>" and s: "distinct (succs (ins m t)) \<longrightarrow> distinct s" "succs (ins m t) = [] \<longrightarrow> s = []"
    and wf': "wf_func m' (fn_of m' f)" and insts: "set (insts (fn_of m' f)) = insert (vbound m) (set (insts (fn_of m f)))"
  shows "keeps m m' f"
  unfolding keeps_def
proof (intro conjI ballI)
  note law = graft_law[OF ok t m']
  have "\<forall>I \<in> set (insts (fn_of m' f)). I < vbound m'" using law(8,9) unfolding insts by blast
  with wf' law(6,7) show "edit_ok m' f" by (simp add: edit_ok_def)
  show "set (insts (fn_of m f)) \<subseteq> set (insts (fn_of m' f))" using insts by blast
  fix u assume u: "u \<in> set (insts (fn_of m f))"
  show "\<exists>s os. vals m' u = Inst (ins m u\<lparr>succs := s, operands := os\<rparr>) \<and>
      (distinct (succs (ins m u)) \<longrightarrow> distinct s) \<and> (succs (ins m u) = [] \<longrightarrow> s = [])"
  proof (cases "u = t")
    case True
    with law(3) ti s show ?thesis by blast
  next
    case False
    have "is_inst m u" using ok u wf_func_is_inst by (auto simp: edit_ok_def)
    then have "vals m u = Inst (ins m u)" by (auto simp: is_inst_def ins_def split: vdesc.splits)
    with law(4)[OF u False] show ?thesis by (intro exI[of _ "succs (ins m u)"] exI[of _ "operands (ins m u)"]) simp
  qed
qed

lemma jump_terminates: "is_inst m v \<Longrightarrow> ins m v = jump_to b \<Longrightarrow> isTerminator m v \<and> succs (ins m v) = [b] \<and> \<not> isa m v [PHI]"
  by (simp add: isTerminator_def isa_def jump_to_def inst0_def)

lemma graft_front:
  assumes "wf_func m' (fn_of m' f)" "fn_blocks (fn_of m' f) = Bs @ [\<lparr>bb_id = c, bb_insts = [n]\<rparr>]"
  shows "front_of (fn_of m' f) c = [n]"
  using front_of_in[OF assms(1), of "\<lparr>bb_id = c, bb_insts = [n]\<rparr>"] by (simp add: assms(2))

subsection \<open>A critical edge\<close>

lemma in_redirect: "c \<notin> set xs \<Longrightarrow> x \<in> set (redirect b c xs) \<longleftrightarrow> x \<in> set xs \<and> x \<noteq> b \<or> x = c \<and> b \<in> set xs"
  by (auto simp: redirect_def)

lemma distinct_redirect: "c \<notin> set xs \<Longrightarrow> distinct xs \<Longrightarrow> distinct (redirect b c xs)"
  by (induction xs) (auto simp: redirect_def)

lemma count_redirect: "c \<noteq> x \<Longrightarrow> b \<noteq> x \<Longrightarrow> count_list (redirect b c xs) x = count_list xs x"
  by (induction xs) (auto simp: redirect_def)

lemma give_block_facts:
  assumes cs: "can_split m f B D" and m': "m' = give_block f B (bb_id D) m"
  shows "wf_func m (fn_of m f)" "last (bb_insts B) \<in> set (insts (fn_of m f))"
    "fn_blocks (fn_of m' f) = fn_blocks (fn_of m f) @ [\<lparr>bb_id = fresh_block m f, bb_insts = [vbound m]\<rparr>]"
    "fresh_block m f \<notin> set (succs (ins m (last (bb_insts B))))"
    "u \<in> set (insts (fn_of m f)) \<Longrightarrow> is_inst m' u" "u \<in> set (insts (fn_of m f)) \<Longrightarrow> isTerminator m' u = isTerminator m u"
    "u \<in> set (insts (fn_of m f)) \<Longrightarrow> succs (ins m' u) = (if u = last (bb_insts B)
       then redirect (bb_id D) (fresh_block m f) (succs (ins m (last (bb_insts B)))) else succs (ins m u))"
    "isTerminator m' (vbound m)" "succs (ins m' (vbound m)) = [bb_id D]" "\<not> isa m' (vbound m) [PHI]"
    "vbound m \<notin> set (insts (fn_of m f))" "insts (fn_of m' f) = insts (fn_of m f) @ [vbound m]"
proof -
  from cs have ok: "edit_ok m f" and B: "B \<in> set (fn_blocks (fn_of m f))" by (auto simp: can_split_def)
  from ok show wf: "wf_func m (fn_of m f)" by (simp add: edit_ok_def)
  show tin: "last (bb_insts B) \<in> set (insts (fn_of m f))" by (rule bb_ends_in_insts(2)[OF wf B])
  note g = m'[unfolded give_block_def Let_def]
  note law = graft_law[OF ok tin g] and gi = graft_ins[OF ok tin g refl]
  show Bs: "fn_blocks (fn_of m' f) = fn_blocks (fn_of m f) @ [\<lparr>bb_id = fresh_block m f, bb_insts = [vbound m]\<rparr>]"
    using law(1) by simp
  show "fresh_block m f \<notin> set (succs (ins m (last (bb_insts B))))"
    using wf_succs_ids[OF wf B] fresh_block_law(2)[of _ m f] by fastforce
  show "is_inst m' u" "isTerminator m' u = isTerminator m u" "succs (ins m' u) = (if u = last (bb_insts B)
       then redirect (bb_id D) (fresh_block m f) (succs (ins m (last (bb_insts B)))) else succs (ins m u))"
    if "u \<in> set (insts (fn_of m f))" using gi(1-3)[OF that] .
  show "isTerminator m' (vbound m)" "succs (ins m' (vbound m)) = [bb_id D]" "\<not> isa m' (vbound m) [PHI]"
    using jump_terminates[OF gi(4,5)] by blast+
  show "vbound m \<notin> set (insts (fn_of m f))" by (rule law(5))
  show "insts (fn_of m' f) = insts (fn_of m f) @ [vbound m]" by (simp add: insts_def Bs)
qed

lemma give_block_wf:
  assumes cs: "can_split m f B D" and m': "m' = give_block f B (bb_id D) m"
  shows "wf_func m' (fn_of m' f)"
proof -
  note facts = give_block_facts[OF cs m']
  let ?F = "fn_of m f" and ?F' = "fn_of m' f" and ?N = "\<lparr>bb_id = fresh_block m f, bb_insts = [vbound m]\<rparr>"
  note wf = facts(1) and Bs = facts(3)
  have "wf_bb m' ?F' E" if E: "E \<in> set (fn_blocks ?F)" for E
  proof -
    from wf E have w: "wf_bb m ?F E" by (simp add: wf_func_def)
    have l: "last (bb_insts E) \<in> set (insts ?F)" by (rule bb_ends_in_insts(2)[OF wf E])
    have bl: "is_inst m' I \<and> \<not> isTerminator m' I" if I: "I \<in> set (butlast (bb_insts E))" for I
    proof -
      have "I \<in> set (insts ?F)" using in_set_butlastD[OF I] E by (auto simp: in_insts)
      with facts(5,6)[OF this] w I show ?thesis by (simp add: wf_bb_def)
    qed
    have "set (succs (ins m' (last (bb_insts E)))) \<subseteq> insert (fresh_block m f) (set (succs (ins m (last (bb_insts E)))))"
      using facts(7)[OF l] in_redirect[OF facts(4)] by (cases "last (bb_insts E) = last (bb_insts B)") auto
    also have "\<dots> \<subseteq> bb_id ` set (fn_blocks ?F')" using w by (auto simp: wf_bb_def Bs)
    finally show ?thesis using w bl facts(6)[OF l] by (simp add: wf_bb_def)
  qed
  moreover have "wf_bb m' ?F' ?N" using facts(8,9) cs by (auto simp: wf_bb_def Bs can_split_def)
  moreover have "fresh_block m f \<notin> bb_id ` set (fn_blocks ?F)" using fresh_block_law(2)[of _ m f] by fastforce
  ultimately show ?thesis using wf facts(11) unfolding wf_func_def facts(12) Bs by auto
qed

lemma give_block_front:
  assumes cs: "can_split m f B D" and m': "m' = give_block f B (bb_id D) m"
  shows "s \<in> bb_id ` set (fn_blocks (fn_of m f)) \<Longrightarrow> front_of (fn_of m' f) s = front_of (fn_of m f) s"
    "front_of (fn_of m' f) (fresh_block m f) = [vbound m]"
proof -
  note facts = give_block_facts[OF cs m'] and wf' = give_block_wf[OF cs m']
  show "front_of (fn_of m' f) (fresh_block m f) = [vbound m]" by (rule graft_front[OF wf' facts(3)])
  assume "s \<in> bb_id ` set (fn_blocks (fn_of m f))"
  then obtain C where C: "C \<in> set (fn_blocks (fn_of m f))" "s = bb_id C" by blast
  then have "C \<in> set (fn_blocks (fn_of m' f))" by (simp add: facts(3))
  from front_of_in[OF wf' this] front_of_in[OF facts(1) C(1)] C(2)
  show "front_of (fn_of m' f) s = front_of (fn_of m f) s" by simp
qed

lemma give_block_succs:
  assumes cs: "can_split m f B D" and m': "m' = give_block f B (bb_id D) m"
    and x: "x \<in> set (insts (fn_of m f))" "x \<noteq> last (bb_insts B)"
  shows "successors_inst m' (fn_of m' f) x = successors_inst m (fn_of m f) x"
proof -
  note facts = give_block_facts[OF cs m'] and wf' = give_block_wf[OF cs m']
  from x(1) obtain E where E: "E \<in> set (fn_blocks (fn_of m f))" "x \<in> set (bb_insts E)" by (auto simp: in_insts)
  then have E': "E \<in> set (fn_blocks (fn_of m' f))" by (simp add: facts(3))
  from block_split[OF E(2)] show ?thesis
  proof (elim disjE exE)
    assume l: "x = last (bb_insts E)"
    have "successors_inst m' (fn_of m' f) x = concat (map (front_of (fn_of m' f)) (succs (ins m x)))"
      using successors_last[OF wf' E'] facts(7)[OF x(1)] x(2) l by simp
    also have "\<dots> = concat (map (front_of (fn_of m f)) (succs (ins m x)))"
      using give_block_front(1)[OF cs m'] wf_succs_ids[OF facts(1) E(1)] l by (intro arg_cong[of _ _ concat] map_cong) auto
    also have "\<dots> = successors_inst m (fn_of m f) x" using successors_last[OF facts(1) E(1)] l by simp
    finally show ?thesis .
  next
    fix as y bs assume xs: "bb_insts E = as @ x # y # bs"
    from successors_mid[OF facts(1) E(1) xs] successors_mid[OF wf' E' xs] show ?thesis by simp
  qed
qed

lemma front_of_other:
  assumes wf: "wf_func m F" and D: "D \<in> set (fn_blocks F)" and s: "s \<in> bb_id ` set (fn_blocks F)"
  shows "y \<in> set (front_of F s) \<and> y \<noteq> hd (bb_insts D) \<longleftrightarrow> y \<in> set (front_of F s) \<and> s \<noteq> bb_id D"
proof -
  from s obtain C where C: "C \<in> set (fn_blocks F)" "s = bb_id C" by blast
  from front_of_in[OF wf C(1)] C(2) have f: "front_of F s = [hd (bb_insts C)]" by simp
  have "hd (bb_insts C) = hd (bb_insts D) \<longleftrightarrow> bb_id C = bb_id D"
  proof
    assume "hd (bb_insts C) = hd (bb_insts D)"
    from wf_front_unique[OF wf C(1) D this] show "bb_id C = bb_id D" by simp
  next
    assume "bb_id C = bb_id D"
    then have "Some C = Some D" using block_at_in[OF wf C(1)] block_at_in[OF wf D] by metis
    then show "hd (bb_insts C) = hd (bb_insts D)" by simp
  qed
  with f C(2) show ?thesis by auto
qed

text \<open>The terminator goes to the new block instead of \<open>D\<close>.\<close>

lemma give_block_succs_last:
  assumes cs: "can_split m f B D" and m': "m' = give_block f B (bb_id D) m" and t: "t = last (bb_insts B)"
  shows "y \<in> set (successors_inst m' (fn_of m' f) t) \<longleftrightarrow>
    y \<in> set (successors_inst m (fn_of m f) t) \<and> y \<noteq> hd (bb_insts D) \<or> y = vbound m"
proof -
  let ?F = "fn_of m f" and ?F' = "fn_of m' f" and ?c = "fresh_block m f"
  note facts = give_block_facts[OF cs m'] and wf' = give_block_wf[OF cs m'] and front = give_block_front[OF cs m']
  from cs have B: "B \<in> set (fn_blocks ?F)" and D: "D \<in> set (fn_blocks ?F)" and tD: "bb_id D \<in> set (succs (ins m t))"
    by (auto simp: can_split_def t)
  have B': "B \<in> set (fn_blocks ?F')" using B by (simp add: facts(3))
  have su: "succs (ins m' t) = redirect (bb_id D) ?c (succs (ins m t))" using facts(7)[OF facts(2)] by (simp add: t)
  have ids: "set (succs (ins m t)) \<subseteq> bb_id ` set (fn_blocks ?F)" using wf_succs_ids[OF facts(1) B] by (simp add: t)
  have ct: "?c \<notin> set (succs (ins m t))" using facts(4) by (simp add: t)
  have "y \<in> set (successors_inst m' ?F' t) \<longleftrightarrow> (\<exists>s \<in> set (redirect (bb_id D) ?c (succs (ins m t))). y \<in> set (front_of ?F' s))"
    using successors_last[OF wf' B'] by (simp add: su flip: t)
  also have "\<dots> \<longleftrightarrow> (\<exists>s \<in> set (succs (ins m t)). s \<noteq> bb_id D \<and> y \<in> set (front_of ?F' s)) \<or> y \<in> set (front_of ?F' ?c)"
    using in_redirect[OF ct] tD by metis
  also have "\<dots> \<longleftrightarrow> (\<exists>s \<in> set (succs (ins m t)). s \<noteq> bb_id D \<and> y \<in> set (front_of ?F s)) \<or> y = vbound m"
    using front ids by (metis (no_types, opaque_lifting) empty_iff insert_iff list.set subsetD)
  also have "\<dots> \<longleftrightarrow> (\<exists>s \<in> set (succs (ins m t)). y \<in> set (front_of ?F s)) \<and> y \<noteq> hd (bb_insts D) \<or> y = vbound m"
    using front_of_other[OF facts(1) D] ids by (metis (no_types, lifting) subsetD)
  also have "(\<exists>s \<in> set (succs (ins m t)). y \<in> set (front_of ?F s)) \<longleftrightarrow> y \<in> set (successors_inst m ?F t)"
    using successors_last[OF facts(1) B] by (simp flip: t)
  finally show ?thesis .
qed

lemma give_block_preds:
  assumes cs: "can_split m f B D" and m': "m' = give_block f B (bb_id D) m"
    and w: "w \<in> set (insts (fn_of m f))" "length (predecessors m (fn_of m f) w) \<le> 1"
  shows "length (predecessors m' (fn_of m' f) w) \<le> 1"
proof -
  let ?F = "fn_of m f" and ?F' = "fn_of m' f"
  note facts = give_block_facts[OF cs m'] and wf' = give_block_wf[OF cs m']
  from w(1) obtain E where E: "E \<in> set (fn_blocks ?F)" "w \<in> set (bb_insts E)" by (auto simp: in_insts)
  then have E': "E \<in> set (fn_blocks ?F')" by (simp add: facts(3))
  from block_split_front[OF E(2)] show ?thesis
  proof (elim disjE exE)
    assume h: "w = hd (bb_insts E)"
    with w(2) have le: "length (pred_blocks m ?F (bb_id E)) \<le> 1" using predecessors_front[OF facts(1) E(1)] by simp
    with cs have ED: "bb_id E \<noteq> bb_id D" by (auto simp: can_split_def)
    have Ec: "bb_id E \<noteq> fresh_block m f" using fresh_block_law(2)[OF E(1)] by simp
    have "count_list (succs (ins m' (last (bb_insts P)))) (bb_id E) = count_list (succs (ins m (last (bb_insts P)))) (bb_id E)"
      if "P \<in> set (fn_blocks ?F)" for P
      using facts(7)[OF bb_ends_in_insts(2)[OF facts(1) that]] count_redirect[OF Ec[symmetric] ED[symmetric]] by simp
    then have "length (pred_blocks m' ?F' (bb_id E)) = length (pred_blocks m ?F (bb_id E))"
      using facts(9) ED unfolding length_pred_blocks facts(3) by (simp cong: map_cong)
    with le h show ?thesis using predecessors_front[OF wf' E'] by simp
  next
    fix as x bs assume "bb_insts E = as @ x # w # bs"
    from predecessors_mid[OF wf' E' this] show ?thesis by simp
  qed
qed

lemma give_block_subdivides:
  assumes cs: "can_split m f B D" and m': "m' = give_block f B (bb_id D) m"
  shows "subdivides m m' f {(last (bb_insts B), hd (bb_insts D))} (hd (bb_insts D)) (vbound m)"
proof -
  let ?F = "fn_of m f" and ?F' = "fn_of m' f" and ?p = "vbound m" and ?t = "last (bb_insts B)" and ?d = "hd (bb_insts D)"
  note facts = give_block_facts[OF cs m'] and wf' = give_block_wf[OF cs m']
  from cs have ok: "edit_ok m f" and B: "B \<in> set (fn_blocks ?F)" and D: "D \<in> set (fn_blocks ?F)"
    and tD: "bb_id D \<in> set (succs (ins m ?t))" and dt: "distinct (succs (ins m ?t))" by (auto simp: can_split_def)
  have k: "keeps m m' f" using distinct_redirect[OF facts(4) dt]
    by (intro graft_keeps[OF ok facts(2) m'[unfolded give_block_def Let_def] refl _ _ wf']) (auto simp: facts(12) redirect_def)
  have edge: "(?t, ?d) \<in> cfg m ?F" using last_succ_front[OF facts(1) B D] tD facts(2) by (simp add: cfg_def)
  have old: "(x, y) \<in> cfg m' ?F' \<longleftrightarrow> (x, y) \<in> cfg m ?F - {(?t, ?d)} \<or> y = ?p \<and> (x, ?d) \<in> cfg m ?F \<inter> {(?t, ?d)}"
    if x: "x \<in> set (insts ?F)" for x y
    using x edge give_block_succs[OF cs m' x] give_block_succs_last[OF cs m' refl]
    by (cases "x = ?t") (auto simp: cfg_def facts(12))
  have N: "\<lparr>bb_id = fresh_block m f, bb_insts = [?p]\<rparr> \<in> set (fn_blocks ?F')" by (simp add: facts(3))
  have "successors_inst m' ?F' ?p = [?d]"
    using successors_last[OF wf' N] facts(9) give_block_front(1)[OF cs m'] D front_of_in[OF facts(1) D] by simp
  then have "\<forall>y. (?p, y) \<in> cfg m' ?F' \<longrightarrow> y = ?d" by (simp add: cfg_def)
  with k old give_block_preds[OF cs m'] facts(10,11) show ?thesis unfolding subdivides_def by (simp add: facts(12))
qed

subsection \<open>A block with one successor\<close>

lemma sum_list_but_one:
  fixes h :: "'a \<Rightarrow> nat"
  shows "distinct xs \<Longrightarrow> b \<in> set xs \<Longrightarrow> (\<Sum>x\<leftarrow>xs. if x = b then a else h x) + h b = (\<Sum>x\<leftarrow>xs. h x) + a"
proof (induction xs)
  case (Cons x xs)
  show ?case
  proof (cases "x = b")
    case True
    with Cons.prems(1) have "(\<Sum>x\<leftarrow>xs. if x = b then a else h x) = (\<Sum>x\<leftarrow>xs. h x)"
      by (intro arg_cong[of _ _ sum_list] map_cong) auto
    with True show ?thesis by simp
  qed (use Cons in simp)
qed simp

text \<open>\<open>?r\<close> below: the new branch stands where the terminator \<open>t\<close> stood.\<close>

lemma cut_last_law:
  assumes wf: "wf_func m F" and B: "B \<in> set (fn_blocks F)"
  shows "bb_insts (cut_last (bb_id B) q B) = butlast (bb_insts B) @ [q]" "bb_id (cut_last b q E) = bb_id E"
    "E \<in> set (fn_blocks F) \<Longrightarrow> E \<noteq> B \<Longrightarrow> cut_last (bb_id B) q E = E"
    "E \<in> set (fn_blocks F) \<Longrightarrow> E \<noteq> B \<Longrightarrow> last (bb_insts B) \<notin> set (bb_insts E)"
    "bb_insts B = butlast (bb_insts B) @ [last (bb_insts B)]" "last (bb_insts B) \<notin> set (butlast (bb_insts B))"
proof -
  show "bb_insts (cut_last (bb_id B) q B) = butlast (bb_insts B) @ [q]" "bb_id (cut_last b q E) = bb_id E"
    by (simp_all add: cut_last_def)
  have ne: "bb_insts B \<noteq> []" using front_of_in[OF wf B] by blast
  then show xs: "bb_insts B = butlast (bb_insts B) @ [last (bb_insts B)]" by simp
  have "distinct (butlast (bb_insts B) @ [last (bb_insts B)])" using wf_block_distinct[OF wf B] ne by simp
  then show "last (bb_insts B) \<notin> set (butlast (bb_insts B))" by simp
  assume E: "E \<in> set (fn_blocks F)" "E \<noteq> B"
  have "Some E = Some B" if "bb_id E = bb_id B" using block_at_in[OF wf E(1)] block_at_in[OF wf B] that by metis
  with E(2) show "cut_last (bb_id B) q E = E" by (auto simp: cut_last_def)
  show "last (bb_insts B) \<notin> set (bb_insts E)" using wf_block_unique[OF wf E(1) B] E(2) last_in_set[OF ne] by blast
qed

lemma cut_block_facts:
  assumes cs: "can_split m f B D" and m': "m' = cut_block f B m"
  shows "wf_func m (fn_of m f)" "last (bb_insts B) \<in> set (insts (fn_of m f))" "B \<in> set (fn_blocks (fn_of m f))"
    "fn_blocks (fn_of m' f) = map (cut_last (bb_id B) (vbound m)) (fn_blocks (fn_of m f)) @
       [\<lparr>bb_id = fresh_block m f, bb_insts = [last (bb_insts B)]\<rparr>]"
    "u \<in> set (insts (fn_of m f)) \<Longrightarrow> is_inst m' u" "u \<in> set (insts (fn_of m f)) \<Longrightarrow> isTerminator m' u = isTerminator m u"
    "u \<in> set (insts (fn_of m f)) \<Longrightarrow> succs (ins m' u) = succs (ins m u)"
    "isTerminator m' (vbound m)" "succs (ins m' (vbound m)) = [fresh_block m f]" "\<not> isa m' (vbound m) [PHI]"
    "vbound m \<notin> set (insts (fn_of m f))"
proof -
  from cs have ok: "edit_ok m f" and B: "B \<in> set (fn_blocks (fn_of m f))" by (auto simp: can_split_def)
  from ok show wf: "wf_func m (fn_of m f)" by (simp add: edit_ok_def)
  show tin: "last (bb_insts B) \<in> set (insts (fn_of m f))" by (rule bb_ends_in_insts(2)[OF wf B])
  show "B \<in> set (fn_blocks (fn_of m f))" by (rule B)
  note g = m'[unfolded cut_block_def Let_def]
  have ti: "ins m t = ins m t\<lparr>succs := succs (ins m t), operands := operands (ins m t)\<rparr>" for t by simp
  note law = graft_law[OF ok tin g] and gi = graft_ins[OF ok tin g ti]
  show "fn_blocks (fn_of m' f) = map (cut_last (bb_id B) (vbound m)) (fn_blocks (fn_of m f)) @
       [\<lparr>bb_id = fresh_block m f, bb_insts = [last (bb_insts B)]\<rparr>]" by (rule law(1))
  show "is_inst m' u" "isTerminator m' u = isTerminator m u" "succs (ins m' u) = succs (ins m u)"
    if "u \<in> set (insts (fn_of m f))" using gi(1-3)[OF that] by simp_all
  show "isTerminator m' (vbound m)" "succs (ins m' (vbound m)) = [fresh_block m f]" "\<not> isa m' (vbound m) [PHI]"
    using jump_terminates[OF gi(4,5)] by blast+
  show "vbound m \<notin> set (insts (fn_of m f))" by (rule law(5))
qed

lemma cut_block_insts:
  assumes cs: "can_split m f B D" and m': "m' = cut_block f B m"
  shows "set (insts (fn_of m' f)) = insert (vbound m) (set (insts (fn_of m f)))" "distinct (insts (fn_of m' f))"
proof -
  note facts = cut_block_facts[OF cs m'] and cl = cut_last_law[OF cut_block_facts(1,3)[OF cs m']]
  from split_list_first[OF facts(3)] obtain As Cs where AC: "fn_blocks (fn_of m f) = As @ B # Cs" by blast
  have "distinct (fn_blocks (fn_of m f))" using facts(1) by (simp add: wf_func_def distinct_map)
  then have "B \<notin> set As" "B \<notin> set Cs" by (auto simp: AC)
  then have g: "map (cut_last (bb_id B) (vbound m)) As = As" "map (cut_last (bb_id B) (vbound m)) Cs = Cs"
    using cl(3) by (auto simp: AC intro!: map_idI)
  have xs: "bb_insts B = butlast (bb_insts B) @ [last (bb_insts B)]" by (rule cl(5))
  have old: "insts (fn_of m f) = concat (map bb_insts As) @ butlast (bb_insts B) @ [last (bb_insts B)] @ concat (map bb_insts Cs)"
    using xs by (simp add: insts_def AC)
  have new: "insts (fn_of m' f) = concat (map bb_insts As) @ butlast (bb_insts B) @ [vbound m] @ concat (map bb_insts Cs) @ [last (bb_insts B)]"
    by (simp add: insts_def facts(4) AC g cl(1))
  show "set (insts (fn_of m' f)) = insert (vbound m) (set (insts (fn_of m f)))" by (auto simp: old new)
  have "distinct (insts (fn_of m f))" using facts(1) by (simp add: wf_func_def)
  with facts(11) show "distinct (insts (fn_of m' f))" unfolding new old by auto
qed

lemma cut_block_wf:
  assumes cs: "can_split m f B D" and m': "m' = cut_block f B m"
  shows "wf_func m' (fn_of m' f)"
proof -
  let ?F = "fn_of m f" and ?F' = "fn_of m' f" and ?g = "cut_last (bb_id B) (vbound m)"
  note facts = cut_block_facts[OF cs m'] and cl = cut_last_law[OF cut_block_facts(1,3)[OF cs m']]
  have idset: "bb_id ` set (fn_blocks ?F') = insert (fresh_block m f) (bb_id ` set (fn_blocks ?F))"
    by (auto simp: facts(4) cl(2) image_image)
  have last_in: "last (bb_insts E) \<in> set (insts ?F)" if "E \<in> set (fn_blocks ?F)" for E by (rule bb_ends_in_insts(2)[OF facts(1) that])
  have bl: "is_inst m' I \<and> \<not> isTerminator m' I" if "E \<in> set (fn_blocks ?F)" "I \<in> set (butlast (bb_insts E))" for E I
  proof -
    have "I \<in> set (insts ?F)" using in_set_butlastD[OF that(2)] that(1) by (auto simp: in_insts)
    with facts(5,6)[OF this] facts(1) that show ?thesis by (simp add: wf_func_def wf_bb_def)
  qed
  have blk: "wf_bb m' ?F' (?g E)" if E: "E \<in> set (fn_blocks ?F)" for E
  proof (cases "E = B")
    case True
    with facts(8,9) bl[OF facts(3)] show ?thesis by (simp add: wf_bb_def cl(1) idset)
  next
    case False
    have "wf_bb m ?F E" using facts(1) E by (simp add: wf_func_def)
    with bl[OF E] facts(6,7)[OF last_in[OF E]] show ?thesis unfolding cl(3)[OF E False] by (auto simp: wf_bb_def idset)
  qed
  have "isTerminator m' (last (bb_insts B))"
    using facts(6)[OF facts(2)] wf_last_terminator[OF facts(1,3), of "last (bb_insts B)"] cl(5) by (metis in_set_conv_decomp)
  then have N: "wf_bb m' ?F' \<lparr>bb_id = fresh_block m f, bb_insts = [last (bb_insts B)]\<rparr>"
    using facts(7)[OF facts(2)] wf_succs_ids[OF facts(1,3)] by (auto simp: wf_bb_def idset)
  have "fresh_block m f \<notin> bb_id ` set (fn_blocks ?F)" using fresh_block_law(2)[of _ m f] by fastforce
  then have "distinct (map bb_id (fn_blocks ?F'))" using facts(1) by (auto simp: wf_func_def facts(4) cl(2) comp_def)
  with cut_block_insts(2)[OF cs m'] blk N show ?thesis unfolding wf_func_def by (auto simp: facts(4))
qed

lemma cut_block_front:
  assumes cs: "can_split m f B D" and m': "m' = cut_block f B m" and t: "t = last (bb_insts B)"
  shows "E \<in> set (fn_blocks (fn_of m f)) \<Longrightarrow> hd (bb_insts (cut_last (bb_id B) (vbound m) E)) = (if hd (bb_insts E) = t then vbound m else hd (bb_insts E))"
    "s \<in> bb_id ` set (fn_blocks (fn_of m f)) \<Longrightarrow>
      front_of (fn_of m' f) s = map (\<lambda>v. if v = t then vbound m else v) (front_of (fn_of m f) s)"
    "front_of (fn_of m' f) (fresh_block m f) = [t]"
proof -
  let ?F = "fn_of m f" and ?F' = "fn_of m' f" and ?g = "cut_last (bb_id B) (vbound m)"
  note facts = cut_block_facts[OF cs m'] and cl = cut_last_law[OF cut_block_facts(1,3)[OF cs m']] and wf' = cut_block_wf[OF cs m']
  show "front_of ?F' (fresh_block m f) = [t]" unfolding t by (rule graft_front[OF wf' facts(4)])
  show hdg: "hd (bb_insts (?g E)) = (if hd (bb_insts E) = t then vbound m else hd (bb_insts E))" if E: "E \<in> set (fn_blocks ?F)" for E
  proof (cases "E = B")
    case True
    have xs: "bb_insts B = butlast (bb_insts B) @ [t]" using cl(5) by (simp add: t)
    show ?thesis
    proof (cases "butlast (bb_insts B)")
      case Nil
      then have "hd (bb_insts B) = t" using xs by simp
      with Nil True show ?thesis by (simp add: cl(1))
    next
      case (Cons a as)
      then have "hd (bb_insts B) = a" using xs by (metis append_Cons list.sel(1))
      moreover have "a \<noteq> t" using cl(6) Cons by (auto simp: t)
      ultimately show ?thesis using Cons True by (simp add: cl(1))
    qed
  next
    case False
    have "hd (bb_insts E) \<noteq> t" using cl(4)[OF E False] front_of_in[OF facts(1) E] hd_in_set unfolding t by metis
    with cl(3)[OF E False] show ?thesis by simp
  qed
  assume "s \<in> bb_id ` set (fn_blocks ?F)"
  then obtain E where E: "E \<in> set (fn_blocks ?F)" "s = bb_id E" by blast
  then have "?g E \<in> set (fn_blocks ?F')" by (simp add: facts(4))
  from front_of_in[OF wf' this] front_of_in[OF facts(1) E(1)] hdg[OF E(1)] E(2)
  show "front_of ?F' s = map (\<lambda>v. if v = t then vbound m else v) (front_of ?F s)" by (simp add: cl(2))
qed

lemma cut_block_succs:
  assumes cs: "can_split m f B D" and m': "m' = cut_block f B m" and t: "t = last (bb_insts B)"
    and x: "x \<in> set (insts (fn_of m f))"
  shows "successors_inst m' (fn_of m' f) x = map (\<lambda>v. if v = t then vbound m else v) (successors_inst m (fn_of m f) x)"
proof -
  let ?F = "fn_of m f" and ?F' = "fn_of m' f" and ?g = "cut_last (bb_id B) (vbound m)" and ?r = "\<lambda>v. if v = t then vbound m else v"
  note facts = cut_block_facts[OF cs m'] and cl = cut_last_law[OF cut_block_facts(1,3)[OF cs m']] and wf' = cut_block_wf[OF cs m']
  have ends: "concat (map (front_of ?F') (succs (ins m' (last (bb_insts E))))) = map ?r (successors_inst m ?F (last (bb_insts E)))"
    if E: "E \<in> set (fn_blocks ?F)" for E
  proof -
    have "concat (map (front_of ?F') (succs (ins m' (last (bb_insts E))))) =
        concat (map (\<lambda>s. map ?r (front_of ?F s)) (succs (ins m (last (bb_insts E)))))"
      unfolding facts(7)[OF bb_ends_in_insts(2)[OF facts(1) E]] using cut_block_front(2)[OF cs m' t] wf_succs_ids[OF facts(1) E]
      by (intro arg_cong[of _ _ concat] map_cong) auto
    then show ?thesis by (simp add: successors_last[OF facts(1) E] map_concat comp_def)
  qed
  from x obtain E where E: "E \<in> set (fn_blocks ?F)" "x \<in> set (bb_insts E)" by (auto simp: in_insts)
  then have E': "?g E \<in> set (fn_blocks ?F')" by (simp add: facts(4))
  from block_split[OF E(2)] show ?thesis
  proof (elim disjE exE)
    assume l: "x = last (bb_insts E)"
    show ?thesis
    proof (cases "E = B")
      case True
      have "\<lparr>bb_id = fresh_block m f, bb_insts = [last (bb_insts B)]\<rparr> \<in> set (fn_blocks ?F')" by (simp add: facts(4))
      from successors_last[OF wf' this] ends[OF E(1)] l True show ?thesis by simp
    next
      case False
      from successors_last[OF wf' E'] ends[OF E(1)] l cl(3)[OF E(1) False] show ?thesis by simp
    qed
  next
    fix as y bs assume xs: "bb_insts E = as @ x # y # bs"
    have "\<exists>bs'. bb_insts (?g E) = as @ x # ?r y # bs'"
    proof (cases "E = B")
      case True
      show ?thesis
      proof (cases bs rule: rev_cases)
        case Nil
        with xs True have "butlast (bb_insts B) = as @ [x]" "y = t" by (simp_all add: t butlast_append)
        with True show ?thesis by (simp add: cl(1))
      next
        case (snoc bs' z)
        with xs True have b: "butlast (bb_insts B) = as @ x # y # bs'" by (simp add: butlast_append)
        moreover have "y \<noteq> t" using cl(6) b by (auto simp: t)
        ultimately show ?thesis using True by (simp add: cl(1))
      qed
    next
      case False
      have "y \<noteq> t" using cl(4)[OF E(1) False] xs by (auto simp: t)
      with cl(3)[OF E(1) False] xs show ?thesis by simp
    qed
    then obtain bs' where "bb_insts (?g E) = as @ x # ?r y # bs'" by blast
    from successors_mid[OF wf' E' this] successors_mid[OF facts(1) E(1) xs] show ?thesis by simp
  qed
qed

lemma cut_block_pred_blocks:
  assumes cs: "can_split m f B D" and m': "m' = cut_block f B m"
  shows "length (pred_blocks m' (fn_of m' f) b) =
    (if b = fresh_block m f then 1 else length (pred_blocks m (fn_of m f) b))"
proof -
  let ?F = "fn_of m f" and ?F' = "fn_of m' f" and ?c = "fresh_block m f" and ?t = "last (bb_insts B)"
  let ?n = "\<lambda>P. count_list (succs (ins m (last (bb_insts P)))) b"
  note facts = cut_block_facts[OF cs m'] and cl = cut_last_law[OF cut_block_facts(1,3)[OF cs m']]
  have d: "distinct (fn_blocks ?F)" using facts(1) by (simp add: wf_func_def distinct_map)
  have no_c: "?c \<notin> set (succs (ins m (last (bb_insts P))))" if "P \<in> set (fn_blocks ?F)" for P
    using wf_succs_ids[OF facts(1) that] fresh_block_law(2)[of _ m f] by fastforce
  have "count_list (succs (ins m' (last (bb_insts (cut_last (bb_id B) (vbound m) P))))) b = (if P = B then count_list [?c] b else ?n P)"
    if P: "P \<in> set (fn_blocks ?F)" for P
    using facts(7)[OF bb_ends_in_insts(2)[OF facts(1) P]] facts(9) cl(1) cl(3)[OF P] by (cases "P = B") auto
  then have "length (pred_blocks m' ?F' b) = (\<Sum>P\<leftarrow>fn_blocks ?F. if P = B then count_list [?c] b else ?n P) + ?n B"
    using facts(7)[OF facts(2)] by (simp add: length_pred_blocks facts(4) comp_def cong: map_cong)
  also have "\<dots> = (\<Sum>P\<leftarrow>fn_blocks ?F. ?n P) + count_list [?c] b" by (rule sum_list_but_one[OF d facts(3)])
  also have "\<dots> = (if b = ?c then 1 else length (pred_blocks m ?F b))"
  proof (cases "b = ?c")
    case True
    then have "(\<Sum>P\<leftarrow>fn_blocks ?F. ?n P) = (\<Sum>P\<leftarrow>fn_blocks ?F. 0)"
      using no_c by (intro arg_cong[of _ _ sum_list] map_cong) (auto simp: count_list_0_iff)
    with True show ?thesis by simp
  qed (simp add: length_pred_blocks)
  finally show ?thesis .
qed

lemma cut_block_preds:
  assumes cs: "can_split m f B D" and m': "m' = cut_block f B m" and t: "t = last (bb_insts B)"
  shows "length (predecessors m' (fn_of m' f) t) \<le> 1"
    "w \<in> set (insts (fn_of m f)) \<Longrightarrow> length (predecessors m (fn_of m f) w) \<le> 1 \<Longrightarrow> length (predecessors m' (fn_of m' f) w) \<le> 1"
proof -
  let ?F = "fn_of m f" and ?F' = "fn_of m' f" and ?g = "cut_last (bb_id B) (vbound m)"
  note facts = cut_block_facts[OF cs m'] and cl = cut_last_law[OF cut_block_facts(1,3)[OF cs m']] and wf' = cut_block_wf[OF cs m']
  have "\<lparr>bb_id = fresh_block m f, bb_insts = [t]\<rparr> \<in> set (fn_blocks ?F')" by (simp add: facts(4) t)
  from predecessors_front[OF wf' this] show tj: "length (predecessors m' ?F' t) \<le> 1"
    by (simp add: cut_block_pred_blocks[OF cs m'])
  assume w: "w \<in> set (insts ?F)" "length (predecessors m ?F w) \<le> 1"
  show "length (predecessors m' ?F' w) \<le> 1"
  proof (cases "w = t")
    case False
    from w(1) obtain E where E: "E \<in> set (fn_blocks ?F)" "w \<in> set (bb_insts E)" by (auto simp: in_insts)
    then have E': "?g E \<in> set (fn_blocks ?F')" by (simp add: facts(4))
    have wE: "w \<in> set (bb_insts (?g E))"
    proof (cases "E = B")
      case True
      have "w \<in> set (butlast (bb_insts B) @ [t])" using E(2) True cl(5) by (simp add: t)
      with False True show ?thesis by (simp add: cl(1))
    qed (use E cl(3) in simp)
    from block_split_front[OF wE] show ?thesis
    proof (elim disjE exE)
      assume h: "w = hd (bb_insts (?g E))"
      have "w \<noteq> vbound m" using w(1) facts(11) by blast
      with h cut_block_front(1)[OF cs m' t E(1)] have h0: "w = hd (bb_insts E)" by (simp split: if_splits)
      have "bb_id E \<noteq> fresh_block m f" using fresh_block_law(2)[OF E(1)] by simp
      with h h0 w(2) predecessors_front[OF facts(1) E(1)] predecessors_front[OF wf' E'] show ?thesis
        by (simp add: cl(2) cut_block_pred_blocks[OF cs m'])
    next
      fix as x bs assume "bb_insts (?g E) = as @ x # w # bs"
      from predecessors_mid[OF wf' E' this] show ?thesis by simp
    qed
  qed (use tj in simp)
qed

lemma cut_block_subdivides:
  assumes cs: "can_split m f B D" and m': "m' = cut_block f B m" and t: "t = last (bb_insts B)"
  shows "subdivides m m' f (UNIV \<times> {t}) t (vbound m)"
proof -
  let ?F = "fn_of m f" and ?F' = "fn_of m' f" and ?q = "vbound m"
  note facts = cut_block_facts[OF cs m'] and cl = cut_last_law[OF cut_block_facts(1,3)[OF cs m']] and wf' = cut_block_wf[OF cs m']
  from cs have ok: "edit_ok m f" by (simp add: can_split_def)
  have ti: "ins m t = ins m t\<lparr>succs := succs (ins m t), operands := operands (ins m t)\<rparr>" for t by simp
  note ins' = cut_block_insts(1)[OF cs m']
  have k: "keeps m m' f"
    by (rule graft_keeps[OF ok facts(2) m'[unfolded cut_block_def Let_def] ti _ _ wf' ins']) simp_all
  have old: "(x, y) \<in> cfg m' ?F' \<longleftrightarrow> (x, y) \<in> cfg m ?F - UNIV \<times> {t} \<or> y = ?q \<and> (x, t) \<in> cfg m ?F \<inter> UNIV \<times> {t}"
    if x: "x \<in> set (insts ?F)" for x y
  proof -
    have "?q \<notin> set (successors_inst m ?F x)" using successors_in_insts[OF facts(1) x] facts(11) by blast
    then show ?thesis using x cut_block_succs[OF cs m' t x] by (auto simp: cfg_def ins')
  qed
  have "cut_last (bb_id B) ?q B \<in> set (fn_blocks ?F')" using facts(3,4) by simp
  from successors_last[OF wf' this] have "successors_inst m' ?F' ?q = [t]"
    using facts(9) cut_block_front(3)[OF cs m' t] by (simp add: cl(1))
  then have "\<forall>y. (?q, y) \<in> cfg m' ?F' \<longrightarrow> y = t" by (simp add: cfg_def)
  with k old cut_block_preds(2)[OF cs m' t] facts(10,11) show ?thesis unfolding subdivides_def by (simp add: ins')
qed

subsection \<open>The contract\<close>

interpretation ref: edge_splitter split_edge_ref
proof
  fix m f B D m' b
  assume c: "can_split m f B D" "split_edge_ref f (bb_id B) (bb_id D) m = (m', b)"
  have at: "block_at (fn_of m f) (bb_id B) = Some B"
    using block_at_in[of m "fn_of m f" B] c(1) by (simp add: can_split_def edit_ok_def)
  {
    assume "length (succs (ins m (last (bb_insts B)))) > 1"
    with c(2) at have m': "m' = give_block f B (bb_id D) m" "b = fresh_block m f" by (simp_all add: split_edge_ref_def)
    with give_block_subdivides[OF c(1) m'(1)] give_block_front(2)[OF c(1) m'(1)]
    show "\<exists>p. subdivides m m' f {(last (bb_insts B), hd (bb_insts D))} (hd (bb_insts D)) p \<and> front_of (fn_of m' f) b = [p]"
      by blast
  next
    assume "length (succs (ins m (last (bb_insts B)))) = 1"
    with c(2) at have m': "m' = cut_block f B m" "b = fresh_block m f" by (simp_all add: split_edge_ref_def)
    with cut_block_subdivides[OF c(1) m'(1) refl] cut_block_front(3)[OF c(1) m'(1) refl] cut_block_preds(1)[OF c(1) m'(1) refl]
    show "\<exists>q. subdivides m m' f (UNIV \<times> {last (bb_insts B)}) (last (bb_insts B)) q \<and>
      front_of (fn_of m' f) b = [last (bb_insts B)] \<and> length (predecessors m' (fn_of m' f) (last (bb_insts B))) \<le> 1"
      by blast
  }
qed

end
