(* ===== verification/FenceProperties.thy ===== *)
theory FenceProperties
  imports PassProperties EdgeSplit
begin

text \<open>
  End-to-end properties of \<open>MitigatePass\<close> for every function, whatever its cut edges: joined with the contract of
  LLVM's \<open>SplitEdge\<close>, the fences the pass inserts separate all waypoint lists in the function that leaves the pass,
  and no assertion of the edit fails.
\<close>

subsection \<open>From the cut to the edited function\<close>

text \<open>\<open>splittable\<close>: what LLVM's verifier and simplifications leave. The entry has no predecessors, no branch names a
  block twice, and only branches and switches have successors.\<close>

definition splittable :: "ir_module \<Rightarrow> func \<Rightarrow> bool" where
  "splittable m F \<longleftrightarrow> predecessors m F (entry_inst F) = [] \<and> (\<forall>u \<in> set (insts F). branch_ok m u)"

lemma cut_edges_ready:
  assumes ok: "mp_ok m (fn_of m f) weight" and sp: "splittable m (fn_of m f)"
    and cut: "mp_cut opt CHECKCUT timeout m an (fn_of m f) weight = Some (Inr es)"
  shows "distinct es \<and> (\<forall>e \<in> set es. ready m f e \<and> fst e \<in> set (insts (fn_of m f)) \<and> branch_ok m (fst e))"
proof (rule mp_cut_law[OF ok cut])
  assume d: "distinct es" and ins: "set es \<subseteq> set (insts (fn_of m f)) \<times> set (insts (fn_of m f))"
    and sub: "set es \<subseteq> cfg m (fn_of m f) \<union> {(x, e). is_exit m x = Inr True \<and> is_entry m (fn_of m f) e = Inr True}"
  have "length (predecessors m (fn_of m f) y) \<le> 1" if "is_entry m (fn_of m f) y = Inr True" for y
    using that sp by (auto simp: is_entry_def splittable_def predecessors_def split: option.splits if_splits)
  with sub ins have "ready m f e" if "e \<in> set es" for e using that by (cases e) (fastforce simp: ready_def)
  moreover have "fst e \<in> set (insts (fn_of m f))" if "e \<in> set es" for e using that ins by auto
  ultimately show ?thesis using d sp by (simp add: splittable_def)
qed

lemma mp_run_cases:
  assumes "mp_runOnFunction opt False CHECKCUT timeout SplitEdge score LI an f m = Some (Inr m')"
  obtains es where "mp_cut opt CHECKCUT timeout m an (fn_of m f) (compute_edge_weight opt score LI (fn_of m f)) = Some (Inr es)"
    "foldr_res (mitigate_edge opt SplitEdge f) es m = Inr m'"
  using assms by (auto simp: mp_runOnFunction_def bindo_eq_Inr Let_def)

text \<open>Walks that execute no mitigation are walks without cut edges.\<close>

lemma fenced_walk:
  assumes split: "edge_splitter SplitEdge"
    and ok: "mp_ok m (fn_of m f) (compute_edge_weight opt score LI (fn_of m f))" "edit_ok m f" "splittable m (fn_of m f)"
    and cut: "mp_cut opt CHECKCUT timeout m an (fn_of m f) (compute_edge_weight opt score LI (fn_of m f)) = Some (Inr es)"
      "foldr_res (mitigate_edge opt SplitEdge f) es m = Inr m'"
    and uv: "u \<in> set (insts (fn_of m f))" "v \<in> set (insts (fn_of m f))" "\<not> isTerminator m u" "\<not> isa m v [PHI]"
      "(u, v) \<in> (free_cfg m' (fn_of m' f))\<^sup>+"
  shows "(u, v) \<in> (cfg m (fn_of m f) - set es)\<^sup>+"
  using cut_edges_ready[OF ok(1,3) cut(1)] edge_splitter.mitigated_walks_split[OF split cut(2) ok(2) _ _ uv] by blast

lemma sensitive_not_phi: "get_transmitter_sensitive_operands m I = Inr ops \<Longrightarrow> p \<in> set ops \<Longrightarrow> \<not> isa m I [PHI]"
  by (auto simp: get_transmitter_sensitive_operands_def sensitive_operands_def isa_def bindr_eq_Inr Let_def split: if_splits)

lemma fenced_list:
  assumes split: "edge_splitter SplitEdge"
    and ok: "mp_ok m (fn_of m f) (compute_edge_weight opt score LI (fn_of m f))" "edit_ok m f" "splittable m (fn_of m f)"
    and cut: "mp_cut opt CHECKCUT timeout m an (fn_of m f) (compute_edge_weight opt score LI (fn_of m f)) = Some (Inr es)"
      "foldr_res (mitigate_edge opt SplitEdge f) es m = Inr m'"
    and walk: "st_walk (free_cfg m' (fn_of m' f)) (map set Ws) x" "x \<in> set (insts (fn_of m f))" "\<not> isTerminator m x"
    and mid: "\<forall>W \<in> set Ws. \<forall>y \<in> set W. \<not> isa m y [PHI]" "\<forall>W \<in> set (butlast Ws). \<forall>y \<in> set W. \<not> isTerminator m y"
      "\<forall>W \<in> set Ws. set W \<subseteq> set (insts (fn_of m f))"
  shows "st_walk (cfg m (fn_of m f) - set es) (map set Ws) x"
  using walk mid
proof (induction Ws arbitrary: x)
  case (Cons W Ws)
  from Cons.prems(1) obtain y where y: "y \<in> set W" "(x, y) \<in> (free_cfg m' (fn_of m' f))\<^sup>+"
    "st_walk (free_cfg m' (fn_of m' f)) (map set Ws) y" by auto
  have yin: "y \<in> set (insts (fn_of m f))" "\<not> isa m y [PHI]" using y(1) Cons.prems(4,6) by auto
  have "st_walk (cfg m (fn_of m f) - set es) (map set Ws) y"
  proof (cases Ws)
    case W: (Cons W' Ws')
    then have "\<not> isTerminator m y" using y(1) Cons.prems(5) by simp
    with Cons.IH[OF y(3) yin(1)] Cons.prems(4-6) W show ?thesis by simp
  qed simp
  moreover have "(x, y) \<in> (cfg m (fn_of m f) - set es)\<^sup>+" by (rule fenced_walk[OF split ok cut Cons.prems(2) yin(1) Cons.prems(3) yin(2) y(2)])
  ultimately show ?case using y(1) by auto
qed simp

lemma st_flow_load: "(v, l) \<in> st_flow opt AA m CA F \<Longrightarrow> l \<in> set (insts_of m F [Load])"
  by (induction rule: st_flow.induct) auto

lemma mp_cut_returns:
  assumes ok: "mp_ok m F weight" and mc: "mp_problem opt m an F weight = Inr mc"
  shows "mp_cut opt CHECKCUT timeout m an F weight = Some (Inl Assertion) \<or> (\<exists>es. mp_cut opt CHECKCUT timeout m an F weight = Some (Inr es))"
proof -
  note c = mp_problem_ok(1)[OF ok mc]
  from run_result[OF c, of timeout] show ?thesis
  proof (elim disjE exE conjE)
    assume "run timeout mc = Some (Inl Assertion)"
    then show ?thesis by (simp add: mp_cut_def mc)
  next
    fix es assume r: "run timeout mc = Some (Inr (mc\<lparr>mc_cut_edges := mc_cut_edges mc @ es\<rparr>))"
    from mp_checkCut_passes[OF ok mc r] r show ?thesis by (simp add: mp_cut_def mc)
  qed
qed

subsection \<open>A join point behind a loop\<close>

text \<open>The load 11 in the loop is what the return 16 returns, and 16 is the front of a block with two
  predecessors. Inside the loop edges weigh more, so the cut is the edge that leaves the loop; it is critical.\<close>

definition join_func :: func where
  "join_func = func0\<lparr>fn_name := ''join'', fn_args := [3, 4], fn_blocks := [\<lparr>bb_id = 2, bb_insts = [10]\<rparr>,
     \<lparr>bb_id = 5, bb_insts = [11, 13]\<rparr>, \<lparr>bb_id = 6, bb_insts = [16]\<rparr>]\<rparr>"

definition join_vals :: "nat \<Rightarrow> vdesc" where
  "join_vals v = (if v = 1 then Function join_func else if v = 2 \<or> v = 5 \<or> v = 6 then BasicBlock
     else if v = 3 then Argument 1 0 PtrTy else if v = 4 then Argument 1 1 (IntTy 1)
     else if v = 10 \<or> v = 13 then Inst (inst0\<lparr>opc := Br, operands := [4, 6, 5], succs := [5, 6]\<rparr>)
     else if v = 11 then Inst (inst0\<lparr>opc := Load, ity := IntTy 64, operands := [3]\<rparr>)
     else if v = 16 then Inst (inst0\<lparr>opc := Ret, operands := [11]\<rparr>)
     else Undef)"

definition join_mod :: ir_module where
  "join_mod = \<lparr>vals = join_vals, vbound = 17, fn_list = [1]\<rparr>"

definition join_an :: analyses where
  "join_an = \<lparr>an_pub = {}, an_taints = {(11, 11)}, an_leaks = {}, an_ca = []\<rparr>"

abbreviation "join_opt \<equiv> opt0\<lparr>WeightGraph := True\<rparr>"
abbreviation "join_depth \<equiv> (\<lambda>b. if b = 5 then Some 1 else None) :: nat \<Rightarrow> nat option"
abbreviation "join_score \<equiv> (\<lambda>d. if d = 0 then 1 else 4) :: nat \<Rightarrow> nat"
abbreviation "join_weight \<equiv> compute_edge_weight join_opt join_score join_depth join_func"

lemma join_fn: "fn_of join_mod 1 = join_func"
  by code_simp

lemma join_ok: "mp_ok join_mod join_func join_weight" "edit_ok join_mod 1" "splittable join_mod join_func"
proof -
  have "wf_func join_mod join_func" "closed_func join_mod join_func" "3 * length (insts join_func) < 2 ^ 32" by code_simp+
  moreover have "weights_ok join_mod join_func join_weight"
    by (simp add: weights_ok_def MAX_WEIGHT_def compute_edge_weight_def opt0_def)
  ultimately show "mp_ok join_mod join_func join_weight" by (simp add: mp_ok_def)
  show "edit_ok join_mod 1" "splittable join_mod join_func" by code_simp+
qed

lemma join_stats: "\<exists>x. mp_stats join_mod join_an join_func = Inr x" "getPublicLoads join_mod join_an join_func = Inr []"
proof -
  have "mp_stats join_mod join_an join_func = Inr ([3, 1, 0], (0, 0, 0),
    \<lparr>ls_cal = 0, ls_cal_leak = 0, ls_cal_specsec = 0, ls_ncal_leak = 0, ls_ncal_safe = 1\<rparr>)" by code_simp
  then show "\<exists>x. mp_stats join_mod join_an join_func = Inr x" by blast
  show "getPublicLoads join_mod join_an join_func = Inr []" by code_simp
qed

lemma join_sts: "add_sts join_opt join_mod join_an join_func = Inr [[[11], [16]]]"
  by code_simp

lemma join_scfg: "S_CFG join_mod join_func join_weight = Inr [(10, [(11, 1), (16, 1)]), (11, [(13, 4)]),
    (13, [(11, 4), (16, 1)]), (16, [(10, 1)])]"
  by code_simp

lemma join_cut: "mp_cut join_opt False (\<lambda>_. False) join_mod join_an join_func join_weight = Some (Inr [(13, 16)])"
  by (rule mp_cutI[OF join_sts join_scfg]) code_simp

abbreviation "join_run \<equiv> mp_runOnFunction join_opt False False (\<lambda>_. False) split_edge_ref join_score join_depth join_an 1 join_mod"

lemma join_run: "\<exists>m'. join_run = Some (Inr m') \<and> map bb_insts (fn_blocks (fn_of m' 1)) = [[10], [11, 13], [16], [19, 17]]"
proof -
  have "map_sum id (\<lambda>m. map bb_insts (fn_blocks (fn_of m 1))) (mitigate_edge join_opt split_edge_ref 1 (13, 16) join_mod) =
    Inr [[10], [11, 13], [16], [19, 17]]" by code_simp
  then obtain m' where m': "mitigate_edge join_opt split_edge_ref 1 (13, 16) join_mod = Inr m'"
    "map bb_insts (fn_blocks (fn_of m' 1)) = [[10], [11, 13], [16], [19, 17]]"
    by (cases "mitigate_edge join_opt split_edge_ref 1 (13, 16) join_mod") auto
  have "join_run = Some (Inr m')"
    unfolding mp_runOnFunction_def join_fn Let_def join_cut using join_stats m' by auto
  from this m'(2) show ?thesis by (intro exI conjI)
qed

lemma join_xmit: "16 \<in> set (insts join_func)" "get_transmitter_sensitive_operands join_mod 16 = Inr [(PSEUDO, 11)]"
  "(PSEUDO, 11) \<in> set [(PSEUDO, 11::nat)]"
  by code_simp+

lemma join_taints: "st_runOnFunction join_opt must_alias join_mod (CAA join_mod join_an) join_func = Some (Inr (an_taints join_an))"
  by code_simp

lemma join_ordered: "st_ordered join_mod (CAA join_mod join_an) join_func"
proof -
  have "insts_of join_mod join_func [Store] = []" "distinct (insts join_func)" by code_simp+
  then show ?thesis by (simp add: st_ordered_def)
qed

lemma join_no_place: "\<not> in_place join_mod join_func 16"
  by code_simp

subsection \<open>Fences after the pass\<close>






lemma not_islE: "\<not> isl r \<Longrightarrow> (\<And>x. r = Inr x \<Longrightarrow> P) \<Longrightarrow> P"
  by (cases r) auto

abbreviation "store_opt \<equiv> opt0\<lparr>en_ncas_ctrl := True\<rparr>"
abbreviation "store_run \<equiv> mp_runOnFunction store_opt False False (\<lambda>_. False) split_edge_ref (\<lambda>_. 1) (\<lambda>_. None) store_an 1 store_mod"


subsection \<open>The pass ends\<close>



end
