(* ===== verification/ContractChecker.thy ===== *)
theory ContractChecker
  imports NonspeculativeTaint MitigateSets
begin

text \<open>
  \<open>src/check/ContractChecker.cc\<close>: a function obeys the contract if its arguments and return values
  are public by the annotations and what the code does with them. What the IR model does not hold
  comes as a record: global variables by name, the operands of constants and initialisers, their
  kind, and LLVM's \<open>stripPointerCasts\<close>; \<open>dep\<close> answers \<open>MemoryDependenceResults::getDependency\<close>.
  \<open>cc_public\<close> states the rules; the loop computes the least set closed under them (\<open>cc_exact\<close>).
\<close>

subsection \<open>Annotations\<close>

text \<open>\<open>CString s\<close> is a \<open>ConstantDataArray\<close> that is a C string, \<open>RawData\<close> one that is not.\<close>

datatype ckind = CGlobal | CFunction | CArray | CStruct | CString string | RawData | COther

record constants =
  getGlobalVariable :: "string \<Rightarrow> nat option"
  const_operands :: "nat \<Rightarrow> nat list"
  const_kind :: "nat \<Rightarrow> ckind"
  stripPointerCasts :: "nat \<Rightarrow> nat"

definition getOperand :: "constants \<Rightarrow> nat \<Rightarrow> nat \<Rightarrow> nat res" where
  "getOperand K v k = assertr (k < length (const_operands K v)) (Inr (const_operands K v ! k))"

definition struct_public :: "constants \<Rightarrow> nat \<Rightarrow> nat \<Rightarrow> bool res" where
  "struct_public K f CS =
     (if const_kind K CS = CStruct \<and> length (const_operands K CS) \<ge> 2 then
        bindr (getOperand K CS 0) (\<lambda>c0. bindr (getOperand K c0 0) (\<lambda>fn.
        assertr (const_kind K fn = CFunction)
          (if f = fn then
             bindr (getOperand K CS 1) (\<lambda>c1. bindr (getOperand K c1 0) (\<lambda>GAnn.
               if const_kind K GAnn = CGlobal then
                 bindr (getOperand K GAnn 0) (\<lambda>A. case const_kind K A of
                     CString s \<Rightarrow> Inr (s = ''public'')
                   | RawData \<Rightarrow> Inl Assertion
                   | _ \<Rightarrow> Inr False)
               else Inr False))
           else Inr False)))
      else Inr False)"

definition annotatedPublicReturnValue :: "constants \<Rightarrow> nat \<Rightarrow> bool res" where
  "annotatedPublicReturnValue K f = (case getGlobalVariable K ''llvm.global.annotations'' of
      None \<Rightarrow> Inr False
    | Some GV \<Rightarrow> any_res (\<lambda>AOp.
        if const_kind K AOp = CArray then any_res (struct_public K f) (const_operands K AOp) else Inr False)
        (const_operands K GV))"

text \<open>The intrinsic \<open>llvm.annotation\<close>: whether its string is \<open>public\<close>.\<close>

definition annotated_public :: "constants \<Rightarrow> ir_module \<Rightarrow> nat \<Rightarrow> bool res" where
  "annotated_public K m II =
     (if intrinsic_id m II = Some In_annotation then
        (let str_GV = stripPointerCasts K (opnd (ins m II) 1) in
         if const_kind K str_GV = CGlobal then
           bindr (getOperand K str_GV 0) (\<lambda>str_V. Inr (const_kind K str_V = CString ''public''))
         else Inr False)
      else Inr False)"

subsection \<open>Public values\<close>

datatype mem_dep = NonLocalDep | DefDep nat | OtherDep

definition is_pub :: "ir_module \<Rightarrow> nat set \<Rightarrow> nat \<Rightarrow> bool" where
  "is_pub m pub v \<longleftrightarrow> v \<in> pub \<or> is_constant (vals m v)"

definition all_pub :: "ir_module \<Rightarrow> nat set \<Rightarrow> nat list \<Rightarrow> bool" where
  "all_pub m pub vs = list_all (is_pub m pub) vs"

definition cc_returns :: "ir_module \<Rightarrow> func \<Rightarrow> nat list" where
  "cc_returns m F = concat (map (\<lambda>RI. take 1 (operands (ins m RI))) (insts_of m F [Ret]))"

definition cc_init :: "constants \<Rightarrow> ir_module \<Rightarrow> nat \<Rightarrow> nat set res" where
  "cc_init K m f = (let F = fn_of m f in
     bindr (filter_res (annotated_public K m) (insts F)) (\<lambda>IIs.
     bindr (annotatedPublicReturnValue K f) (\<lambda>public_return.
     Inr (set (filter (is_ptr m) (fn_args F)) \<union> (\<lambda>II. opnd (ins m II) 0) ` set IIs \<union>
       (if public_return then set (cc_returns m F) else {})))))"

definition cc_passthrough :: "intrinsic list" where
  "cc_passthrough = [vector_reduce ReduceAnd, vector_reduce ReduceAdd, vector_reduce ReduceOr, In_fshl,
     In_ctpop, x86 aesni_aeskeygenassist, x86 aesni_aesenc, x86 aesni_aesenclast, In_bswap, x86 pclmulqdq,
     In_umin, In_umax, x86 rdrand_32]"

abbreviation "cc_all_inputs \<equiv> [Cmp, PHI, Select, Freeze] @ CastInst @ BinaryOperator"
abbreviation "cc_opaque \<equiv> [ExtractValue, ShuffleVector, ExtractElement, InsertElement]"

definition cc_own :: "ir_module \<Rightarrow> nat \<Rightarrow> nat set \<Rightarrow> nat set" where
  "cc_own m I pub = (if is_ptr m I then insert I pub else pub)"

definition cc_transmit :: "ir_module \<Rightarrow> nat \<Rightarrow> nat set \<Rightarrow> nat set res" where
  "cc_transmit m I pub = bindr (get_transmitter_sensitive_operands m I) (\<lambda>ops.
     Inr (pub \<union> set (map snd (filter (\<lambda>(kind, v). kind = TRUE) ops))))"

definition cc_call :: "ir_module \<Rightarrow> nat \<Rightarrow> nat set \<Rightarrow> nat set" where
  "cc_call m I pub =
     (if is_ExtCallBase m I then
        (let pub' = pub \<union> set (call_args (ins m I)) in if \<not> is_void m I then insert I pub' else pub')
      else pub)"

definition cc_backward :: "ir_module \<Rightarrow> nat \<Rightarrow> nat set \<times> nat set \<Rightarrow> (nat set \<times> nat set) res" where
  "cc_backward m I = (\<lambda>(mem, pub).
     if I \<in> pub \<and> operands (ins m I) \<noteq> [] then
       if isa m I [Load] then Inr (insert (getPointerOperand (ins m I)) mem, pub)
       else if isa m I (cc_all_inputs @ [GetElementPtr, Alloca]) then Inr (mem, pub \<union> set (operands (ins m I)))
       else case intrinsic_id m I of
           Some k \<Rightarrow>
             if k \<in> set cc_passthrough then Inr (mem, pub \<union> set (call_args (ins m I)))
             else if k = In_annotation then Inr (mem, insert (opnd (ins m I) 0) pub)
             else Inl Unhandled
         | None \<Rightarrow> if is_ExtCallBase m I \<or> isa m I cc_opaque then Inr (mem, pub) else Inl Unhandled
     else Inr (mem, pub))"

definition cc_forward :: "ir_module \<Rightarrow> nat \<Rightarrow> nat set \<Rightarrow> nat set res" where
  "cc_forward m I pub =
     (if \<not> is_void m I \<and> operands (ins m I) \<noteq> [] \<and> I \<notin> pub then
        if isa m I [Load] then Inr pub
        else if isa m I cc_all_inputs then
          Inr (if all_pub m pub (operands (ins m I)) then insert I pub else pub)
        else case intrinsic_id m I of
            Some k \<Rightarrow>
              if k \<in> set cc_passthrough then Inr (if all_pub m pub (call_args (ins m I)) then insert I pub else pub)
              else if k = In_annotation then Inr (if is_pub m pub (opnd (ins m I) 0) then insert I pub else pub)
              else Inl Unhandled
          | None \<Rightarrow> if is_ExtCallBase m I \<or> isa m I cc_opaque then Inr pub else Inl Unhandled
      else Inr pub)"

definition cc_memory :: "(nat \<Rightarrow> mem_dep) \<Rightarrow> ir_module \<Rightarrow> nat \<Rightarrow> nat set \<Rightarrow> nat set res" where
  "cc_memory dep m I pub =
     (if isa m I [Load] then
        (case dep I of
           DefDep S \<Rightarrow>
             if isa m S [Store] then
               (let v = opnd (ins m S) 0;
                    pub1 = (if is_pub m pub v then insert I pub else pub)
                in Inr (if is_pub m pub1 I then insert v pub1 else pub1))
             else Inl Unhandled
         | _ \<Rightarrow> Inr pub)
      else Inr pub)"

definition cc_inst :: "(nat \<Rightarrow> mem_dep) \<Rightarrow> ir_module \<Rightarrow> nat \<Rightarrow> nat set \<times> nat set \<Rightarrow> (nat set \<times> nat set) res" where
  "cc_inst dep m I = (\<lambda>(mem, pub).
     bindr (cc_transmit m I (cc_own m I pub)) (\<lambda>pub1.
     bindr (cc_backward m I (mem, cc_call m I pub1)) (\<lambda>(mem', pub2).
     bindr (cc_forward m I pub2) (\<lambda>pub3.
     bindr (cc_memory dep m I pub3) (\<lambda>pub4. Inr (mem', pub4))))))"

definition cc_round :: "(nat \<Rightarrow> mem_dep) \<Rightarrow> ir_module \<Rightarrow> func \<Rightarrow> nat set \<times> nat set \<Rightarrow> (nat set \<times> nat set) res" where
  "cc_round dep m F = foldr_res (cc_inst dep m) (insts F)"

text \<open>The loop compares both sets with their copies; the sum of the sets is the same exactly if both are.\<close>

definition cc_key :: "nat set \<times> nat set \<Rightarrow> (nat + nat) set" where
  "cc_key s = fst s <+> snd s"

definition cc_values :: "constants \<Rightarrow> (nat \<Rightarrow> mem_dep) \<Rightarrow> ir_module \<Rightarrow> nat \<Rightarrow> (nat set \<times> nat set) run" where
  "cc_values K dep m f = bindo (Some (cc_init K m f)) (\<lambda>pub.
     until_stable cc_key (cc_round dep m (fn_of m f)) ({}, pub))"

subsection \<open>The check\<close>

text \<open>The arguments and return values that are reported.\<close>

definition secret_arguments :: "func \<Rightarrow> nat set \<Rightarrow> nat list" where
  "secret_arguments F pub = filter (\<lambda>A. A \<notin> pub) (fn_args F)"

definition secret_returns :: "ir_module \<Rightarrow> func \<Rightarrow> nat set \<Rightarrow> nat list" where
  "secret_returns m F pub = filter (\<lambda>RV. \<not> is_pub m pub RV) (cc_returns m F)"

definition cc_runOnFunction :: "constants \<Rightarrow> (nat \<Rightarrow> mem_dep) \<Rightarrow> ir_module \<Rightarrow> nat \<Rightarrow> unit run" where
  "cc_runOnFunction K dep m f = bindo (cc_values K dep m f) (\<lambda>(mem, pub).
     Some (if secret_arguments (fn_of m f) pub = [] \<and> secret_returns m (fn_of m f) pub = []
           then Inr () else Inl Exited))"


subsection \<open>The rules\<close>

inductive_set cc_public :: "constants \<Rightarrow> (nat \<Rightarrow> mem_dep) \<Rightarrow> ir_module \<Rightarrow> nat \<Rightarrow> nat set"
  for K :: constants and dep :: "nat \<Rightarrow> mem_dep" and m :: ir_module and f :: nat where
  argument: "A \<in> set (fn_args (fn_of m f)) \<Longrightarrow> is_ptr m A \<Longrightarrow> A \<in> cc_public K dep m f"
| annotated: "I \<in> set (insts (fn_of m f)) \<Longrightarrow> annotated_public K m I = Inr True \<Longrightarrow>
    opnd (ins m I) 0 \<in> cc_public K dep m f"
| returned: "annotatedPublicReturnValue K f = Inr True \<Longrightarrow> v \<in> set (cc_returns m (fn_of m f)) \<Longrightarrow>
    v \<in> cc_public K dep m f"
| pointer: "I \<in> set (insts (fn_of m f)) \<Longrightarrow> is_ptr m I \<Longrightarrow> I \<in> cc_public K dep m f"
| transmitted: "I \<in> set (insts (fn_of m f)) \<Longrightarrow> get_transmitter_sensitive_operands m I = Inr ops \<Longrightarrow>
    (TRUE, v) \<in> set ops \<Longrightarrow> v \<in> cc_public K dep m f"
| passed: "I \<in> set (insts (fn_of m f)) \<Longrightarrow> is_ExtCallBase m I \<Longrightarrow> v \<in> set (call_args (ins m I)) \<Longrightarrow>
    v \<in> cc_public K dep m f"
| result: "I \<in> set (insts (fn_of m f)) \<Longrightarrow> is_ExtCallBase m I \<Longrightarrow> \<not> is_void m I \<Longrightarrow> I \<in> cc_public K dep m f"
| inputs: "I \<in> set (insts (fn_of m f)) \<Longrightarrow> I \<in> cc_public K dep m f \<Longrightarrow>
    isa m I (cc_all_inputs @ [GetElementPtr, Alloca]) \<Longrightarrow> v \<in> set (operands (ins m I)) \<Longrightarrow> v \<in> cc_public K dep m f"
| arguments: "I \<in> set (insts (fn_of m f)) \<Longrightarrow> I \<in> cc_public K dep m f \<Longrightarrow> intrinsic_id m I = Some k \<Longrightarrow>
    k \<in> set cc_passthrough \<Longrightarrow> v \<in> set (call_args (ins m I)) \<Longrightarrow> v \<in> cc_public K dep m f"
| annotation: "I \<in> set (insts (fn_of m f)) \<Longrightarrow> I \<in> cc_public K dep m f \<Longrightarrow> intrinsic_id m I = Some In_annotation \<Longrightarrow>
    operands (ins m I) \<noteq> [] \<Longrightarrow> opnd (ins m I) 0 \<in> cc_public K dep m f"
| computed: "I \<in> set (insts (fn_of m f)) \<Longrightarrow> \<not> is_void m I \<Longrightarrow> isa m I cc_all_inputs \<Longrightarrow> operands (ins m I) \<noteq> [] \<Longrightarrow>
    \<forall>v \<in> set (operands (ins m I)). v \<in> cc_public K dep m f \<or> is_constant (vals m v) \<Longrightarrow> I \<in> cc_public K dep m f"
| intrinsic: "I \<in> set (insts (fn_of m f)) \<Longrightarrow> \<not> is_void m I \<Longrightarrow> intrinsic_id m I = Some k \<Longrightarrow> k \<in> set cc_passthrough \<Longrightarrow>
    operands (ins m I) \<noteq> [] \<Longrightarrow>
    \<forall>v \<in> set (call_args (ins m I)). v \<in> cc_public K dep m f \<or> is_constant (vals m v) \<Longrightarrow> I \<in> cc_public K dep m f"
| of_annotation: "I \<in> set (insts (fn_of m f)) \<Longrightarrow> \<not> is_void m I \<Longrightarrow> intrinsic_id m I = Some In_annotation \<Longrightarrow>
    operands (ins m I) \<noteq> [] \<Longrightarrow>
    opnd (ins m I) 0 \<in> cc_public K dep m f \<or> is_constant (vals m (opnd (ins m I) 0)) \<Longrightarrow> I \<in> cc_public K dep m f"
| loaded: "I \<in> set (insts (fn_of m f)) \<Longrightarrow> isa m I [Load] \<Longrightarrow> dep I = DefDep S \<Longrightarrow> isa m S [Store] \<Longrightarrow>
    opnd (ins m S) 0 \<in> cc_public K dep m f \<or> is_constant (vals m (opnd (ins m S) 0)) \<Longrightarrow> I \<in> cc_public K dep m f"
| stored: "I \<in> set (insts (fn_of m f)) \<Longrightarrow> isa m I [Load] \<Longrightarrow> dep I = DefDep S \<Longrightarrow> isa m S [Store] \<Longrightarrow>
    I \<in> cc_public K dep m f \<Longrightarrow> opnd (ins m S) 0 \<in> cc_public K dep m f"

text \<open>A dependency that is a definition is an instruction of the function.\<close>

definition dep_ok :: "(nat \<Rightarrow> mem_dep) \<Rightarrow> func \<Rightarrow> bool" where
  "dep_ok dep F \<longleftrightarrow> (\<forall>I \<in> set (insts F). \<forall>S. dep I = DefDep S \<longrightarrow> S \<in> set (insts F))"

lemma is_pub_in: "is_inst m I \<Longrightarrow> is_pub m pub I \<longleftrightarrow> I \<in> pub"
  by (cases "vals m I") (auto simp: is_pub_def is_inst_def)

lemma all_pub_iff: "all_pub m pub vs \<longleftrightarrow> (\<forall>v \<in> set vs. v \<in> pub \<or> is_constant (vals m v))"
  by (auto simp: all_pub_def is_pub_def list_all_iff)

lemma cc_returns_in: "v \<in> set (cc_returns m F) \<Longrightarrow> \<exists>I \<in> set (insts F). v \<in> set (operands (ins m I))"
  by (auto simp: cc_returns_def insts_of_in dest: in_set_takeD)

lemma cc_public_bounded: "v \<in> cc_public K dep m f \<Longrightarrow> fn_ok m (fn_of m f) \<Longrightarrow> dep_ok dep (fn_of m f) \<Longrightarrow> v \<le> vbound m"
proof (induction rule: cc_public.induct)
  case (returned v)
  with cc_returns_in fn_ok_operands[of m "fn_of m f"] show ?case by fastforce
next
  case (transmitted I ops v)
  from get_transmitter_sensitive_operands_in[OF transmitted(2,3)] show ?case
  proof
    assume "v \<in> set (operands (ins m I))"
    from fn_ok_operands[OF transmitted(4,1) this] show ?thesis by simp
  qed (simp add: null_def)
next
  case (passed I v)
  with call_args_in[of "ins m I"] fn_ok_operands[of m "fn_of m f" I v] show ?case by auto
next
  case (inputs I v)
  with fn_ok_operands[of m "fn_of m f" I v] show ?case by auto
next
  case (arguments I k v)
  with call_args_in[of "ins m I"] fn_ok_operands[of m "fn_of m f" I v] show ?case by auto
next
  case (stored I S)
  then show ?case using fn_ok_opnd[of m "fn_of m f" S 0] by (auto simp: dep_ok_def)
qed (auto simp: fn_ok_def fn_ok_opnd less_imp_le)

subsection \<open>The loop computes the rules\<close>

text \<open>Each step only adds, and adds only what the rules make public.\<close>

lemma cc_own_law:
  "pub \<subseteq> cc_own m I pub"
  "I \<in> set (insts (fn_of m f)) \<Longrightarrow> pub \<subseteq> cc_public K dep m f \<Longrightarrow> cc_own m I pub \<subseteq> cc_public K dep m f"
  by (auto simp: cc_own_def intro: cc_public.pointer)

lemma cc_transmit_law:
  assumes "cc_transmit m I pub = Inr pub'"
  shows "pub \<subseteq> pub'"
    and "I \<in> set (insts (fn_of m f)) \<Longrightarrow> pub \<subseteq> cc_public K dep m f \<Longrightarrow> pub' \<subseteq> cc_public K dep m f"
  using assms by (auto simp: cc_transmit_def bindr_eq_Inr intro: cc_public.transmitted)

lemma cc_call_law:
  "pub \<subseteq> cc_call m I pub"
  "I \<in> set (insts (fn_of m f)) \<Longrightarrow> pub \<subseteq> cc_public K dep m f \<Longrightarrow> cc_call m I pub \<subseteq> cc_public K dep m f"
  by (auto simp: cc_call_def Let_def intro: cc_public.passed cc_public.result)

lemma cc_backward_law:
  assumes "cc_backward m I (mem, pub) = Inr (mem', pub')"
  shows "pub \<subseteq> pub'" "mem \<subseteq> mem'" "mem' \<subseteq> insert (getPointerOperand (ins m I)) mem"
    and "I \<in> set (insts (fn_of m f)) \<Longrightarrow> pub \<subseteq> cc_public K dep m f \<Longrightarrow> pub' \<subseteq> cc_public K dep m f"
proof -
  show "pub \<subseteq> pub'" "mem \<subseteq> mem'" "mem' \<subseteq> insert (getPointerOperand (ins m I)) mem"
    using assms by (auto simp: cc_backward_def split: if_splits option.splits)
  assume I: "I \<in> set (insts (fn_of m f))" and sub: "pub \<subseteq> cc_public K dep m f"
  show "pub' \<subseteq> cc_public K dep m f"
  proof
    fix v assume v: "v \<in> pub'"
    show "v \<in> cc_public K dep m f"
    proof (cases "v \<in> pub")
      case False
      with v assms have p: "I \<in> pub" "operands (ins m I) \<noteq> []" by (auto simp: cc_backward_def split: if_splits)
      with sub have Ip: "I \<in> cc_public K dep m f" by blast
      from assms v False consider
          "isa m I (cc_all_inputs @ [GetElementPtr, Alloca])" "v \<in> set (operands (ins m I))"
        | k where "intrinsic_id m I = Some k" "k \<in> set cc_passthrough" "v \<in> set (call_args (ins m I))"
        | "intrinsic_id m I = Some In_annotation" "v = opnd (ins m I) 0"
        by (auto simp: cc_backward_def split: if_splits option.splits)
      then show ?thesis
      proof cases
        case 1 then show ?thesis by (rule cc_public.inputs[OF I Ip])
      next
        case 2 then show ?thesis by (rule cc_public.arguments[OF I Ip])
      next
        case 3 then show ?thesis using cc_public.annotation[OF I Ip _ p(2)] by simp
      qed
    qed (use sub in blast)
  qed
qed

lemma cc_forward_law:
  assumes "cc_forward m I pub = Inr pub'"
  shows "pub \<subseteq> pub'"
    and "I \<in> set (insts (fn_of m f)) \<Longrightarrow> pub \<subseteq> cc_public K dep m f \<Longrightarrow> pub' \<subseteq> cc_public K dep m f"
proof -
  show "pub \<subseteq> pub'" using assms by (auto simp: cc_forward_def split: if_splits option.splits)
  assume I: "I \<in> set (insts (fn_of m f))" and sub: "pub \<subseteq> cc_public K dep m f"
  show "pub' \<subseteq> cc_public K dep m f"
  proof
    fix v assume v: "v \<in> pub'"
    show "v \<in> cc_public K dep m f"
    proof (cases "v \<in> pub")
      case False
      with v assms have p: "\<not> is_void m I" "operands (ins m I) \<noteq> []" and [simp]: "v = I"
        by (auto simp: cc_forward_def split: if_splits option.splits)
      have in_pub: "\<forall>u \<in> set vs. u \<in> cc_public K dep m f \<or> is_constant (vals m u)" if "all_pub m pub vs" for vs
        using that sub by (auto simp: all_pub_iff)
      from assms v False consider
          "isa m I cc_all_inputs" "all_pub m pub (operands (ins m I))"
        | k where "intrinsic_id m I = Some k" "k \<in> set cc_passthrough" "all_pub m pub (call_args (ins m I))"
        | "intrinsic_id m I = Some In_annotation" "is_pub m pub (opnd (ins m I) 0)"
        by (auto simp: cc_forward_def split: if_splits option.splits)
      then show ?thesis
      proof cases
        case 1 then show ?thesis using cc_public.computed[OF I p(1) 1(1) p(2) in_pub] by simp
      next
        case 2 then show ?thesis using cc_public.intrinsic[OF I p(1) 2(1,2) p(2) in_pub] by simp
      next
        case 3 then show ?thesis using cc_public.of_annotation[OF I p(1) 3(1) p(2)] sub by (auto simp: is_pub_def)
      qed
    qed (use sub in blast)
  qed
qed

lemma cc_memory_law:
  assumes "cc_memory dep m I pub = Inr pub'"
  shows "pub \<subseteq> pub'"
    and "I \<in> set (insts (fn_of m f)) \<Longrightarrow> is_inst m I \<Longrightarrow> pub \<subseteq> cc_public K dep m f \<Longrightarrow> pub' \<subseteq> cc_public K dep m f"
proof -
  show "pub \<subseteq> pub'" using assms by (auto simp: cc_memory_def Let_def split: if_splits mem_dep.splits)
  assume I: "I \<in> set (insts (fn_of m f))" "is_inst m I" and sub: "pub \<subseteq> cc_public K dep m f"
  show "pub' \<subseteq> cc_public K dep m f"
  proof (cases "isa m I [Load] \<and> (\<exists>S. dep I = DefDep S \<and> isa m S [Store])")
    case False
    with assms have "pub' = pub" by (auto simp: cc_memory_def split: if_splits mem_dep.splits)
    with sub show ?thesis by simp
  next
    case True
    then obtain S where S: "isa m I [Load]" "dep I = DefDep S" "isa m S [Store]" by blast
    define pub1 where "pub1 = (if is_pub m pub (opnd (ins m S) 0) then insert I pub else pub)"
    have p1: "pub1 \<subseteq> cc_public K dep m f"
      using sub cc_public.loaded[where dep = dep, OF I(1) S] by (auto simp: pub1_def is_pub_def)
    have "pub' = (if I \<in> pub1 then insert (opnd (ins m S) 0) pub1 else pub1)"
      using assms S by (auto simp: cc_memory_def Let_def pub1_def is_pub_in[OF I(2)] split: if_splits)
    with p1 cc_public.stored[where dep = dep, OF I(1) S] show ?thesis by auto
  qed
qed

lemma cc_instE:
  assumes "cc_inst dep m I (mem, pub) = Inr (mem', pub')"
  obtains pub1 pub2 pub3 where "cc_transmit m I (cc_own m I pub) = Inr pub1"
    and "cc_backward m I (mem, cc_call m I pub1) = Inr (mem', pub2)"
    and "cc_forward m I pub2 = Inr pub3" and "cc_memory dep m I pub3 = Inr pub'"
  using assms by (auto simp: cc_inst_def bindr_eq_Inr)

lemma cc_inst_law:
  assumes "cc_inst dep m I (mem, pub) = Inr (mem', pub')"
  shows "pub \<subseteq> pub'" "mem \<subseteq> mem'" "mem' \<subseteq> insert (getPointerOperand (ins m I)) mem"
    and "I \<in> set (insts (fn_of m f)) \<Longrightarrow> is_inst m I \<Longrightarrow> pub \<subseteq> cc_public K dep m f \<Longrightarrow> pub' \<subseteq> cc_public K dep m f"
proof -
  obtain pub1 pub2 pub3 where s: "cc_transmit m I (cc_own m I pub) = Inr pub1"
    "cc_backward m I (mem, cc_call m I pub1) = Inr (mem', pub2)"
    "cc_forward m I pub2 = Inr pub3" "cc_memory dep m I pub3 = Inr pub'"
    using cc_instE[OF assms] by blast
  note b = cc_backward_law[OF s(2)]
  show "pub \<subseteq> pub'" using cc_own_law(1)[of pub m I] cc_transmit_law(1)[OF s(1)] cc_call_law(1)[of pub1 m I] b(1)
      cc_forward_law(1)[OF s(3)] cc_memory_law(1)[OF s(4)] by blast
  show "mem \<subseteq> mem'" "mem' \<subseteq> insert (getPointerOperand (ins m I)) mem" by (rule b(2), rule b(3))
  assume I: "I \<in> set (insts (fn_of m f))" "is_inst m I" and sub: "pub \<subseteq> cc_public K dep m f"
  have "pub1 \<subseteq> cc_public K dep m f" by (rule cc_transmit_law(2)[OF s(1) I(1) cc_own_law(2)[OF I(1) sub]])
  then have "pub2 \<subseteq> cc_public K dep m f" by (intro b(4)[OF I(1)] cc_call_law(2)[OF I(1)])
  then show "pub' \<subseteq> cc_public K dep m f" by (intro cc_memory_law(2)[OF s(4) I] cc_forward_law(2)[OF s(3) I(1)])
qed

text \<open>A step that adds nothing has applied every rule of its instruction.\<close>

definition closed_at :: "(nat \<Rightarrow> mem_dep) \<Rightarrow> ir_module \<Rightarrow> nat \<Rightarrow> nat set \<Rightarrow> bool" where
  "closed_at dep m I pub \<longleftrightarrow> cc_own m I pub = pub \<and> cc_transmit m I pub = Inr pub \<and> cc_call m I pub = pub \<and>
     (\<exists>mem. cc_backward m I (mem, pub) = Inr (mem, pub)) \<and> cc_forward m I pub = Inr pub \<and>
     cc_memory dep m I pub = Inr pub"

lemma cc_inst_closed:
  assumes "cc_inst dep m I (mem, pub) = Inr (mem, pub)"
  shows "closed_at dep m I pub"
proof -
  obtain pub1 pub2 pub3 where s: "cc_transmit m I (cc_own m I pub) = Inr pub1"
    "cc_backward m I (mem, cc_call m I pub1) = Inr (mem, pub2)"
    "cc_forward m I pub2 = Inr pub3" "cc_memory dep m I pub3 = Inr pub"
    using cc_instE[OF assms] by blast
  have "cc_own m I pub = pub" "pub1 = pub" "cc_call m I pub1 = pub" "pub2 = pub" "pub3 = pub"
    using cc_own_law(1)[of pub m I] cc_transmit_law(1)[OF s(1)] cc_call_law(1)[of pub1 m I]
      cc_backward_law(1)[OF s(2)] cc_forward_law(1)[OF s(3)] cc_memory_law(1)[OF s(4)] by blast+
  with s show ?thesis by (auto simp: closed_at_def)
qed

lemma cc_key_mono: "fst s \<subseteq> fst s' \<Longrightarrow> snd s \<subseteq> snd s' \<Longrightarrow> cc_key s \<subseteq> cc_key s'"
  by (auto simp: cc_key_def)

lemma cc_key_inject: "cc_key s = cc_key s' \<longleftrightarrow> s = s'"
proof
  assume eq: "cc_key s = cc_key s'"
  have "fst t = {x. Inl x \<in> cc_key t}" "snd t = {x. Inr x \<in> cc_key t}" for t
    by (auto simp: cc_key_def)
  with eq have "fst s = fst s'" "snd s = snd s'" by metis+
  then show "s = s'" by (simp add: prod_eq_iff)
qed simp

lemma cc_inst_grows: "cc_inst dep m I s = Inr s' \<Longrightarrow> cc_key s \<subseteq> cc_key s'"
  using cc_inst_law(1,2)[of dep m I "fst s" "snd s" "fst s'" "snd s'"] by (intro cc_key_mono) auto

definition cc_inv :: "constants \<Rightarrow> (nat \<Rightarrow> mem_dep) \<Rightarrow> ir_module \<Rightarrow> nat \<Rightarrow> nat set \<times> nat set \<Rightarrow> bool" where
  "cc_inv K dep m f s \<longleftrightarrow> fn_ok m (fn_of m f) \<and> dep_ok dep (fn_of m f) \<and>
     fst s \<subseteq> (getPointerOperand \<circ> ins m) ` set (insts (fn_of m f)) \<and> snd s \<subseteq> cc_public K dep m f \<and>
     (\<exists>pub0. cc_init K m f = Inr pub0 \<and> pub0 \<subseteq> snd s)"

lemma cc_inst_inv:
  assumes "I \<in> set (insts (fn_of m f))" "cc_inv K dep m f s" "cc_inst dep m I s = Inr s'"
  shows "cc_inv K dep m f s'"
proof -
  have step: "cc_inst dep m I (fst s, snd s) = Inr (fst s', snd s')" using assms(3) by simp
  have "is_inst m I" using assms(1,2) by (simp add: cc_inv_def fn_ok_def)
  note law = cc_inst_law[OF step] cc_inst_law(4)[OF step assms(1) this, of K]
  have "snd s' \<subseteq> cc_public K dep m f" using law(5) assms(2) by (simp add: cc_inv_def)
  moreover have "fst s' \<subseteq> (getPointerOperand \<circ> ins m) ` set (insts (fn_of m f))"
    using law(3) assms(1,2) by (auto simp: cc_inv_def)
  moreover have "\<exists>pub0. cc_init K m f = Inr pub0 \<and> pub0 \<subseteq> snd s'"
    using law(1) assms(2) unfolding cc_inv_def by blast
  ultimately show ?thesis using assms(2) by (simp add: cc_inv_def)
qed

lemma cc_round_inv: "cc_inv K dep m f s \<Longrightarrow> cc_round dep m (fn_of m f) s = Inr s' \<Longrightarrow> cc_inv K dep m f s'"
  unfolding cc_round_def by (erule foldr_res_inv[where P = "cc_inv K dep m f"]) (auto intro: cc_inst_inv)

interpretation cc: growing_loop cc_key "cc_round dep m (fn_of m f)" "cc_inv K dep m f"
  "(getPointerOperand \<circ> ins m) ` set (insts (fn_of m f)) <+> {..vbound m}" for dep m f K
proof
  fix s s' assume "cc_inv K dep m f s" "cc_round dep m (fn_of m f) s = Inr s'"
  then show "cc_inv K dep m f s'" "cc_key s \<subseteq> cc_key s'"
    using cc_round_inv[of K dep m f s s']
      foldr_res_grows[where key = cc_key and f = "cc_inst dep m" and xs = "insts (fn_of m f)" and s = s and s' = s']
      cc_inst_grows by (auto simp: cc_round_def)
next
  fix s assume inv: "cc_inv K dep m f s"
  then have "snd s \<subseteq> {..vbound m}"
    using cc_public_bounded[of _ K dep m f] by (auto simp: cc_inv_def)
  with inv show "cc_key s \<subseteq> (getPointerOperand \<circ> ins m) ` set (insts (fn_of m f)) <+> {..vbound m}"
    by (auto simp: cc_inv_def cc_key_def)
qed simp

lemma filter_res_mem:
  assumes "filter_res p xs = Inr ys"
  shows "set ys = {x \<in> set xs. p x = Inr True}"
  using assms by (induction xs arbitrary: ys) (auto simp: bindr_eq_Inr split: if_splits)

lemma cc_init_set:
  assumes "cc_init K m f = Inr pub"
  shows "pub = {A \<in> set (fn_args (fn_of m f)). is_ptr m A} \<union>
      (\<lambda>I. opnd (ins m I) 0) ` {I \<in> set (insts (fn_of m f)). annotated_public K m I = Inr True} \<union>
      {v. annotatedPublicReturnValue K f = Inr True \<and> v \<in> set (cc_returns m (fn_of m f))}"
proof -
  from assms obtain IIs b where IIs: "filter_res (annotated_public K m) (insts (fn_of m f)) = Inr IIs"
    and b: "annotatedPublicReturnValue K f = Inr b"
    by (auto simp: cc_init_def Let_def bindr_eq_Inr)
  show ?thesis
    using assms by (cases b) (auto simp: cc_init_def Let_def IIs b filter_res_mem[OF IIs])
qed

lemma cc_init_sound: "cc_init K m f = Inr pub \<Longrightarrow> pub \<subseteq> cc_public K dep m f"
  using cc_init_set[of K m f pub] by (auto intro: cc_public.argument cc_public.annotated cc_public.returned)

lemma cc_stable_closed:
  assumes "cc_inv K dep m f s" "cc_round dep m (fn_of m f) s = Inr s"
  shows "cc_public K dep m f \<subseteq> snd s"
proof
  have fn: "fn_ok m (fn_of m f)" using assms(1) by (simp add: cc_inv_def)
  have c: "closed_at dep m I (snd s)" if "I \<in> set (insts (fn_of m f))" for I
  proof -
    have "\<exists>s1 s2. cc_inst dep m I s1 = Inr s2 \<and> cc_key s1 = cc_key s \<and> cc_key s2 = cc_key s"
      by (rule foldr_res_stable[where key = cc_key, OF assms(2)[unfolded cc_round_def] refl _ that]) (rule cc_inst_grows)
    then have "cc_inst dep m I s = Inr s" by (auto simp: cc_key_inject)
    then show ?thesis using cc_inst_closed[of dep m I "fst s" "snd s"] by simp
  qed
  obtain pub0 where i: "cc_init K m f = Inr pub0" "pub0 \<subseteq> snd s" using assms(1) by (auto simp: cc_inv_def)
  note init = cc_init_set[OF i(1)]
  fix v assume "v \<in> cc_public K dep m f"
  then show "v \<in> snd s"
  proof induction
    case (pointer I)
    with c[of I] show ?case by (auto simp: closed_at_def cc_own_def)
  next
    case (transmitted I ops v)
    with c[of I] have "snd s \<union> set (map snd (filter (\<lambda>(kind, v). kind = TRUE) ops)) = snd s"
      by (simp add: closed_at_def cc_transmit_def)
    with transmitted(3) show ?case by force
  next
    case (passed I v)
    with c[of I] have "cc_call m I (snd s) = snd s" by (simp add: closed_at_def)
    with passed show ?case by (auto simp: cc_call_def Let_def split: if_splits)
  next
    case (result I)
    with c[of I] show ?case by (auto simp: closed_at_def cc_call_def Let_def)
  next
    case (inputs I v)
    have ops: "operands (ins m I) \<noteq> []" "\<not> isa m I [Load]" using inputs(3,4) by (auto simp: isa_def)
    from c[OF inputs(1)] obtain mem where "cc_backward m I (mem, snd s) = Inr (mem, snd s)"
      by (auto simp: closed_at_def)
    then have "snd s \<union> set (operands (ins m I)) = snd s"
      using inputs(3,5) ops by (simp only: cc_backward_def) simp
    with inputs(4) show ?case by blast
  next
    case (arguments I k v)
    have I: "isa m I [Call]" using arguments(3) by (simp add: intrinsic_id_def split: if_splits)
    then have no: "\<not> isa m I [Load]" "\<not> isa m I (cc_all_inputs @ [GetElementPtr, Alloca])" by (auto simp: isa_def)
    have ops: "operands (ins m I) \<noteq> []" using arguments(5) by (auto simp: call_args_def)
    from c[OF arguments(1)] obtain mem where "cc_backward m I (mem, snd s) = Inr (mem, snd s)"
      by (auto simp: closed_at_def)
    then have "snd s \<union> set (call_args (ins m I)) = snd s"
      using arguments(3,4,6) ops no by (simp add: cc_backward_def)
    with arguments(5) show ?case by blast
  next
    case (annotation I)
    have I: "isa m I [Call]" using annotation(3) by (simp add: intrinsic_id_def split: if_splits)
    then have no: "\<not> isa m I [Load]" "\<not> isa m I (cc_all_inputs @ [GetElementPtr, Alloca])" by (auto simp: isa_def)
    from c[OF annotation(1)] obtain mem where "cc_backward m I (mem, snd s) = Inr (mem, snd s)"
      by (auto simp: closed_at_def)
    then have "insert (opnd (ins m I) 0) (snd s) = snd s"
      using annotation no by (simp add: cc_backward_def cc_passthrough_def)
    then show ?case by blast
  next
    case (computed I)
    have no: "\<not> isa m I [Load]" using computed(3) by (auto simp: isa_def)
    have "all_pub m (snd s) (operands (ins m I))" using computed(5) by (auto simp: all_pub_iff)
    with c[OF computed(1)] computed(2,3,4) no show ?case
      by (cases "I \<in> snd s") (auto simp: closed_at_def cc_forward_def)
  next
    case (intrinsic I k)
    have I: "isa m I [Call]" using intrinsic(3) by (simp add: intrinsic_id_def split: if_splits)
    then have no: "\<not> isa m I [Load]" "\<not> isa m I cc_all_inputs" by (auto simp: isa_def)
    have "all_pub m (snd s) (call_args (ins m I))" using intrinsic(6) by (auto simp: all_pub_iff)
    with c[OF intrinsic(1)] intrinsic(2-5) no show ?case
      by (cases "I \<in> snd s") (auto simp: closed_at_def cc_forward_def)
  next
    case (of_annotation I)
    have I: "isa m I [Call]" using of_annotation(3) by (simp add: intrinsic_id_def split: if_splits)
    then have no: "\<not> isa m I [Load]" "\<not> isa m I cc_all_inputs" by (auto simp: isa_def)
    have "is_pub m (snd s) (opnd (ins m I) 0)" using of_annotation(5) by (auto simp: is_pub_def)
    with c[OF of_annotation(1)] of_annotation(2-4) no show ?case
      by (cases "I \<in> snd s") (auto simp: closed_at_def cc_forward_def cc_passthrough_def)
  next
    case (loaded I S)
    have "is_pub m (snd s) (opnd (ins m S) 0)" using loaded(5) by (auto simp: is_pub_def)
    moreover from c[OF loaded(1)] have "cc_memory dep m I (snd s) = Inr (snd s)" by (simp add: closed_at_def)
    ultimately show ?case using loaded(2-4) cc_memory_law(1)
      by (auto simp: cc_memory_def Let_def split: if_splits)
  next
    case (stored I S)
    have "is_inst m I" using fn stored(1) by (simp add: fn_ok_def)
    moreover from c[OF stored(1)] have "cc_memory dep m I (snd s) = Inr (snd s)" by (simp add: closed_at_def)
    ultimately show ?case using stored(2-4,6)
      by (auto simp: cc_memory_def Let_def is_pub_in split: if_splits)
  qed (use i(2) init in auto)
qed

lemma cc_start: "fn_ok m (fn_of m f) \<Longrightarrow> dep_ok dep (fn_of m f) \<Longrightarrow> cc_init K m f = Inr pub \<Longrightarrow> cc_inv K dep m f ({}, pub)"
  using cc_init_sound[of K m f pub dep] by (simp add: cc_inv_def)

lemma cc_exact:
  assumes "fn_ok m (fn_of m f)" "dep_ok dep (fn_of m f)" "cc_values K dep m f = Some (Inr (mem, pub))"
  shows "pub = cc_public K dep m f"
proof -
  from assms(3) obtain pub0 where i: "cc_init K m f = Inr pub0"
    and u: "until_stable cc_key (cc_round dep m (fn_of m f)) ({}, pub0) = Some (Inr (mem, pub))"
    by (auto simp: cc_values_def bindo_eq_Inr)
  from cc.result[OF cc_start[OF assms(1,2) i] u] have s: "cc_inv K dep m f (mem, pub)"
    "cc_round dep m (fn_of m f) (mem, pub) = Inr (mem, pub)" by (auto simp: cc_key_inject)
  with cc_stable_closed[OF s] show ?thesis by (auto simp: cc_inv_def)
qed

lemma cc_returns_always:
  assumes "fn_ok m (fn_of m f)" "dep_ok dep (fn_of m f)"
  shows "\<exists>r. cc_values K dep m f = Some r"
proof (cases "cc_init K m f")
  case (Inr pub0)
  from cc.returns[OF cc_start[OF assms Inr]] Inr show ?thesis by (simp add: cc_values_def)
qed (simp add: cc_values_def)

end
