(* ===== verification/Search.thy ===== *)
theory Search
  imports IREdit
begin

text \<open>
  The worklist searches that may stop early: pop an instruction, skip it if it was seen, and then
  return it, leave the path, or push its successors. \<open>search_exact\<close> says what they decide.
\<close>

subsection \<open>Search\<close>

datatype visit = Found | Prune | Follow

lemma unseen_card: "u \<in> set U \<Longrightarrow> u \<notin> seen \<Longrightarrow> card (set U - insert u seen) < card (set U - seen)"
  by (rule psubset_card_mono) auto

function (sequential) search :: "error \<Rightarrow> 'n list \<Rightarrow> ('n \<Rightarrow> 'n list) \<Rightarrow> ('n \<Rightarrow> visit res) \<Rightarrow> 'n list \<Rightarrow> 'n set \<Rightarrow>
    'n option res" where
  "search e U nx act [] seen = Inr None"
| "search e U nx act (u # todo) seen =
     (if u \<notin> set U then Inl e
      else if u \<in> seen then search e U nx act todo seen
      else case act u of
          Inl e' \<Rightarrow> Inl e'
        | Inr Found \<Rightarrow> Inr (Some u)
        | Inr Prune \<Rightarrow> search e U nx act todo (insert u seen)
        | Inr Follow \<Rightarrow> search e U nx act (rev (nx u) @ todo) (insert u seen))"
  by pat_completeness auto
termination
  by (relation "measures [\<lambda>(e, U, nx, act, todo, seen). card (set U - seen),
        \<lambda>(e, U, nx, act, todo, seen). length todo]")
     (auto simp: unseen_card simp del: card_Diff_insert)

text \<open>The steps the search follows.\<close>

definition follows :: "('n \<Rightarrow> 'n list) \<Rightarrow> ('n \<Rightarrow> visit res) \<Rightarrow> ('n \<times> 'n) set" where
  "follows nx act = {(u, v). act u = Inr Follow \<and> v \<in> set (nx u)}"

text \<open>What has been seen is visited without a result, and its steps lead to what is seen or still to do.\<close>

definition searched :: "('n \<Rightarrow> 'n list) \<Rightarrow> ('n \<Rightarrow> visit res) \<Rightarrow> 'n list \<Rightarrow> 'n set \<Rightarrow> bool" where
  "searched nx act todo seen \<longleftrightarrow> (\<forall>u \<in> seen. act u \<in> {Inr Prune, Inr Follow} \<and>
     (act u = Inr Follow \<longrightarrow> set (nx u) \<subseteq> seen \<union> set todo))"

lemma search_found:
  assumes "search e U nx act todo seen = Inr (Some x)"
  shows "x \<in> set U \<and> act x = Inr Found \<and> (\<exists>u \<in> set todo. (u, x) \<in> (follows nx act)\<^sup>*)"
  using assms
proof (induction e U nx act todo seen rule: search.induct)
  case (2 e U nx act u todo seen)
  show ?case
  proof (cases "u \<in> set U \<and> u \<notin> seen \<and> act u = Inr Follow")
    case True
    with 2 have "x \<in> set U \<and> act x = Inr Found \<and> (\<exists>w \<in> set (rev (nx u) @ todo). (w, x) \<in> (follows nx act)\<^sup>*)"
      by (intro 2(3)) auto
    moreover have "(u, w) \<in> follows nx act" if "w \<in> set (nx u)" for w
      using that True by (simp add: follows_def)
    ultimately show ?thesis by (auto intro: converse_rtrancl_into_rtrancl)
  qed (use 2 in \<open>auto split: if_splits sum.splits visit.splits\<close>)
qed simp

lemma search_none:
  assumes "search e U nx act todo seen = Inr None" "searched nx act todo seen"
  shows "\<exists>S. seen \<union> set todo \<subseteq> S \<and> searched nx act [] S"
  using assms
proof (induction e U nx act todo seen rule: search.induct)
  case (1 e U nx act seen)
  then show ?case by auto
next
  case (2 e U nx act u todo seen)
  consider (old) "u \<in> set U" "u \<in> seen" | (prune) "u \<in> set U" "u \<notin> seen" "act u = Inr Prune"
    | (follow) "u \<in> set U" "u \<notin> seen" "act u = Inr Follow"
    using 2(4) by (auto split: if_splits sum.splits visit.splits)
  then show ?case
  proof cases
    case old
    with 2(4,5) have "\<exists>S. seen \<union> set todo \<subseteq> S \<and> searched nx act [] S"
      by (intro 2(1)) (auto simp: searched_def)
    with old show ?thesis by auto
  next
    case prune
    with 2(4,5) have "\<exists>S. insert u seen \<union> set todo \<subseteq> S \<and> searched nx act [] S"
      by (intro 2(2)) (auto simp: searched_def)
    then show ?thesis by auto
  next
    case follow
    with 2(4,5) have "\<exists>S. insert u seen \<union> set (rev (nx u) @ todo) \<subseteq> S \<and> searched nx act [] S"
      by (intro 2(3)) (auto simp: searched_def)
    then show ?thesis by auto
  qed
qed

lemma search_exact:
  assumes "search e U nx act [s] {} = Inr r"
  shows "r = None \<longleftrightarrow> (\<forall>x. (s, x) \<in> (follows nx act)\<^sup>* \<longrightarrow> act x \<noteq> Inr Found)"
    and "r = Some x \<Longrightarrow> x \<in> set U \<and> act x = Inr Found \<and> (s, x) \<in> (follows nx act)\<^sup>*"
proof -
  show some: "r = Some x \<Longrightarrow> x \<in> set U \<and> act x = Inr Found \<and> (s, x) \<in> (follows nx act)\<^sup>*" for x
    using search_found[of e U nx act "[s]" "{}" x] assms by auto
  show "r = None \<longleftrightarrow> (\<forall>x. (s, x) \<in> (follows nx act)\<^sup>* \<longrightarrow> act x \<noteq> Inr Found)"
  proof
    assume "r = None"
    with assms have "search e U nx act [s] {} = Inr None" by simp
    from search_none[OF this] obtain S where S: "s \<in> S" "searched nx act [] S" by (auto simp: searched_def)
    have "x \<in> S" if "(s, x) \<in> (follows nx act)\<^sup>*" for x
      by (rule rtrancl_closed[OF that S(1)]) (use S(2) in \<open>auto simp: follows_def searched_def\<close>)
    with S(2) show "\<forall>x. (s, x) \<in> (follows nx act)\<^sup>* \<longrightarrow> act x \<noteq> Inr Found" by (fastforce simp: searched_def)
  next
    assume "\<forall>x. (s, x) \<in> (follows nx act)\<^sup>* \<longrightarrow> act x \<noteq> Inr Found"
    with some show "r = None" by (cases r) auto
  qed
qed

end
