(* ===== verification/Rewrite.thy ===== *)
theory Rewrite
  imports IREdit
begin

text \<open>
  The edits of the passes that delete and replace instructions or create declarations, on top of the
  insertions of \<open>IREdit\<close>.
\<close>

subsection \<open>Deleting and replacing\<close>

text \<open>\<open>eraseFromParent\<close>; \<open>replaceAllUsesWith\<close> changes every operand of every instruction.\<close>

definition eraseFromParent :: "nat \<Rightarrow> nat \<Rightarrow> ir_module \<Rightarrow> ir_module" where
  "eraseFromParent f I m =
     update_blocks f (map (\<lambda>B. B\<lparr>bb_insts := filter (\<lambda>J. J \<noteq> I) (bb_insts B)\<rparr>)) (set_val I Undef m)"

definition subst_operands :: "nat \<Rightarrow> nat \<Rightarrow> vdesc \<Rightarrow> vdesc" where
  "subst_operands old new d = (case d of
      Inst i \<Rightarrow> Inst (i\<lparr>operands := map (\<lambda>v. if v = old then new else v) (operands i)\<rparr>)
    | ConstantExpr c vs t \<Rightarrow> ConstantExpr c (map (\<lambda>v. if v = old then new else v) vs) t
    | _ \<Rightarrow> d)"

definition replaceAllUsesWith :: "nat \<Rightarrow> nat \<Rightarrow> ir_module \<Rightarrow> ir_module" where
  "replaceAllUsesWith old new m = m\<lparr>vals := (\<lambda>v. subst_operands old new (vals m v))\<rparr>"

lemma insts_filter: "insts (F\<lparr>fn_blocks := map (\<lambda>B. B\<lparr>bb_insts := filter P (bb_insts B)\<rparr>) (fn_blocks F)\<rparr>) = filter P (insts F)"
  by (simp add: insts_def filter_concat comp_def)

lemma erase_law:
  assumes "I \<noteq> f"
  shows "insts (fn_of (eraseFromParent f I m) f) = filter (\<lambda>J. J \<noteq> I) (insts (fn_of m f))"
    and "v \<noteq> f \<Longrightarrow> v \<noteq> I \<Longrightarrow> vals (eraseFromParent f I m) v = vals m v"
    and "vals (eraseFromParent f I m) I = Undef" "\<not> is_inst (eraseFromParent f I m) f"
    and "fn_args (fn_of (eraseFromParent f I m) f) = fn_args (fn_of m f)"
  using assms by (simp_all add: eraseFromParent_def insts_filter fn_of_def is_inst_def update_blocks_def)

lemma erase_all:
  assumes "f \<notin> set Is" "\<not> is_inst m f"
  shows "insts (fn_of (fold (eraseFromParent f) Is m) f) = filter (\<lambda>J. J \<notin> set Is) (insts (fn_of m f)) \<and>
    (\<forall>v. v \<noteq> f \<and> v \<notin> set Is \<longrightarrow> vals (fold (eraseFromParent f) Is m) v = vals m v) \<and>
    \<not> is_inst (fold (eraseFromParent f) Is m) f"
  using assms
proof (induction Is arbitrary: m)
  case (Cons I Is)
  then have f: "I \<noteq> f" "f \<notin> set Is" by auto
  note e = erase_law[OF f(1)]
  from Cons.IH[OF f(2) e(4)] show ?case by (simp add: e(1,2) conj_ac)
qed simp

lemmas erase_all_law = erase_all[THEN conjunct1] erase_all[THEN conjunct2, THEN conjunct1, rule_format]
  erase_all[THEN conjunct2, THEN conjunct2]

text \<open>\<open>used m v\<close>: some instruction or constant expression has \<open>v\<close> as an operand.\<close>

fun uses_of :: "vdesc \<Rightarrow> nat set" where
  "uses_of (Inst i) = set (operands i)"
| "uses_of (ConstantExpr c vs t) = set vs"
| "uses_of _ = {}"

definition used :: "ir_module \<Rightarrow> nat \<Rightarrow> bool" where
  "used m v \<longleftrightarrow> (\<exists>u. v \<in> uses_of (vals m u))"

lemma uses_of_subst: "uses_of (subst_operands old new d) = (\<lambda>u. if u = old then new else u) ` uses_of d"
  by (cases d) (auto simp: subst_operands_def)

lemma subst_operands_kind:
  "(case subst_operands old new d of Inst i \<Rightarrow> True | _ \<Rightarrow> False) = (case d of Inst i \<Rightarrow> True | _ \<Rightarrow> False)"
  "opc (case subst_operands old new d of Inst i \<Rightarrow> i | _ \<Rightarrow> inst0) = opc (case d of Inst i \<Rightarrow> i | _ \<Rightarrow> inst0)"
  "(case subst_operands old new d of Function F \<Rightarrow> F | _ \<Rightarrow> func0) = (case d of Function F \<Rightarrow> F | _ \<Rightarrow> func0)"
  by (cases d; simp add: subst_operands_def)+

lemma vals_RAUW: "vals (replaceAllUsesWith old new m) v = subst_operands old new (vals m v)"
  by (simp add: replaceAllUsesWith_def)

lemma RAUW_law:
  shows "is_inst (replaceAllUsesWith old new m) v = is_inst m v"
    and "isa (replaceAllUsesWith old new m) v os = isa m v os"
    and "fn_of (replaceAllUsesWith old new m) f = fn_of m f"
    and "vbound (replaceAllUsesWith old new m) = vbound m"
  by (simp_all add: is_inst_def isa_def ins_def fn_of_def vals_RAUW subst_operands_kind)
    (simp add: replaceAllUsesWith_def)

lemma RAUW_operands:
  "is_inst m v \<Longrightarrow> operands (ins (replaceAllUsesWith old new m) v) = map (\<lambda>u. if u = old then new else u) (operands (ins m v))"
  by (cases "vals m v") (auto simp: vals_RAUW is_inst_def ins_def subst_operands_def)

lemma RAUW_used:
  "used (replaceAllUsesWith old new m) v \<longleftrightarrow> (v = new \<and> used m old) \<or> (v \<noteq> old \<and> used m v)"
  by (auto simp: used_def vals_RAUW uses_of_subst)

subsection \<open>Declarations\<close>

text \<open>\<open>Module::getOrInsertFunction\<close>: the function of a name, a new declaration when there is none.\<close>

definition getOrInsertFunction :: "string \<Rightarrow> ir_module \<Rightarrow> ir_module \<times> nat" where
  "getOrInsertFunction name m = (case find (\<lambda>f. fn_name (fn_of m f) = name) (fn_list m) of
      Some f \<Rightarrow> (m, f)
    | None \<Rightarrow> (case new_val (Function (func0\<lparr>fn_name := name\<rparr>)) m of
        (m', f) \<Rightarrow> (m'\<lparr>fn_list := fn_list m' @ [f]\<rparr>, f)))"

definition use_empty :: "ir_module \<Rightarrow> nat \<Rightarrow> bool" where
  "use_empty m v = list_all (\<lambda>u. v \<notin> uses_of (vals m u)) [0..<vbound m]"

lemma getOrInsertFunction_law:
  assumes "getOrInsertFunction name m = (m', g)"
  shows "v < vbound m \<Longrightarrow> vals m' v = vals m v" "vbound m \<le> vbound m'"
    "v \<noteq> g \<Longrightarrow> vals m' v = vals m v" "vals m' g = vals m g \<or> g = vbound m"
    "f < vbound m \<Longrightarrow> fn_of m' f = fn_of m f"
  using assms by (auto simp: getOrInsertFunction_def new_val_def fn_of_def split: option.splits)

lemma getOrInsertFunction_callee:
  assumes "getOrInsertFunction name m = (m', g)" "name \<noteq> []" "\<forall>h \<in> set (fn_list m). h < vbound m"
  shows "g < vbound m'" "\<exists>G. vals m' g = Function G" "\<forall>h \<in> set (fn_list m'). h < vbound m'"
proof -
  have "\<exists>G. vals m h = Function G" if "fn_name (fn_of m h) = name" for h
    using that assms(2) by (cases "vals m h") (auto simp: fn_of_def func0_def)
  with assms show "g < vbound m'" "\<exists>G. vals m' g = Function G" "\<forall>h \<in> set (fn_list m'). h < vbound m'"
    by (auto simp: getOrInsertFunction_def new_val_def find_Some_iff less_Suc_eq split: option.splits)
qed

end
