(* ===== verification/InlinePass.thy ===== *)
theory InlinePass
  imports MitigateSets Search Rewrite
begin

text \<open>
  \<open>src/InlinePass.cc\<close>: calls behind a store of a secret to a non-constant address are inlined, at
  most 100 per function, and mitigations of an earlier run are erased. \<open>llvm::InlineFunction\<close> is a
  parameter: the call and the module to the module after it, or \<open>None\<close> when it refuses. The
  analyses are those of the function before the pass, as in the code.
\<close>

subsection \<open>Which call to inline\<close>

definition secret_nca_store :: "ir_module \<Rightarrow> analyses \<Rightarrow> nat \<Rightarrow> bool res" where
  "secret_nca_store m an SI = (let V = opnd (ins m SI) 0 in
     and_res (not_res (CAA m an (getPointerOperand (ins m SI))))
       (or_res (Inr (NST_secret m an V)) (ST_secret m an V)))"

definition compute_nca_stores :: "ir_module \<Rightarrow> analyses \<Rightarrow> func \<Rightarrow> nat list res" where
  "compute_nca_stores m an F =
     bindr (filter_res (secret_nca_store m an) (insts_of m F [Store])) (\<lambda>Ss. Inr (os_of Ss))"

definition benefit_visit :: "ir_module \<Rightarrow> analyses \<Rightarrow> nat \<Rightarrow> visit res" where
  "benefit_visit m an I =
     (if isa m I [Ret] then Inr Found
      else bindr (and_res (Inr (LA_mayLeak an I)) (or_res (Inr (NST_secret m an I)) (ST_secret m an I))) (\<lambda>b.
        if b then Inr Prune
        else if isa m I CallBase then bindr (mayLowerToFunctionCall m I) (\<lambda>low. Inr (if low then Prune else Follow))
        else Inr Follow))"

definition calleeWouldBenefitFromInlining :: "ir_module \<Rightarrow> analyses \<Rightarrow> func \<Rightarrow> bool res" where
  "calleeWouldBenefitFromInlining m an F =
     bindr (compute_nca_stores m an F) (\<lambda>Ss.
     bindr (search Bad_pointer (insts F) (successors_inst m F) (benefit_visit m an) (rev Ss) {}) (\<lambda>r.
     Inr (r \<noteq> None)))"

definition store_visit :: "ir_module \<Rightarrow> analyses \<Rightarrow> nat set \<Rightarrow> nat \<Rightarrow> visit res" where
  "store_visit m an skip I =
     bindr (if isa m I CallBase then mayLowerToFunctionCall m I else Inr False) (\<lambda>low.
     if low then
       bindr (getCalledFunction m I) (\<lambda>CalledF. case CalledF of
           None \<Rightarrow> Inr Prune
         | Some g \<Rightarrow> Inr (if isDeclaration (fn_of m g) then Prune else if I \<in> skip then Prune else Found))
     else if isa m I [Load] then
       bindr (and_res (not_res (ST_secret m an I)) (Inr (LA_mayLeak an I))) (\<lambda>b. Inr (if b then Prune else Follow))
     else Inr Follow)"

definition handleSecretStore :: "ir_module \<Rightarrow> analyses \<Rightarrow> func \<Rightarrow> nat set \<Rightarrow> nat \<Rightarrow> nat option res" where
  "handleSecretStore m an F skip SI =
     search Bad_pointer (insts F) (successors_inst m F) (store_visit m an skip) [SI] {}"

text \<open>A loop over a container that returns at the first hit.\<close>

fun first_res :: "('a \<Rightarrow> 'b option res) \<Rightarrow> 'a list \<Rightarrow> 'b option res" where
  "first_res p [] = Inr None"
| "first_res p (x # xs) = bindr (p x) (\<lambda>r. case r of Some y \<Rightarrow> Inr (Some y) | None \<Rightarrow> first_res p xs)"

definition store_call :: "ir_module \<Rightarrow> analyses \<Rightarrow> func \<Rightarrow> nat set \<Rightarrow> nat \<Rightarrow> nat option res" where
  "store_call m an F skip I =
     (if isa m I [Store] then
        bindr (secret_nca_store m an I) (\<lambda>b. if b then handleSecretStore m an F skip I else Inr None)
      else Inr None)"

text \<open>The second loop asks \<open>calleeWouldBenefitFromInlining\<close> but never uses the answer (\<open>&& false\<close>).\<close>

definition benefit_call :: "ir_module \<Rightarrow> analyses \<Rightarrow> nat set \<Rightarrow> nat \<Rightarrow> nat option res" where
  "benefit_call m an skip C =
     (if C \<in> skip then Inr None
      else bindr (getCalledFunction m C) (\<lambda>CalledF. case CalledF of
          None \<Rightarrow> Inr None
        | Some g \<Rightarrow> if isDeclaration (fn_of m g) then Inr None
            else bindr (calleeWouldBenefitFromInlining m an (fn_of m g)) (\<lambda>b.
              Inr (if b \<and> False then Some C else None))))"

definition getCallToInline :: "ir_module \<Rightarrow> analyses \<Rightarrow> func \<Rightarrow> nat set \<Rightarrow> nat option res" where
  "getCallToInline m an F skip =
     bindr (first_res (store_call m an F skip) (insts F)) (\<lambda>r. case r of
         Some CB \<Rightarrow> Inr (Some CB)
       | None \<Rightarrow> first_res (benefit_call m an skip) (insts_of m F CallBase))"

subsection \<open>The pass\<close>

definition inline_limit :: nat where
  "inline_limit = 100"

type_synonym inliner = "nat \<Rightarrow> ir_module \<Rightarrow> ir_module option"

record inlining =
  im :: ir_module
  iskip :: "nat set"
  inline_counts :: "nat \<Rightarrow> nat"
  changed :: bool

definition skip_call :: "nat \<Rightarrow> inlining \<Rightarrow> inlining" where
  "skip_call CB s = s\<lparr>iskip := insert CB (iskip s)\<rparr>"

definition inline_call :: "inliner \<Rightarrow> nat \<Rightarrow> nat \<Rightarrow> inlining \<Rightarrow> inlining res" where
  "inline_call InlineFunction f CB s =
     bindr (getCalledFunction (im s) CB) (\<lambda>CalledF. Inr (case CalledF of
         None \<Rightarrow> skip_call CB s
       | Some g \<Rightarrow> if isDeclaration (fn_of (im s) g) \<or> g = f then skip_call CB s
           else (case InlineFunction CB (im s) of
               None \<Rightarrow> skip_call CB s
             | Some m' \<Rightarrow> s\<lparr>im := m', changed := True,
                 inline_counts := (inline_counts s)
                   (f := (inline_counts s f + (inline_counts s g + 1)) mod 2 ^ 32)\<rparr>)))"

partial_function (option) inline_loop :: "inliner \<Rightarrow> analyses \<Rightarrow> nat \<Rightarrow> inlining \<Rightarrow> inlining run" where
  "inline_loop InlineFunction an f s =
     bindo (Some (getCallToInline (im s) an (fn_of (im s) f) (iskip s))) (\<lambda>call. case call of
         None \<Rightarrow> Some (Inr s)
       | Some CB \<Rightarrow>
           if inline_counts s f \<ge> inline_limit then Some (Inr s)
           else bindo (Some (assertr (CB \<notin> iskip s) (inline_call InlineFunction f CB s)))
             (inline_loop InlineFunction an f))"

declare inline_loop.simps [code]

definition erase_mitigations :: "nat \<Rightarrow> ir_module \<Rightarrow> ir_module \<times> bool" where
  "erase_mitigations f m = (let mitigations = filter (is_MitigationInst m) (insts (fn_of m f)) in
     (fold (eraseFromParent f) mitigations m, mitigations \<noteq> []))"

definition inline_runOnFunction :: "inliner \<Rightarrow> analyses \<Rightarrow> nat \<Rightarrow> (nat \<Rightarrow> nat) \<Rightarrow> ir_module \<Rightarrow> inlining run" where
  "inline_runOnFunction InlineFunction an f counts m =
     bindo (inline_loop InlineFunction an f \<lparr>im = m, iskip = {}, inline_counts = counts, changed = False\<rparr>) (\<lambda>s.
     case erase_mitigations f (im s) of (m', erased) \<Rightarrow>
       Some (assertr (\<forall>I \<in> set (insts (fn_of m' f)). intrinsic_id m' I \<noteq> Some (x86 sse2_lfence))
         (Inr (s\<lparr>im := m', changed := (changed s \<or> erased)\<rparr>))))"

subsection \<open>The search\<close>

lemma handleSecretStore_exact:
  assumes "handleSecretStore m an F skip SI = Inr r"
  shows "r = None \<longleftrightarrow> (\<forall>C. (SI, C) \<in> (follows (successors_inst m F) (store_visit m an skip))\<^sup>* \<longrightarrow>
      store_visit m an skip C \<noteq> Inr Found)"
    and "r = Some C \<Longrightarrow> C \<in> set (insts F) \<and> store_visit m an skip C = Inr Found \<and>
      (SI, C) \<in> (follows (successors_inst m F) (store_visit m an skip))\<^sup>*"
  using search_exact[OF assms[unfolded handleSecretStore_def]] by auto

lemma store_visit_found: "store_visit m an skip C = Inr Found \<longleftrightarrow>
    isa m C CallBase \<and> mayLowerToFunctionCall m C = Inr True \<and> C \<notin> skip \<and>
    (\<exists>g. getCalledFunction m C = Inr (Some g) \<and> \<not> isDeclaration (fn_of m g))"
  by (auto simp: store_visit_def bindr_eq_Inr split: if_splits option.splits)

lemma first_res_some: "first_res p xs = Inr (Some y) \<Longrightarrow> \<exists>x \<in> set xs. p x = Inr (Some y)"
  by (induction xs) (auto simp: bindr_eq_Inr split: option.splits)

lemma getCallToInline_some:
  assumes "getCallToInline m an F skip = Inr (Some CB)"
  shows "CB \<in> set (insts F) \<and> store_visit m an skip CB = Inr Found"
proof -
  have "first_res (benefit_call m an skip) xs \<noteq> Inr (Some CB)" for xs
    by (auto dest!: first_res_some simp: benefit_call_def bindr_eq_Inr split: if_splits option.splits)
  with assms have "first_res (store_call m an F skip) (insts F) = Inr (Some CB)"
    by (auto simp: getCallToInline_def bindr_eq_Inr split: option.splits)
  from first_res_some[OF this] obtain I where "handleSecretStore m an F skip I = Inr (Some CB)"
    by (auto simp: store_call_def bindr_eq_Inr split: if_splits)
  from handleSecretStore_exact(2)[OF this] show ?thesis by blast
qed


subsection \<open>The loop\<close>

definition inlined :: "inliner \<Rightarrow> (ir_module \<times> ir_module) set" where
  "inlined InlineFunction = {(m, m'). \<exists>CB. InlineFunction CB m = Some m'}"

lemma inline_call_cases:
  assumes "inline_call InlineFunction f CB s = Inr s'"
  shows "s' = skip_call CB s \<or> (\<exists>m' g. g \<noteq> f \<and> InlineFunction CB (im s) = Some m' \<and> im s' = m' \<and> iskip s' = iskip s \<and>
    inline_counts s' = (inline_counts s)(f := (inline_counts s f + (inline_counts s g + 1)) mod 2 ^ 32))"
proof -
  from assms obtain cf where cf: "getCalledFunction (im s) CB = Inr cf"
    by (cases "getCalledFunction (im s) CB") (auto simp: inline_call_def)
  show ?thesis
  proof (cases cf)
    case None
    with assms cf show ?thesis by (simp add: inline_call_def)
  next
    case g: (Some g)
    show ?thesis
    proof (cases "isDeclaration (fn_of (im s) g) \<or> g = f \<or> InlineFunction CB (im s) = None")
      case True
      with assms cf g show ?thesis by (auto simp: inline_call_def)
    next
      case False
      then obtain m' where m': "InlineFunction CB (im s) = Some m'" by auto
      with assms cf g False have "s' = s\<lparr>im := m', changed := True, inline_counts := (inline_counts s)
          (f := (inline_counts s f + (inline_counts s g + 1)) mod 2 ^ 32)\<rparr>"
        by (simp add: inline_call_def)
      with m' False show ?thesis by (intro disjI2 exI[of _ m'] exI[of _ g]) simp
    qed
  qed
qed

text \<open>Every step either uses up one of the 100 or skips one more call of the function.\<close>

definition inline_order :: "nat \<Rightarrow> (inlining \<times> inlining) set" where
  "inline_order f = measures [\<lambda>s. inline_limit - inline_counts s f, \<lambda>s. card (set (insts (fn_of (im s) f)) - iskip s)]"

lemma wf_inline_order: "wf (inline_order f)"
  by (simp add: inline_order_def)

definition counts_ok :: "nat \<Rightarrow> inlining \<Rightarrow> bool" where
  "counts_ok f s \<longleftrightarrow> (\<forall>g. g \<noteq> f \<longrightarrow> inline_counts s g + inline_limit < 2 ^ 32)"

lemma counted:
  assumes "counts_ok f s" "g \<noteq> f" "inline_counts s f < inline_limit"
  shows "(inline_counts s f + (inline_counts s g + 1)) mod 2 ^ 32 = inline_counts s f + inline_counts s g + 1"
proof -
  have "inline_counts s f + (inline_counts s g + 1) < 2 ^ 32" using assms unfolding counts_ok_def by fastforce
  then have "(inline_counts s f + (inline_counts s g + 1)) mod 2 ^ 32 = inline_counts s f + (inline_counts s g + 1)"
    by (rule mod_less)
  then show ?thesis by simp
qed

lemma inline_call_step:
  assumes "getCallToInline (im s) an (fn_of (im s) f) (iskip s) = Inr (Some CB)" "counts_ok f s"
    "inline_counts s f < inline_limit" "inline_call InlineFunction f CB s = Inr s'"
  shows "(s', s) \<in> inline_order f" "counts_ok f s'"
    "im s' = im s \<and> inline_counts s' f = inline_counts s f \<or>
     (im s, im s') \<in> inlined InlineFunction \<and> inline_counts s f < inline_counts s' f"
proof -
  have CB: "CB \<in> set (insts (fn_of (im s) f))" "CB \<notin> iskip s"
    using getCallToInline_some[OF assms(1)] by (auto simp: store_visit_found)
  consider (skip) "s' = skip_call CB s" | (inl) m' g where "g \<noteq> f" "InlineFunction CB (im s) = Some m'" "im s' = m'"
      "inline_counts s' = (inline_counts s)(f := (inline_counts s f + (inline_counts s g + 1)) mod 2 ^ 32)"
    using inline_call_cases[OF assms(4)] by blast
  then have "(s', s) \<in> inline_order f \<and> counts_ok f s' \<and>
    (im s' = im s \<and> inline_counts s' f = inline_counts s f \<or>
     (im s, im s') \<in> inlined InlineFunction \<and> inline_counts s f < inline_counts s' f)"
  proof cases
    case skip
    with CB assms(2) unseen_card[OF CB] show ?thesis
      by (simp add: inline_order_def skip_call_def counts_ok_def)
  next
    case inl
    have c: "inline_counts s' f = inline_counts s f + inline_counts s g + 1"
      using inl(4) counted[OF assms(2) inl(1) assms(3)] by simp
    have "counts_ok f s'" using assms(2) inl(4) by (simp add: counts_ok_def)
    moreover have "inline_limit - inline_counts s' f < inline_limit - inline_counts s f" using c assms(3) by linarith
    then have "(s', s) \<in> inline_order f" by (simp add: inline_order_def)
    moreover have "(im s, im s') \<in> inlined InlineFunction" using inl(2,3) by (auto simp: inlined_def)
    ultimately show ?thesis using c by simp
  qed
  then show "(s', s) \<in> inline_order f" "counts_ok f s'"
    "im s' = im s \<and> inline_counts s' f = inline_counts s f \<or>
     (im s, im s') \<in> inlined InlineFunction \<and> inline_counts s f < inline_counts s' f" by auto
qed

lemma inline_loop_law:
  assumes "counts_ok f s"
  shows "\<exists>r. inline_loop InlineFunction an f s = Some r \<and> (\<forall>s'. r = Inr s' \<longrightarrow>
    (\<exists>n. (im s, im s') \<in> inlined InlineFunction ^^ n \<and> n \<le> inline_limit - inline_counts s f))"
  using assms
proof (induction s rule: wf_induct_rule[OF wf_inline_order[of f]])
  case (1 s)
  let ?call = "getCallToInline (im s) an (fn_of (im s) f) (iskip s)"
  note step = inline_loop.simps[of InlineFunction an f s]
  consider (stop) "\<exists>e. ?call = Inl e" | (rest) "?call = Inr None" | (CB) CB where "?call = Inr (Some CB)"
    by (cases ?call) (auto split: option.splits)
  then show ?case
  proof cases
    case stop then show ?thesis using step by auto
  next
    case rest then show ?thesis using step by (auto intro!: exI[of _ 0])
  next
    case (CB CB)
    have fresh: "CB \<notin> iskip s" using getCallToInline_some[OF CB] by (simp add: store_visit_found)
    show ?thesis
    proof (cases "inline_counts s f \<ge> inline_limit")
      case True
      with CB show ?thesis using step by (auto intro!: exI[of _ 0])
    next
      case False
      show ?thesis
      proof (cases "inline_call InlineFunction f CB s")
        case (Inl e)
        with CB False fresh show ?thesis using step by simp
      next
        case (Inr s1)
        from False have lt: "inline_counts s f < inline_limit" by simp
        note law = inline_call_step[OF CB 1(2) lt Inr]
        from 1(1)[OF law(1,2)] obtain r where r: "inline_loop InlineFunction an f s1 = Some r"
          and bound: "\<forall>s'. r = Inr s' \<longrightarrow> (\<exists>n. (im s1, im s') \<in> inlined InlineFunction ^^ n \<and> n \<le> inline_limit - inline_counts s1 f)"
          by blast
        have "\<exists>n. (im s, im s') \<in> inlined InlineFunction ^^ n \<and> n \<le> inline_limit - inline_counts s f" if "r = Inr s'" for s'
        proof -
          from bound that obtain n where n: "(im s1, im s') \<in> inlined InlineFunction ^^ n" "n \<le> inline_limit - inline_counts s1 f"
            by blast
          from law(3) show ?thesis
          proof
            assume "im s1 = im s \<and> inline_counts s1 f = inline_counts s f"
            with n show ?thesis by auto
          next
            assume more: "(im s, im s1) \<in> inlined InlineFunction \<and> inline_counts s f < inline_counts s1 f"
            with n(1) have "(im s, im s') \<in> inlined InlineFunction ^^ Suc n" by (blast intro: relpow_Suc_I2)
            moreover have "Suc n \<le> inline_limit - inline_counts s f" using more n(2) lt by linarith
            ultimately show ?thesis by blast
          qed
        qed
        with r CB False fresh Inr show ?thesis using step by auto
      qed
    qed
  qed
qed

text \<open>The mitigations are erased, so the assertion at the end holds.\<close>

lemma erase_mitigations_law:
  assumes "\<not> is_inst m f" "erase_mitigations f m = (m', erased)"
  shows "\<forall>I \<in> set (insts (fn_of m' f)). \<not> is_MitigationInst m' I"
    and "insts (fn_of m' f) = filter (\<lambda>I. \<not> is_MitigationInst m I) (insts (fn_of m f))"
    and "erased \<longleftrightarrow> (\<exists>I \<in> set (insts (fn_of m f)). is_MitigationInst m I)"
proof -
  let ?Is = "filter (is_MitigationInst m) (insts (fn_of m f))"
  have m': "m' = fold (eraseFromParent f) ?Is m" and e: "erased \<longleftrightarrow> ?Is \<noteq> []"
    using assms(2) by (auto simp: erase_mitigations_def Let_def)
  have f: "f \<notin> set ?Is" using assms(1) by (auto simp: is_MitigationInst_def intrinsic_id_def isa_def split: if_splits)
  note law = erase_all_law[OF f assms(1)]
  show eq: "insts (fn_of m' f) = filter (\<lambda>I. \<not> is_MitigationInst m I) (insts (fn_of m f))"
    unfolding m' law(1) by (rule filter_cong) auto
  show "erased \<longleftrightarrow> (\<exists>I \<in> set (insts (fn_of m f)). is_MitigationInst m I)"
    using e by (auto simp: filter_empty_conv)
  show "\<forall>I \<in> set (insts (fn_of m' f)). \<not> is_MitigationInst m' I"
  proof
    fix I assume I: "I \<in> set (insts (fn_of m' f))"
    show "\<not> is_MitigationInst m' I"
    proof (cases "I = f")
      case True
      then show ?thesis using law(3) by (simp add: m' is_MitigationInst_def intrinsic_id_def isa_def)
    next
      case False
      from I eq have "\<not> is_MitigationInst m I" by simp
      with False I eq have "vals m' I = vals m I" using law(2)[of I] by (auto simp: m')
      then have "ins m' I = ins m I" "is_inst m' I = is_inst m I" by (simp_all add: is_inst_def ins_def)
      then have "is_MitigationInst m' I = is_MitigationInst m I" by (simp add: is_MitigationInst_def intrinsic_id_def isa_def)
      with \<open>\<not> is_MitigationInst m I\<close> show ?thesis by simp
    qed
  qed
qed

lemma inlined_keeps:
  assumes "(m, m') \<in> inlined InlineFunction ^^ n" "\<not> is_inst m f"
    "\<And>CB m m'. InlineFunction CB m = Some m' \<Longrightarrow> \<not> is_inst m f \<Longrightarrow> \<not> is_inst m' f"
  shows "\<not> is_inst m' f"
  using assms(1)
proof (induction n arbitrary: m')
  case (Suc n)
  then obtain m1 where m1: "(m, m1) \<in> inlined InlineFunction ^^ n" "(m1, m') \<in> inlined InlineFunction" by auto
  with Suc.IH[OF m1(1)] assms(3) show ?case by (auto simp: inlined_def)
qed (use assms(2) in simp)

end
