(* ===== verification/FramePromotion.thy ===== *)
theory FramePromotion
  imports Rewrite NonspeculativeTaint
begin

text \<open>
  \<open>src/FramePromotion.cc\<close>: in a function that does not recurse, every static alloca becomes a global
  variable. \<open>align\<close> is the alignment of an alloca. The global variables the pass creates are a list
  of records; their values are addresses of the module.
\<close>

subsection \<open>The pass\<close>

record gvar =
  gv_value :: nat
  gv_ty :: ty
  gv_linkage :: linkage
  gv_align :: nat
  gv_dso_local :: bool

definition isStaticAlloca :: "ir_module \<Rightarrow> func \<Rightarrow> nat \<Rightarrow> bool" where
  "isStaticAlloca m F AI \<longleftrightarrow> isa m AI [Alloca] \<and>
     (case vals m (opnd (ins m AI) 0) of ConstantInt _ _ \<Rightarrow> True | _ \<Rightarrow> False) \<and>
     (case fn_blocks F of B # _ \<Rightarrow> AI \<in> set (bb_insts B) | [] \<Rightarrow> False)"

record promotion =
  pm :: ir_module
  globals :: "gvar list"
  fp_changed :: bool

definition promote :: "(nat \<Rightarrow> nat) \<Rightarrow> nat \<Rightarrow> nat \<Rightarrow> promotion \<Rightarrow> promotion" where
  "promote align f AI s =
     (if isStaticAlloca (pm s) (fn_of (pm s) f) AI then
        (case new_val GlobalVariable (pm s) of (m1, GV) \<Rightarrow>
          \<lparr>pm = eraseFromParent f AI (replaceAllUsesWith AI GV m1),
           globals = globals s @ [\<lparr>gv_value = GV, gv_ty = alloc_ty (ins (pm s) AI), gv_linkage = InternalLinkage,
             gv_align = align AI, gv_dso_local = True\<rparr>],
           fp_changed = True\<rparr>)
      else s)"

definition fp_runOnFunction :: "(nat \<Rightarrow> nat) \<Rightarrow> nat \<Rightarrow> promotion \<Rightarrow> promotion res" where
  "fp_runOnFunction align f s =
     bindr (doesNotRecurse (pm s) f) (\<lambda>b.
     if \<not> b then Inr s
     else let m = pm s; F = fn_of m f;
              worklist = filter (isStaticAlloca m F) (insts_of m F [Alloca])
          in Inr (fold (promote align f) worklist s))"

definition fp_runOnModule :: "(nat \<Rightarrow> nat) \<Rightarrow> ir_module \<Rightarrow> promotion res" where
  "fp_runOnModule align m =
     foldr_res (\<lambda>f s. if \<not> isDeclaration (fn_of (pm s) f) then fp_runOnFunction align f s else Inr s)
       (fn_list m) \<lparr>pm = m, globals = [], fp_changed = False\<rparr>"

subsection \<open>What is left of an alloca\<close>

text \<open>The function under promotion: its instructions and their operands are below the next address.\<close>

definition fp_ok :: "ir_module \<Rightarrow> nat \<Rightarrow> bool" where
  "fp_ok m f \<longleftrightarrow> f < vbound m \<and> \<not> is_inst m f \<and> (\<forall>I \<in> set (insts (fn_of m f)). is_inst m I \<and> I < vbound m \<and>
     (\<forall>v \<in> set (operands (ins m I)). v < vbound m))"

lemma promote_law:
  assumes ok: "fp_ok (pm s) f" and AI: "isStaticAlloca (pm s) (fn_of (pm s) f) AI" "AI \<in> set (insts (fn_of (pm s) f))"
  shows "fp_ok (pm (promote align f AI s)) f"
    and "insts (fn_of (pm (promote align f AI s)) f) = filter (\<lambda>J. J \<noteq> AI) (insts (fn_of (pm s) f))"
    and "\<not> used (pm (promote align f AI s)) AI"
    and "v < vbound (pm s) \<Longrightarrow> \<not> used (pm s) v \<Longrightarrow> \<not> used (pm (promote align f AI s)) v"
    and "vbound (pm s) \<le> vbound (pm (promote align f AI s))" "fp_changed (promote align f AI s)"
    and "J \<noteq> AI \<Longrightarrow> J \<in> set (insts (fn_of (pm s) f)) \<Longrightarrow>
      isStaticAlloca (pm (promote align f AI s)) (fn_of (pm (promote align f AI s)) f) J = isStaticAlloca (pm s) (fn_of (pm s) f) J"
proof -
  let ?m = "pm s" and ?F = "fn_of (pm s) f" and ?GV = "vbound (pm s)"
  define m1 where "m1 = ?m\<lparr>vals := (vals ?m)(?GV := GlobalVariable), vbound := Suc ?GV\<rparr>"
  define m2 where "m2 = replaceAllUsesWith AI ?GV m1"
  define m3 where "m3 = eraseFromParent f AI m2"
  have pm: "pm (promote align f AI s) = m3" and ch: "fp_changed (promote align f AI s)"
    using AI(1) by (simp_all add: promote_def new_val_def m1_def m2_def m3_def)
  have in_lt: "J < ?GV" "is_inst ?m J" if "J \<in> set (insts ?F)" for J using ok that by (auto simp: fp_ok_def)
  have f: "f < ?GV" "\<not> is_inst ?m f" using ok by (auto simp: fp_ok_def)
  have AIf: "AI \<noteq> f" "AI \<noteq> ?GV" using in_lt[OF AI(2)] f by auto
  have v1: "vals m1 v = (if v = ?GV then GlobalVariable else vals ?m v)" for v by (simp add: m1_def)
  have "fn_of m2 f = fn_of m1 f" unfolding m2_def by (rule RAUW_law)
  also have "\<dots> = ?F" using f by (simp add: fn_of_def v1)
  finally have fn2: "fn_of m2 f = ?F" .
  note e = erase_law[OF AIf(1)]
  have ins3: "insts (fn_of m3 f) = filter (\<lambda>J. J \<noteq> AI) (insts ?F)" unfolding m3_def e(1) fn2 ..
  have vb: "vbound m3 = Suc ?GV" by (simp add: m3_def eraseFromParent_def m2_def RAUW_law m1_def)
  have blocks3: "fn_blocks (fn_of m3 f) = map (\<lambda>B. B\<lparr>bb_insts := filter (\<lambda>J. J \<noteq> AI) (bb_insts B)\<rparr>) (fn_blocks ?F)"
  proof -
    have "fn_of (set_val AI Undef m2) f = ?F" using fn2 AIf(1) by (simp add: fn_of_def)
    then show ?thesis by (simp add: m3_def eraseFromParent_def)
  qed
  have v3: "vals m3 v = (if v = f then Function (fn_of m3 f) else if v = AI then Undef else subst_operands AI ?GV (vals m1 v))" for v
  proof (cases "v = f")
    case True
    then show ?thesis using AIf(1) by (simp add: m3_def eraseFromParent_def fn_of_def)
  next
    case False
    then show ?thesis using e(2)[of v m2] e(3)[of m2] by (simp add: m3_def m2_def vals_RAUW)
  qed
  have old: "is_inst m3 J = is_inst ?m J \<and> opc (ins m3 J) = opc (ins ?m J) \<and>
      operands (ins m3 J) = map (\<lambda>u. if u = AI then ?GV else u) (operands (ins ?m J))"
    if J: "J \<in> set (insts ?F)" "J \<noteq> AI" for J
  proof -
    have "J \<noteq> f" "J \<noteq> ?GV" using in_lt[OF J(1)] f by auto
    then have "vals m3 J = subst_operands AI ?GV (vals ?m J)" using J(2) by (simp add: v3 v1)
    then show ?thesis using in_lt(2)[OF J(1)]
      by (cases "vals ?m J") (auto simp: is_inst_def ins_def subst_operands_def)
  qed
  show "fp_ok (pm (promote align f AI s)) f"
    unfolding pm fp_ok_def vb ins3
  proof (intro conjI ballI)
    show "f < Suc ?GV" using f by simp
    show "\<not> is_inst m3 f" using e(4) by (simp add: m3_def)
    fix J assume "J \<in> set (filter (\<lambda>J. J \<noteq> AI) (insts ?F))"
    then have J: "J \<in> set (insts ?F)" "J \<noteq> AI" by auto
    show "is_inst m3 J" "J < Suc ?GV" using old[OF J] in_lt[OF J(1)] by auto
    fix v assume "v \<in> set (operands (ins m3 J))"
    with old[OF J] ok J(1) show "v < Suc ?GV" by (auto simp: fp_ok_def less_Suc_eq split: if_splits)
  qed
  show "insts (fn_of (pm (promote align f AI s)) f) = filter (\<lambda>J. J \<noteq> AI) (insts (fn_of (pm s) f))"
    unfolding pm by (rule ins3)
  have used3: "used m3 v \<Longrightarrow> used m2 v" for v
  proof -
    assume "used m3 v"
    then obtain u where u: "v \<in> uses_of (vals m3 u)" by (auto simp: used_def)
    then have "u \<noteq> f" "u \<noteq> AI" by (auto simp: v3 split: if_splits)
    with u show "used m2 v" by (auto simp: used_def v3 m2_def vals_RAUW)
  qed
  show "\<not> used (pm (promote align f AI s)) AI"
    unfolding pm using used3[of AI] AIf(2) by (auto simp: m2_def RAUW_used)
  show "\<not> used (pm (promote align f AI s)) v" if "v < vbound (pm s)" "\<not> used (pm s) v"
  proof -
    have "\<not> used m1 v" using that(2) by (auto simp: used_def v1)
    with that(1) show ?thesis unfolding pm using used3[of v] by (auto simp: m2_def RAUW_used)
  qed
  show "vbound (pm s) \<le> vbound (pm (promote align f AI s))" "fp_changed (promote align f AI s)"
    using vb ch by (simp_all add: pm)
  show "isStaticAlloca (pm (promote align f AI s)) (fn_of (pm (promote align f AI s)) f) J = isStaticAlloca (pm s) (fn_of (pm s) f) J"
    if J: "J \<noteq> AI" "J \<in> set (insts (fn_of (pm s) f))"
  proof -
    note o = old[OF J(2,1)]
    have isa: "isa m3 J [Alloca] = isa ?m J [Alloca]" using o by (simp add: isa_def)
    have blk: "(case fn_blocks (fn_of m3 f) of B # _ \<Rightarrow> J \<in> set (bb_insts B) | [] \<Rightarrow> False) =
        (case fn_blocks ?F of B # _ \<Rightarrow> J \<in> set (bb_insts B) | [] \<Rightarrow> False)"
      using J(1) by (cases "fn_blocks ?F") (simp_all add: blocks3)
    let ?sz = "opnd (ins ?m J) 0"
    have sz: "(case vals m3 (opnd (ins m3 J) 0) of ConstantInt _ _ \<Rightarrow> True | _ \<Rightarrow> False) =
        (case vals ?m ?sz of ConstantInt _ _ \<Rightarrow> True | _ \<Rightarrow> False)"
    proof -
      have fF: "vals ?m f = Function ?F" using J(2) by (cases "vals ?m f") (auto simp: fn_of_def insts_def func0_def)
      have lt: "?sz < ?GV" using ok J(2) f(1) opnd_in[of "ins ?m J" 0] by (auto simp: fp_ok_def null_def)
      have "opnd (ins m3 J) 0 = ?sz \<or> ?sz = AI \<and> opnd (ins m3 J) 0 = ?GV"
        using o by (cases "operands (ins ?m J)") (auto simp: opnd_def)
      moreover have "(case vals m3 ?sz of ConstantInt _ _ \<Rightarrow> True | _ \<Rightarrow> False) = (case vals ?m ?sz of ConstantInt _ _ \<Rightarrow> True | _ \<Rightarrow> False)"
      proof (cases "?sz = f \<or> ?sz = AI")
        case True
        with fF in_lt(2)[OF AI(2)] show ?thesis by (auto simp: v3 is_inst_def split: vdesc.splits)
      next
        case False
        with lt show ?thesis by (cases "vals ?m ?sz") (simp_all add: v3 v1 subst_operands_def)
      qed
      moreover have "(case vals m3 ?GV of ConstantInt _ _ \<Rightarrow> True | _ \<Rightarrow> False) = False"
        using f AIf by (simp add: v3 v1 subst_operands_def)
      moreover have "(case vals ?m AI of ConstantInt _ _ \<Rightarrow> True | _ \<Rightarrow> False) = False"
        using in_lt(2)[OF AI(2)] by (cases "vals ?m AI") (simp_all add: is_inst_def)
      ultimately show ?thesis by (elim disjE conjE) simp_all
    qed
    show ?thesis unfolding pm isStaticAlloca_def isa blk sz ..
  qed
qed


lemma promote_all:
  assumes "fp_ok (pm s) f" "distinct AIs" "set AIs \<subseteq> set (insts (fn_of (pm s) f))"
    "\<forall>AI \<in> set AIs. isStaticAlloca (pm s) (fn_of (pm s) f) AI"
  shows "insts (fn_of (pm (fold (promote align f) AIs s)) f) = filter (\<lambda>J. J \<notin> set AIs) (insts (fn_of (pm s) f)) \<and>
    (\<forall>AI \<in> set AIs. \<not> used (pm (fold (promote align f) AIs s)) AI) \<and>
    (\<forall>v < vbound (pm s). \<not> used (pm s) v \<longrightarrow> \<not> used (pm (fold (promote align f) AIs s)) v) \<and>
    (\<forall>J \<in> set (insts (fn_of (pm s) f)) - set AIs.
      isStaticAlloca (pm (fold (promote align f) AIs s)) (fn_of (pm (fold (promote align f) AIs s)) f) J =
      isStaticAlloca (pm s) (fn_of (pm s) f) J)"
  using assms
proof (induction AIs arbitrary: s)
  case (Cons AI AIs)
  then have AI: "isStaticAlloca (pm s) (fn_of (pm s) f) AI" "AI \<in> set (insts (fn_of (pm s) f))" by auto
  note law = promote_law[OF Cons.prems(1) AI, where align = align]
  let ?s = "promote align f AI s"
  have lt: "AI < vbound (pm s)" using Cons.prems(1) AI(2) by (simp add: fp_ok_def)
  have "isStaticAlloca (pm ?s) (fn_of (pm ?s) f) B" if "B \<in> set AIs" for B
  proof -
    have "B \<noteq> AI" "B \<in> set (insts (fn_of (pm s) f))" using Cons.prems(2,3) that by auto
    with law(7)[OF this] Cons.prems(4) that show ?thesis by simp
  qed
  moreover have "distinct AIs" "set AIs \<subseteq> set (insts (fn_of (pm ?s) f))"
    using Cons.prems(2,3) law(2) by auto
  ultimately have "distinct AIs" "set AIs \<subseteq> set (insts (fn_of (pm ?s) f))"
    "\<forall>B \<in> set AIs. isStaticAlloca (pm ?s) (fn_of (pm ?s) f) B" by blast+
  note IH = Cons.IH[OF law(1) this]
  have "\<not> used (pm (fold (promote align f) AIs ?s)) AI" using IH law(3,5) lt by fastforce
  moreover have "\<forall>v < vbound (pm s). \<not> used (pm s) v \<longrightarrow> \<not> used (pm (fold (promote align f) AIs ?s)) v"
    using IH law(4,5) by fastforce
  moreover have "\<forall>J \<in> set (insts (fn_of (pm s) f)) - set (AI # AIs).
      isStaticAlloca (pm (fold (promote align f) AIs ?s)) (fn_of (pm (fold (promote align f) AIs ?s)) f) J =
      isStaticAlloca (pm s) (fn_of (pm s) f) J"
    using IH law(2,7) by simp
  ultimately show ?case using IH law(2) by (simp add: conj_ac)
qed simp

end
