(* ===== verification/MemIntrinsicPass.thy ===== *)
theory MemIntrinsicPass
  imports Rewrite
begin

text \<open>
  \<open>src/MemIntrinsicPass.cc\<close>: \<open>memcpy\<close> calls of a constant length become \<open>memcpy.inline\<close>, which is never
  lowered to a call. A call has its arguments (destination, source, length, volatile flag) and then
  the callee as operands.
\<close>

definition is_MemIntrinsic :: "ir_module \<Rightarrow> nat \<Rightarrow> bool" where
  "is_MemIntrinsic m I \<longleftrightarrow> intrinsic_id m I \<in> {Some In_memcpy, Some In_memcpy_inline, Some In_memmove, Some In_memset}"

definition is_const_int :: "ir_module \<Rightarrow> nat \<Rightarrow> bool" where
  "is_const_int m v = (case vals m v of ConstantInt _ _ \<Rightarrow> True | _ \<Rightarrow> False)"

definition memcpy_inline_call :: "inst \<Rightarrow> nat \<Rightarrow> inst" where
  "memcpy_inline_call i callee = inst0\<lparr>opc := Call, iid := Some In_memcpy_inline, nargs := 4,
     operands := [opnd i 0, opnd i 1, opnd i 2, opnd i 3, callee]\<rparr>"

definition handleMemIntrinsic :: "nat \<Rightarrow> nat \<Rightarrow> ir_module \<Rightarrow> ir_module \<times> bool" where
  "handleMemIntrinsic f MI m =
     (if \<not> use_empty m MI then (m, False)
      else if intrinsic_id m MI \<notin> {Some In_memcpy, Some In_memcpy_inline} then (m, False)
      else if intrinsic_id m MI = Some In_memcpy_inline then (m, False)
      else if \<not> is_const_int m (opnd (ins m MI) 2) then (m, False)
      else case getOrInsertFunction ''llvm.memcpy.inline'' m of (m1, callee) \<Rightarrow>
        (eraseFromParent f MI (fst (insert_before f MI (memcpy_inline_call (ins m MI) callee) m1)), True))"

definition mi_step :: "nat \<Rightarrow> nat \<Rightarrow> ir_module \<times> bool \<Rightarrow> ir_module \<times> bool" where
  "mi_step f MI s = (case handleMemIntrinsic f MI (fst s) of (m', c) \<Rightarrow> (m', snd s \<or> c))"

definition mi_runOnFunction :: "nat \<Rightarrow> ir_module \<Rightarrow> ir_module \<times> bool" where
  "mi_runOnFunction f m = fold (mi_step f) (filter (is_MemIntrinsic m) (insts (fn_of m f))) (m, False)"

subsection \<open>One call\<close>

definition eligible :: "ir_module \<Rightarrow> nat \<Rightarrow> bool" where
  "eligible m MI \<longleftrightarrow> use_empty m MI \<and> intrinsic_id m MI = Some In_memcpy \<and> is_const_int m (opnd (ins m MI) 2)"

definition mi_ok :: "ir_module \<Rightarrow> nat \<Rightarrow> bool" where
  "mi_ok m f \<longleftrightarrow> f < vbound m \<and> vals m f = Function (fn_of m f) \<and> distinct (insts (fn_of m f)) \<and> \<not> is_inst m null \<and>
     (\<forall>h \<in> set (fn_list m). h < vbound m) \<and>
     (\<forall>I \<in> set (insts (fn_of m f)). is_inst m I \<and> I < vbound m \<and> (\<forall>v \<in> set (operands (ins m I)). v < vbound m))"

lemma handle_idle: "\<not> eligible m MI \<Longrightarrow> handleMemIntrinsic f MI m = (m, False)"
  by (auto simp: handleMemIntrinsic_def eligible_def)

lemma handle_eligible:
  assumes ok: "mi_ok m f" and MI: "MI \<in> set (insts (fn_of m f))" "eligible m MI"
    and void: "\<forall>J. intrinsic_id m J = Some In_memcpy \<longrightarrow> \<not> used m J"
  obtains m' a callee where "handleMemIntrinsic f MI m = (m', True)" "mi_ok m' f"
    "insts (fn_of m' f) = map (\<lambda>J. if J = MI then a else J) (insts (fn_of m f))"
    "vals m' a = Inst (memcpy_inline_call (ins m MI) callee)" "vbound m \<le> a"
    "\<forall>v < vbound m. v \<noteq> f \<and> v \<noteq> MI \<longrightarrow> vals m' v = vals m v" "vbound m \<le> vbound m'"
    "\<forall>J. intrinsic_id m' J = Some In_memcpy \<longrightarrow> \<not> used m' J" "vals m' MI = Undef"
proof -
  let ?F = "fn_of m f"
  obtain m1 callee where g: "getOrInsertFunction ''llvm.memcpy.inline'' m = (m1, callee)"
    by (cases "getOrInsertFunction ''llvm.memcpy.inline'' m")
  note gl = getOrInsertFunction_law[OF g]
  have f: "f < vbound m" "vals m f = Function ?F" and d: "distinct (insts ?F)" and nl: "\<not> is_inst m null"
    and I: "\<And>I. I \<in> set (insts ?F) \<Longrightarrow> is_inst m I \<and> I < vbound m \<and> (\<forall>v \<in> set (operands (ins m I)). v < vbound m)"
    using ok by (auto simp: mi_ok_def)
  define i where "i = memcpy_inline_call (ins m MI) callee"
  obtain m2 a where e: "insert_before f MI i m1 = (m2, a)" by (cases "insert_before f MI i m1")
  define m' where "m' = eraseFromParent f MI m2"
  have run: "handleMemIntrinsic f MI m = (m', True)"
    using MI(2) by (simp add: handleMemIntrinsic_def eligible_def g e i_def[symmetric] m'_def)
  have f1: "f \<noteq> vbound m1" "fn_of m1 f = ?F" using gl(2) f gl(5)[of f] by auto
  note s = insert_before_simps[OF e f1(1)]
  have MIf: "MI \<noteq> f" using I[OF MI(1)] f by (auto simp: is_inst_def)
  have aMI: "a \<noteq> MI" "vbound m \<le> a" "a \<noteq> f" using s(1) gl(2) I[OF MI(1)] f by auto
  note el = erase_law[OF MIf]
  have "insts (fn_of m2 f) = put_before MI [a] (insts ?F)"
    unfolding s(5) f1(2) by (rule insts_put_before[OF d])
  moreover have "filter (\<lambda>J. J \<noteq> MI) (put_before MI [a] Js) = map (\<lambda>J. if J = MI then a else J) Js"
    if "distinct Js" for Js using that aMI
    by (induction Js) (auto simp: filter_id_conv intro: map_idI)
  ultimately have ins': "insts (fn_of m' f) = map (\<lambda>J. if J = MI then a else J) (insts ?F)"
    unfolding m'_def el(1) using d by simp
  have va: "vals m' a = Inst i" using s(2) aMI by (simp add: m'_def el(2))
  have old: "vals m' v = vals m v" if "v < vbound m" "v \<noteq> f" "v \<noteq> MI" for v
    using that aMI s(4)[of v] gl(1)[of v] by (simp add: m'_def el(2))
  have vb: "vbound m' = Suc (vbound m1)" by (simp add: m'_def eraseFromParent_def s(3))
  have f': "vals m' f = Function (fn_of m' f)" by (simp add: m'_def eraseFromParent_def fn_of_def)
  have ops: "set (operands i) \<subseteq> insert null (insert callee (set (operands (ins m MI))))"
    using opnd_in[of "ins m MI"] by (auto simp: i_def memcpy_inline_call_def)
  note gc = getOrInsertFunction_callee[OF g]
  have fl: "\<forall>h \<in> set (fn_list m). h < vbound m" using ok by (simp add: mi_ok_def)
  have callee: "callee < vbound m1" "callee \<noteq> a" and calleeF: "\<exists>G. vals m1 callee = Function G"
    and fl1: "\<forall>h \<in> set (fn_list m1). h < vbound m1"
    using gc(1-3)[OF _ fl] s(1) by auto
  have notMI: "callee \<noteq> MI" using calleeF gl(1)[of MI] I[OF MI(1)] by (auto simp: is_inst_def split: vdesc.splits)
  have vMI: "vals m MI = Inst (ins m MI)" using I[OF MI(1)] by (auto simp: is_inst_def ins_def split: vdesc.splits)
  have all: "vals m' v = (if v = f then Function (fn_of m' f) else if v = MI then Undef else if v = a then Inst i else vals m1 v)" for v
  proof -
    have "vals m' v = vals m1 v" if "v \<noteq> f" "v \<noteq> MI" "v \<noteq> a" using that s(4)[of v] el(2)[of v m2] by (simp add: m'_def)
    moreover have "vals m' MI = Undef" unfolding m'_def by (rule el(3))
    ultimately show ?thesis using f' va by simp
  qed
  have null: "\<not> is_inst m' null"
    using nl aMI(2) f(1) gl(1)[of null] by (auto simp: all is_inst_def null_def)
  have "mi_ok m' f"
    unfolding mi_ok_def
  proof (intro conjI ballI)
    show "f < vbound m'" using f(1) gl(2) vb by simp
    show "vals m' f = Function (fn_of m' f)" by (rule f')
    show "distinct (insts (fn_of m' f))"
    proof -
      have "a \<notin> set (insts ?F)" using aMI(2) I by fastforce
      with d show ?thesis by (auto simp: ins' distinct_map inj_on_def split: if_splits)
    qed
    show "\<not> is_inst m' null" by (rule null)
    fix h assume "h \<in> set (fn_list m')"
    then have "h \<in> set (fn_list m1)" using e by (auto simp: m'_def eraseFromParent_def set_val_def update_blocks_def insert_before_def new_val_def)
    then show "h < vbound m'" using fl1 vb by auto
  next
    fix J assume "J \<in> set (insts (fn_of m' f))"
    then consider (new) "J = a" | (old) "J \<in> set (insts ?F)" "J \<noteq> MI" by (auto simp: ins' split: if_splits)
    then have "is_inst m' J \<and> J < vbound m' \<and> (\<forall>v \<in> set (operands (ins m' J)). v < vbound m')"
    proof cases
      case new
      have "set (operands i) \<subseteq> {..<vbound m'}"
        using ops callee(1) I[OF MI(1)] f(1) gl(2) vb by (fastforce simp: null_def)
      moreover have "is_inst m' J" "ins m' J = i" using new va by (auto simp: is_inst_def ins_def)
      ultimately show ?thesis using new s(1) vb by auto
    next
      case old
      have "J \<noteq> f" using I[OF old(1)] f(2) by (auto simp: is_inst_def)
      then have "vals m' J = vals m J" using old(2) I[OF old(1)] \<open>\<And>v. v < vbound m \<Longrightarrow> v \<noteq> f \<Longrightarrow> v \<noteq> MI \<Longrightarrow> vals m' v = vals m v\<close>
        by blast
      then show ?thesis using I[OF old(1)] gl(2) vb by (auto simp: is_inst_def ins_def)
    qed
    then show "is_inst m' J" "J < vbound m'" "\<And>v. v \<in> set (operands (ins m' J)) \<Longrightarrow> v < vbound m'" by auto
  qed
  moreover have "\<not> used m' J" if J: "intrinsic_id m' J = Some In_memcpy" for J
  proof
    have inst: "is_inst m' J" using J by (simp add: intrinsic_id_def isa_def split: if_splits)
    have i0: "iid i = Some In_memcpy_inline" by (simp add: i_def memcpy_inline_call_def)
    have Ja: "J \<noteq> a" using J va i0 by (auto simp: intrinsic_id_def ins_def split: if_splits)
    have Jn: "J \<noteq> f" "J \<noteq> MI" "J \<noteq> callee" using inst calleeF callee(2) notMI by (auto simp: all is_inst_def split: if_splits)
    have "vals m1 J = vals m J" using gl(3)[of J] Jn(3) by simp
    then have same: "vals m' J = vals m J" using Jn Ja by (simp add: all)
    then have "intrinsic_id m' J = intrinsic_id m J" by (simp add: intrinsic_id_def isa_def is_inst_def ins_def)
    with J have "intrinsic_id m J = Some In_memcpy" by simp
    then have no: "\<not> used m J" using void by blast
    assume "used m' J"
    then obtain u where u: "J \<in> uses_of (vals m' u)" by (auto simp: used_def)
    then consider "u = a" | "J \<in> uses_of (vals m1 u)" "u \<noteq> callee" | "J \<in> uses_of (vals m1 u)" "u = callee"
      by (auto simp: all split: if_splits)
    then show False
    proof cases
      case 1
      then have "J \<in> insert null (insert callee (set (operands (ins m MI))))" using u ops by (auto simp: va)
      moreover have "J \<noteq> null" using inst null by auto
      moreover have "J \<notin> set (operands (ins m MI))"
        using no vMI by (auto simp: used_def dest: spec[of _ MI])
      ultimately show False using Jn(3) by blast
    next
      case 2
      then show False using no gl(3)[of u] by (auto simp: used_def)
    next
      case 3
      then show False using calleeF by auto
    qed
  qed
  ultimately show thesis using that[OF run _ ins' va[unfolded i_def] aMI(2)] old vb gl(2) all[of MI] MIf by auto
qed

subsection \<open>All calls\<close>

text \<open>What the pass does to one instruction of the original function.\<close>

definition replaced :: "ir_module \<Rightarrow> ir_module \<Rightarrow> nat \<Rightarrow> nat \<Rightarrow> bool" where
  "replaced m m' I J \<longleftrightarrow> (if eligible m I
     then vbound m \<le> J \<and> (\<exists>callee. vals m' J = Inst (memcpy_inline_call (ins m I) callee))
     else J = I \<and> vals m' J = vals m J)"

lemma handle_keeps_eligible:
  assumes "\<forall>v < vbound m. v \<noteq> f \<and> v \<noteq> MI \<longrightarrow> vals m' v = vals m v" "mi_ok m f" "J \<in> set (insts (fn_of m f))" "J \<noteq> MI"
    "is_inst m MI" "vals m' f = Function F'" "vals m' MI = Undef"
    "\<forall>J. intrinsic_id m' J = Some In_memcpy \<longrightarrow> \<not> used m' J" "\<forall>J. intrinsic_id m J = Some In_memcpy \<longrightarrow> \<not> used m J"
  shows "eligible m' J = eligible m J"
proof -
  have J: "is_inst m J" "J < vbound m" "\<forall>v \<in> set (operands (ins m J)). v < vbound m"
    using assms(2,3) by (auto simp: mi_ok_def)
  have Jf: "J \<noteq> f" using J(1) assms(2) by (auto simp: mi_ok_def is_inst_def)
  have same: "vals m' J = vals m J" using assms(1,4) J(2) Jf by blast
  then have eq: "ins m' J = ins m J" "intrinsic_id m' J = intrinsic_id m J"
    by (simp_all add: ins_def intrinsic_id_def isa_def is_inst_def)
  have empty: "use_empty n J" if "intrinsic_id n J = Some In_memcpy"
    "\<forall>J. intrinsic_id n J = Some In_memcpy \<longrightarrow> \<not> used n J" for n
    using that by (auto simp: use_empty_def used_def list_all_iff)
  have f: "f < vbound m" "vals m f = Function (fn_of m f)" using assms(2) by (auto simp: mi_ok_def)
  have "opnd (ins m J) 2 < vbound m" using J(3) f(1) opnd_in[of "ins m J" 2] by (auto simp: null_def)
  then have "is_const_int m' (opnd (ins m J) 2) = is_const_int m (opnd (ins m J) 2)"
    using assms(1,5,6,7) f(2) by (cases "opnd (ins m J) 2 = f \<or> opnd (ins m J) 2 = MI")
      (auto simp: is_const_int_def is_inst_def split: vdesc.splits)
  then show ?thesis using empty[OF _ assms(8)] empty[OF _ assms(9)] by (auto simp: eligible_def eq)
qed

lemma mi_steps_law:
  assumes "mi_ok m f" "\<forall>J. intrinsic_id m J = Some In_memcpy \<longrightarrow> \<not> used m J" "distinct MIs" "set MIs \<subseteq> set (insts (fn_of m f))"
    "fold (mi_step f) MIs (m, c) = (m', c')"
  shows "\<exists>g. insts (fn_of m' f) = map g (insts (fn_of m f)) \<and>
    (\<forall>J \<in> set (insts (fn_of m f)). if J \<in> set MIs then replaced m m' J (g J) else g J = J \<and> vals m' J = vals m J) \<and>
    (c' \<longleftrightarrow> c \<or> (\<exists>J \<in> set MIs. eligible m J))"
  using assms
proof (induction MIs arbitrary: m c)
  case Nil
  then show ?case by (intro exI[of _ "\<lambda>J. J"]) auto
next
  case (Cons MI MIs)
  have MI: "MI \<in> set (insts (fn_of m f))" "MI \<notin> set MIs" using Cons.prems(3,4) by auto
  show ?case
  proof (cases "eligible m MI")
    case False
    then have "mi_step f MI (m, c) = (m, c)" using handle_idle[OF False] by (simp add: mi_step_def)
    then have "fold (mi_step f) MIs (m, c) = (m', c')" using Cons.prems(5) by simp
    from Cons.IH[OF Cons.prems(1,2) _ _ this] Cons.prems(3,4) obtain g where g: "insts (fn_of m' f) = map g (insts (fn_of m f))"
      "\<forall>J \<in> set (insts (fn_of m f)). if J \<in> set MIs then replaced m m' J (g J) else g J = J \<and> vals m' J = vals m J"
      "c' \<longleftrightarrow> c \<or> (\<exists>J \<in> set MIs. eligible m J)" by auto
    have "replaced m m' MI (g MI)" using g(2) MI False by (simp add: replaced_def)
    with g False show ?thesis by (intro exI[of _ g]) auto
  next
    case True
    obtain m1 a callee where h: "handleMemIntrinsic f MI m = (m1, True)" "mi_ok m1 f"
      "insts (fn_of m1 f) = map (\<lambda>J. if J = MI then a else J) (insts (fn_of m f))"
      "vals m1 a = Inst (memcpy_inline_call (ins m MI) callee)" "vbound m \<le> a"
      "\<forall>v < vbound m. v \<noteq> f \<and> v \<noteq> MI \<longrightarrow> vals m1 v = vals m v" "vbound m \<le> vbound m1"
      "\<forall>J. intrinsic_id m1 J = Some In_memcpy \<longrightarrow> \<not> used m1 J" "vals m1 MI = Undef"
      using handle_eligible[OF Cons.prems(1) MI(1) True Cons.prems(2)] by blast
    have old: "J < vbound m" "J \<noteq> f" "is_inst m J" if "J \<in> set (insts (fn_of m f))" for J
      using Cons.prems(1) that by (auto simp: mi_ok_def is_inst_def)
    have same: "vals m1 J = vals m J" "eligible m1 J = eligible m J" if "J \<in> set (insts (fn_of m f))" "J \<noteq> MI" for J
    proof -
      show "vals m1 J = vals m J" using h(6) old[OF that(1)] that(2) by blast
      have "\<exists>F'. vals m1 f = Function F'" using h(2) by (auto simp: mi_ok_def)
      then show "eligible m1 J = eligible m J"
        using handle_keeps_eligible[OF h(6) Cons.prems(1) that old(3)[OF MI(1)] _ h(9,8) Cons.prems(2)] by blast
    qed
    have MIs: "\<And>J. J \<in> set MIs \<Longrightarrow> J \<in> set (insts (fn_of m f)) \<and> J \<noteq> MI" using Cons.prems(3,4) by auto
    have sub: "set MIs \<subseteq> set (insts (fn_of m1 f))" using MIs by (force simp: h(3))
    have "mi_step f MI (m, c) = (m1, True)" using h(1) by (simp add: mi_step_def)
    then have run: "fold (mi_step f) MIs (m1, True) = (m', c')" using Cons.prems(5) by simp
    have "distinct MIs" using Cons.prems(3) by simp
    from Cons.IH[OF h(2,8) this sub run] obtain g where g: "insts (fn_of m' f) = map g (insts (fn_of m1 f))"
      "\<forall>J \<in> set (insts (fn_of m1 f)). if J \<in> set MIs then replaced m1 m' J (g J) else g J = J \<and> vals m' J = vals m1 J"
      "c'" by auto
    have aMIs: "a \<notin> set MIs" using MIs old(1) h(5) by fastforce
    have a1: "a \<in> set (insts (fn_of m1 f))" using MI(1) by (force simp: h(3))
    have ga: "g a = a" "vals m' a = vals m1 a" using g(2) a1 aMIs by auto
    let ?g = "\<lambda>J. g (if J = MI then a else J)"
    have "if J \<in> set (MI # MIs) then replaced m m' J (?g J) else ?g J = J \<and> vals m' J = vals m J"
      if J: "J \<in> set (insts (fn_of m f))" for J
    proof (cases "J = MI")
      case True
      with \<open>eligible m MI\<close> ga h(4,5) show ?thesis by (auto simp: replaced_def)
    next
      case False
      then have J1: "J \<in> set (insts (fn_of m1 f))" using J by (force simp: h(3))
      have i: "ins m1 J = ins m J" using same(1)[OF J False] by (simp add: ins_def)
      have "replaced m1 m' J K \<Longrightarrow> replaced m m' J K" for K
        using same[OF J False] h(7) i by (auto simp: replaced_def split: if_splits)
      with g(2) J1 same(1)[OF J False] False show ?thesis by (auto split: if_splits)
    qed
    moreover have "insts (fn_of m' f) = map ?g (insts (fn_of m f))" by (simp add: g(1) h(3) comp_def)
    moreover have "c' \<longleftrightarrow> c \<or> (\<exists>J \<in> set (MI # MIs). eligible m J)" using g(3) True by simp
    ultimately show ?thesis by blast
  qed
qed

end
