(* ===== verification/DuplicatePass.thy ===== *)
theory DuplicatePass
  imports Rewrite MitigateSets
begin

text \<open>
  \<open>src/DuplicatePass.cc\<close>: functions that are called directly but may also be called from elsewhere get a
  copy with internal linkage for the direct calls. \<open>llvm::CloneFunction\<close> is a parameter: the function
  and the module to the module with the clone, and the clone. A use is the user and the number of the
  operand.
\<close>

fun canDuplicate :: "linkage \<Rightarrow> bool res" where
  "canDuplicate ExternalLinkage = Inr True"
| "canDuplicate AvailableExternallyLinkage = Inr True"
| "canDuplicate LinkOnceAnyLinkage = Inr True"
| "canDuplicate LinkOnceODRLinkage = Inr True"
| "canDuplicate WeakAnyLinkage = Inr False"
| "canDuplicate WeakODRLinkage = Inr False"
| "canDuplicate ExternalWeakLinkage = Inr False"
| "canDuplicate InternalLinkage = Inr True"
| "canDuplicate PrivateLinkage = Inr True"
| "canDuplicate AppendingLinkage = Inl Assertion"
| "canDuplicate CommonLinkage = Inl Assertion"

definition uses :: "ir_module \<Rightarrow> nat \<Rightarrow> (nat \<times> nat) list" where
  "uses m v = concat (map (\<lambda>u. map (\<lambda>k. (u, k))
     (filter (\<lambda>k. operands (ins m u) ! k = v) [0..<length (operands (ins m u))])) (filter (is_inst m) [0..<vbound m]))"

definition is_called_operand :: "ir_module \<Rightarrow> nat \<times> nat \<Rightarrow> bool" where
  "is_called_operand m U \<longleftrightarrow> isa m (fst U) CallBase \<and> Suc (snd U) = length (operands (ins m (fst U)))"

definition shouldDuplicate :: "ir_module \<Rightarrow> nat \<Rightarrow> bool res" where
  "shouldDuplicate m f = (let F = fn_of m f in
     if isDeclaration F then Inr False
     else bindr (canDuplicate (fn_linkage F)) (\<lambda>can.
       if \<not> can then Inr False
       else if functionIsDirectCallOnly F then Inr False
       else Inr (list_ex (is_called_operand m) (uses m f))))"

definition dup_suffix :: string where
  "dup_suffix = ''.llsct.dup''"

definition endswith :: "string \<Rightarrow> string \<Rightarrow> bool" where
  "endswith s t \<longleftrightarrow> length t \<le> length s \<and> drop (length s - length t) s = t"

text \<open>The loop over the uses of \<open>F\<close>. \<open>setOperand\<close> moves the use to the list of uses of the clone, so the
  iteration goes on in that list; the clone had no uses yet, so it ends there.\<close>

fun redirect :: "nat \<Rightarrow> (nat \<times> nat) list \<Rightarrow> ir_module \<Rightarrow> ir_module" where
  "redirect NewF [] m = m"
| "redirect NewF ((C, k) # us) m =
     (if isa m C CallBase \<and> k = 0
      then set_val C (Inst (ins m C\<lparr>operands := (operands (ins m C))[k := NewF]\<rparr>)) m
      else redirect NewF us m)"

definition cloneFunction :: "(nat \<Rightarrow> ir_module \<Rightarrow> ir_module \<times> nat) \<Rightarrow> nat \<Rightarrow> ir_module \<Rightarrow> ir_module res" where
  "cloneFunction CloneFunction f m =
     assertr (\<not> endswith (fn_name (fn_of m f)) dup_suffix)
       (case CloneFunction f m of (m1, NewF) \<Rightarrow>
          let m2 = set_val NewF (Function (fn_of m1 NewF\<lparr>fn_name := fn_name (fn_of m f) @ dup_suffix,
                fn_linkage := InternalLinkage\<rparr>)) m1
          in Inr (redirect NewF (uses m2 f) m2))"

definition dup_runOnModule :: "(nat \<Rightarrow> ir_module \<Rightarrow> ir_module \<times> nat) \<Rightarrow> ir_module \<Rightarrow> (ir_module \<times> bool) res" where
  "dup_runOnModule CloneFunction m =
     bindr (filter_res (shouldDuplicate m) (fn_list m)) (\<lambda>worklist.
     bindr (foldr_res (cloneFunction CloneFunction) worklist m) (\<lambda>m'. Inr (m', worklist \<noteq> [])))"

lemma uses_in: "(u, k) \<in> set (uses m v) \<Longrightarrow> is_inst m u \<and> k < length (operands (ins m u)) \<and> operands (ins m u) ! k = v"
  by (auto simp: uses_def)

lemma redirect_law:
  assumes "set us \<subseteq> set (uses m f)"
  shows "redirect NewF us m = m \<or> (\<exists>C. isa m C CallBase \<and> operands (ins m C) \<noteq> [] \<and> hd (operands (ins m C)) = f \<and>
    redirect NewF us m = set_val C (Inst (ins m C\<lparr>operands := NewF # tl (operands (ins m C))\<rparr>)) m)"
  using assms
proof (induction us)
  case (Cons U us)
  obtain C k where U: "U = (C, k)" by (cases U)
  show ?case
  proof (cases "isa m C CallBase \<and> k = 0")
    case True
    then have "operands (ins m C) \<noteq> []" "hd (operands (ins m C)) = f"
      using uses_in[of C k m f] Cons.prems U by (auto simp: hd_conv_nth)
    moreover have "(operands (ins m C))[k := NewF] = NewF # tl (operands (ins m C))"
      using True calculation(1) by (cases "operands (ins m C)") auto
    ultimately show ?thesis using True by (auto simp: U)
  next
    case False
    then show ?thesis using Cons by (auto simp: U)
  qed
qed simp

end
