(* ===== verification/MarkPasses.thy ===== *)
theory MarkPasses
  imports Rewrite MitigateSets
begin

text \<open>
  The passes that mark functions and instructions for the code generator: \<open>src/Attributes.cc\<close>,
  \<open>src/NoSpillPublic.cc\<close> and \<open>src/NoSpillLowering.cc\<close>. A function attribute and a metadata flag are
  strings; \<open>warn\<close> collects the warnings.
\<close>

subsection \<open>Attributes\<close>

definition addFnAttr :: "nat \<Rightarrow> string \<Rightarrow> ir_module \<Rightarrow> ir_module" where
  "addFnAttr f a m = set_val f (Function (fn_of m f\<lparr>fn_attrs := a # fn_attrs (fn_of m f)\<rparr>)) m"

definition stack_protector_attrs :: "string list" where
  "stack_protector_attrs = [''ssp'', ''sspstrong'', ''sspreq'']"

definition mark_constant_stores :: "analyses \<Rightarrow> nat list \<Rightarrow> ir_module \<Rightarrow> ir_module res" where
  "mark_constant_stores an Ss m = foldr_res (\<lambda>SI m.
     bindr (CAA m an (getPointerOperand (ins m SI))) (\<lambda>ca. Inr (if ca then setMetadataFlag SI ''llsct.ca'' m else m))) Ss m"

definition attr_runOnFunction :: "options \<Rightarrow> analyses \<Rightarrow> nat \<Rightarrow> ir_module \<Rightarrow> (ir_module \<times> string list) res" where
  "attr_runOnFunction opt an f m =
     (let m1 = (if en_fps opt then addFnAttr f ''noredzone'' m else m);
          m2 = (if functionIsDirectCallOnly (fn_of m1 f) then addFnAttr f ''nocf_check'' m1 else m1);
          warnings = filter (\<lambda>a. a \<in> set (fn_attrs (fn_of m2 f))) stack_protector_attrs
      in bindr (mark_constant_stores an (insts_of m2 (fn_of m2 f) [Store]) m2) (\<lambda>m3. Inr (m3, warnings)))"

subsection \<open>Public values that must not be spilled\<close>

definition nospill_public :: "analyses \<Rightarrow> nat \<Rightarrow> ir_module \<times> bool \<Rightarrow> (ir_module \<times> bool) res" where
  "nospill_public an I s =
     bindr (and_res (Inr (LA_mayLeak an I)) (not_res (ST_secret (fst s) an I))) (\<lambda>b.
       Inr (if b then (setMetadataFlag I ''clou.nospill'' (fst s), True) else s))"

definition nsp_runOnFunction :: "analyses \<Rightarrow> nat \<Rightarrow> ir_module \<Rightarrow> (ir_module \<times> bool) res" where
  "nsp_runOnFunction an f m =
     foldr_res (nospill_public an) (nonvoid_instructions m (fn_of m f)) (m, False)"

subsection \<open>Lowering the mark\<close>

text \<open>An empty inline assembly that takes the value in a register, before the terminator of the block.\<close>

definition isSingleValueType :: "ty \<Rightarrow> bool" where
  "isSingleValueType t \<longleftrightarrow> (case t of IntTy _ \<Rightarrow> True | FloatTy \<Rightarrow> True | PtrTy \<Rightarrow> True | VectorTy \<Rightarrow> True | _ \<Rightarrow> False)"

definition nospill_call :: "nat \<Rightarrow> nat \<Rightarrow> inst" where
  "nospill_call I asm = inst0\<lparr>opc := Call, operands := [I, asm], nargs := 1\<rparr>"

definition lower_nospill :: "nat \<Rightarrow> nat \<Rightarrow> nat \<Rightarrow> ir_module \<times> bool \<Rightarrow> ir_module \<times> bool" where
  "lower_nospill f terminator I s =
     (let m = fst s in
      if getMetadataFlag m I ''clou.nospill'' \<and> isSingleValueType (ity (ins m I)) then
        (case new_val InlineAsm m of (m1, asm) \<Rightarrow> (fst (insert_before f terminator (nospill_call I asm) m1), True))
      else s)"

definition nsl_block :: "nat \<Rightarrow> bb \<Rightarrow> ir_module \<times> bool \<Rightarrow> ir_module \<times> bool" where
  "nsl_block f B s = fold (lower_nospill f (last (bb_insts B))) (bb_insts B) s"

text \<open>The calls that are inserted before the terminator come up in the walk over the block too; they
  return nothing and are not marked.\<close>

definition nsl_runOnFunction :: "nat \<Rightarrow> ir_module \<Rightarrow> ir_module \<times> bool" where
  "nsl_runOnFunction f m = fold (nsl_block f) (fn_blocks (fn_of m f)) (m, False)"

subsection \<open>What is marked\<close>

lemma nospill_public_fold:
  assumes "foldr_res (nospill_public an) Is (m, c) = Inr (m', c')" "\<forall>I \<in> set Is. is_inst m I"
  shows "(\<forall>v. is_inst m' v = is_inst m v) \<and>
    (\<forall>J g. getMetadataFlag m' J g \<longleftrightarrow> getMetadataFlag m J g \<or> J \<in> set Is \<and> g = ''clou.nospill'' \<and>
       LA_mayLeak an J \<and> ST_secret m an J = Inr False)"
  using assms
proof (induction Is arbitrary: m c)
  case (Cons I Is)
  from Cons.prems(1) obtain s1 where s1: "nospill_public an I (m, c) = Inr s1"
    and fold: "foldr_res (nospill_public an) Is s1 = Inr (m', c')" by (auto simp: bindr_eq_Inr)
  from s1 obtain b where b: "and_res (Inr (LA_mayLeak an I)) (not_res (ST_secret m an I)) = Inr b"
    and s1': "s1 = (if b then (setMetadataFlag I ''clou.nospill'' m, True) else (m, c))"
    by (auto simp: nospill_public_def bindr_eq_Inr)
  note rest = fold[unfolded s1']
  have b': "b \<longleftrightarrow> LA_mayLeak an I \<and> ST_secret m an I = Inr False"
    using b by (cases "ST_secret m an I") (auto simp: and_res_def not_res_def split: if_splits)
  define m1 where "m1 = (if b then setMetadataFlag I ''clou.nospill'' m else m)"
  have I: "is_inst m I" using Cons.prems(2) by simp
  have k: "is_inst m1 v = is_inst m v" for v using I by (auto simp: m1_def setMetadataFlag_def is_inst_def)
  have s: "ST_secret m1 an v = ST_secret m an v" for v
    using k by (simp add: ST_secret_def st_secret_def)
  have g: "getMetadataFlag m1 J h \<longleftrightarrow> getMetadataFlag m J h \<or> J = I \<and> h = ''clou.nospill'' \<and> b" for J h
    using setMetadataFlag_get[OF I] by (auto simp: m1_def)
  obtain c1 where "foldr_res (nospill_public an) Is (m1, c1) = Inr (m', c')" using rest by (cases b) (auto simp: m1_def)
  from Cons.IH[OF this] Cons.prems(2) k have "(\<forall>v. is_inst m' v = is_inst m1 v) \<and>
    (\<forall>J g. getMetadataFlag m' J g \<longleftrightarrow> getMetadataFlag m1 J g \<or> J \<in> set Is \<and> g = ''clou.nospill'' \<and>
       LA_mayLeak an J \<and> ST_secret m1 an J = Inr False)" by simp
  then show ?case by (auto simp: k s g b')
qed simp

end
