(* ===== verification/Insertion.thy ===== *)
theory Insertion
  imports Rewrite
begin

text \<open>
  Sequences of insertions by an \<open>IRBuilder\<close>, with the constants and declarations they need: what they
  leave of the module. The passes that emit code share it.
\<close>

text \<open>\<open>grown f m m' J xs\<close>: \<open>m'\<close> has new values and, in the function, the new instructions \<open>xs\<close> before \<open>J\<close>.\<close>

definition here :: "ir_module \<Rightarrow> nat \<Rightarrow> bool" where
  "here m f \<longleftrightarrow> f < vbound m \<and> (\<exists>F. vals m f = Function F) \<and> (\<forall>h \<in> set (fn_list m). h < vbound m) \<and>
     distinct (insts (fn_of m f)) \<and> (\<forall>I \<in> set (insts (fn_of m f)). is_inst m I \<and> I < vbound m)"

definition grown :: "nat \<Rightarrow> ir_module \<Rightarrow> ir_module \<Rightarrow> nat \<Rightarrow> nat list \<Rightarrow> bool" where
  "grown f m m' J xs \<longleftrightarrow> here m' f \<and> vbound m \<le> vbound m' \<and> (\<forall>v < vbound m. v \<noteq> f \<longrightarrow> vals m' v = vals m v) \<and>
     fn_blocks (fn_of m' f) = insts_before J xs (fn_blocks (fn_of m f)) \<and>
     insts (fn_of m' f) = put_before J xs (insts (fn_of m f)) \<and> (\<forall>x \<in> set xs. vbound m \<le> x \<and> x < vbound m')"

lemma put_before_empty [simp]: "put_before J [] xs = xs"
  by (induction xs) auto

lemma put_before_twice: "J \<notin> set ys \<Longrightarrow> put_before J zs (put_before J ys xs) = put_before J (ys @ zs) xs"
  by (induction xs) (auto simp: put_before_append)

lemma insts_before_twice: "J \<notin> set ys \<Longrightarrow> insts_before J zs (insts_before J ys Bs) = insts_before J (ys @ zs) Bs"
  by (simp add: insts_before_def put_before_twice)

lemma insts_before_empty [simp]: "insts_before J [] Bs = Bs"
  by (simp add: insts_before_def)

lemma grown_new_val:
  assumes "here m f" "new_val d m = (m', a)"
  shows "grown f m m' J []" "a = vbound m" "vals m' a = d" "a < vbound m'"
proof -
  have f: "f < vbound m" using assms(1) by (simp add: here_def)
  have m': "m' = m\<lparr>vals := (vals m)(vbound m := d), vbound := Suc (vbound m)\<rparr>" and a: "a = vbound m"
    using assms(2) by (auto simp: new_val_def)
  have F: "fn_of m' f = fn_of m f" using f by (simp add: m' fn_of_def)
  show "a = vbound m" "vals m' a = d" "a < vbound m'" by (simp_all add: m' a)
  have "vbound m' = Suc (vbound m)" "fn_list m' = fn_list m" "\<And>v. v < vbound m \<Longrightarrow> vals m' v = vals m v"
    by (simp_all add: m')
  with assms(1) f show "grown f m m' J []"
    by (auto simp: grown_def here_def F is_inst_def less_Suc_eq)
qed

lemma grown_declaration:
  assumes "here m f" "getOrInsertFunction name m = (m', g)" "name \<noteq> []"
  shows "grown f m m' J []"
proof -
  have f: "f < vbound m" and fl: "\<forall>h \<in> set (fn_list m). h < vbound m" using assms(1) by (auto simp: here_def)
  note gl = getOrInsertFunction_law[OF assms(2)] and gc = getOrInsertFunction_callee[OF assms(2,3) fl]
  have F: "fn_of m' f = fn_of m f" by (rule gl(5)[OF f])
  have old: "\<And>v. v < vbound m \<Longrightarrow> vals m' v = vals m v" by (rule gl(1))
  show ?thesis using assms(1) gc(3) gl(2) old[OF f] old
    by (fastforce simp: grown_def here_def F is_inst_def)
qed

lemma grown_insert:
  assumes "here m f" "insert_before f J i m = (m', a)" "J < vbound m"
  shows "grown f m m' J [a]" "a = vbound m" "vals m' a = Inst i" "a < vbound m'"
proof -
  have f: "f < vbound m" "f \<noteq> vbound m" using assms(1) by (auto simp: here_def)
  have notI: "\<not> is_inst m f" using assms(1) by (auto simp: here_def is_inst_def)
  note s = insert_before_simps[OF assms(2) f(2)]
  show "a = vbound m" "vals m' a = Inst i" "a < vbound m'" using s by simp_all
  have d: "distinct (insts (fn_of m f))" using assms(1) by (simp add: here_def)
  have ins: "insts (fn_of m' f) = put_before J [a] (insts (fn_of m f))" unfolding s(5) by (rule insts_put_before[OF d])
  have fl: "fn_list m' = fn_list m" "\<exists>F. vals m' f = Function F"
    using assms(2) f by (auto simp: insert_before_def new_val_def update_blocks_def set_val_def)
  have fresh: "a \<notin> set (insts (fn_of m f))" using assms(1) s(1) by (auto simp: here_def)
  have old: "vals m' v = vals m v" if "v < vbound m" "v \<noteq> f" for v using that s(1,4) by auto
  have "is_inst m' I \<and> I < vbound m'" if "I \<in> set (insts (fn_of m' f))" for I
  proof (cases "I = a")
    case True then show ?thesis using s by (simp add: is_inst_def)
  next
    case False
    with that have "I \<in> set (insts (fn_of m f))" by (auto simp: ins set_put_before split: if_splits)
    then have "is_inst m I" "I < vbound m" using assms(1) by (auto simp: here_def)
    moreover have "I \<noteq> f" using calculation(1) notI by auto
    ultimately have "is_inst m I" "I < vbound m" "I \<noteq> f" by auto
    with old[of I] s(3) show ?thesis by (simp add: is_inst_def)
  qed
  moreover have "distinct (insts (fn_of m' f))" unfolding ins by (rule distinct_put_before[OF d fresh])
  ultimately have "here m' f" using assms(1) fl s(3) f(1) by (auto simp: here_def less_Suc_eq)
  then show "grown f m m' J [a]" using ins s old f(1) by (auto simp: grown_def)
qed

lemma grown_trans:
  assumes "grown f m m1 J xs" "grown f m1 m2 J ys" "J < vbound m"
  shows "grown f m m2 J (xs @ ys)"
proof -
  have J: "J \<notin> set xs" using assms(1,3) by (auto simp: grown_def)
  have "vals m2 v = vals m v" if "v < vbound m" "v \<noteq> f" for v
  proof -
    have "v < vbound m1" using assms(1) that(1) by (simp add: grown_def)
    with assms(1,2) that show ?thesis by (simp add: grown_def)
  qed
  with assms(1,2) show ?thesis
    by (auto simp: grown_def put_before_twice[OF J] insts_before_twice[OF J])
qed

lemma grown_old: "grown f m m' J xs \<Longrightarrow> v < vbound m \<Longrightarrow> v \<noteq> f \<Longrightarrow> vals m' v = vals m v"
  by (simp add: grown_def)

lemma grown_here: "grown f m m' J xs \<Longrightarrow> here m' f" "grown f m m' J xs \<Longrightarrow> vbound m \<le> vbound m'"
  by (simp_all add: grown_def)

end
