(* ===== verification/FunctionLocalStacks.thy ===== *)
theory FunctionLocalStacks
  imports Insertion MarkPasses
begin

text \<open>
  \<open>src/FunctionLocalStacks.cc\<close>: every function gets a stack of its own and a global variable that
  holds its stack pointer. On entry the pass saves the stack pointer of an outer activation and
  publishes the current one for calls; before every return it puts the saved one back, clipped to
  the end of the stack. \<open>StackSize\<close> is the command line option. The wrapper functions of the file are
  called by nothing. A global variable that is created is a record next to its value.
\<close>

subsection \<open>The pass\<close>

record fls_global =
  fg_value :: nat
  fg_name :: string
  fg_bytes :: nat
  fg_init :: "nat option"
  fg_linkage :: linkage
  fg_align :: nat
  fg_dso_local :: bool

definition sep :: string where
  "sep = ''_''"

definition max_align :: nat where
  "max_align = 256"

definition shouldRestoreOldSP :: "ir_module \<Rightarrow> nat \<Rightarrow> bool res" where
  "shouldRestoreOldSP m f = not_res (doesNotRecurse m f)"

definition shouldSaveNewSP :: "ir_module \<Rightarrow> nat \<Rightarrow> bool res" where
  "shouldSaveNewSP m f = any_res (mayLowerToFunctionCall m) (insts_of m (fn_of m f) CallBase)"

text \<open>The constant \<open>&stack[1]\<close>, one stack past the start; \<open>w\<close> is the width of the index.\<close>

definition stack_end :: "nat \<Rightarrow> nat \<Rightarrow> ir_module \<Rightarrow> ir_module \<times> nat" where
  "stack_end w stack m = (case new_val (ConstantInt 1 (IntTy w)) m of (m1, one) \<Rightarrow>
     new_val (ConstantExpr CGEP [stack, one] PtrTy) m1)"

text \<open>The two global variables; the stack pointer starts at the end of the stack.\<close>

definition make_globals :: "nat \<Rightarrow> nat \<Rightarrow> ir_module \<Rightarrow> ir_module \<times> fls_global list \<times> nat \<times> nat" where
  "make_globals StackSize f m = (let name = fn_name (fn_of m f) in
     case new_val GlobalVariable m of (m1, stack) \<Rightarrow>
     case stack_end 8 stack m1 of (m2, end1) \<Rightarrow>
     case new_val (ConstantExpr CBitCast [end1] PtrTy) m2 of (m3, init) \<Rightarrow>
     case new_val GlobalVariable m3 of (m4, sp) \<Rightarrow>
       (m4, [\<lparr>fg_value = stack, fg_name = name @ sep @ ''stack'', fg_bytes = StackSize, fg_init = None,
              fg_linkage = InternalLinkage, fg_align = max_align, fg_dso_local = True\<rparr>,
             \<lparr>fg_value = sp, fg_name = name @ sep @ ''sp'', fg_bytes = 8, fg_init = Some init,
              fg_linkage = InternalLinkage, fg_align = 8, fg_dso_local = True\<rparr>], stack, sp))"

definition save_new_sp :: "nat \<Rightarrow> nat \<Rightarrow> nat \<Rightarrow> ir_module \<Rightarrow> ir_module" where
  "save_new_sp f J sp m =
     (case new_val MetadataAsValue m of (m1, MDV) \<Rightarrow>
      case getOrInsertFunction ''llvm.read_register.i64'' m1 of (m2, callee) \<Rightarrow>
      case insert_before f J (inst0\<lparr>opc := Call, ity := IntTy 64, iid := Some In_read_register, nargs := 1,
          operands := [MDV, callee]\<rparr>) m2 of (m3, rsp) \<Rightarrow>
      case insert_before f J (inst0\<lparr>opc := IntToPtr, ity := PtrTy, operands := [rsp]\<rparr>) m3 of (m4, NewSP) \<Rightarrow>
        fst (insert_before f J (inst0\<lparr>opc := Store, operands := [NewSP, sp]\<rparr>) m4))"

definition restore_old_sp :: "nat \<Rightarrow> nat \<Rightarrow> nat \<Rightarrow> nat \<Rightarrow> nat \<Rightarrow> ir_module \<Rightarrow> ir_module" where
  "restore_old_sp f stack sp OldSP I m =
     (case stack_end 32 stack m of (m1, StackEnd) \<Rightarrow>
      case new_val (ConstantExpr COtherExpr [StackEnd] (IntTy 64)) m1 of (m2, StackEndI) \<Rightarrow>
      case insert_before f I (inst0\<lparr>opc := OtherCast, ity := IntTy 64, operands := [OldSP]\<rparr>) m2 of (m3, OldSPI) \<Rightarrow>
      case getOrInsertFunction ''llvm.umin.i64'' m3 of (m4, callee) \<Rightarrow>
      case insert_before f I (inst0\<lparr>opc := Call, ity := IntTy 64, iid := Some In_umin, nargs := 2,
          operands := [StackEndI, OldSPI, callee]\<rparr>) m4 of (m5, ClippedOldSPI) \<Rightarrow>
      case insert_before f I (inst0\<lparr>opc := IntToPtr, ity := PtrTy, operands := [ClippedOldSPI]\<rparr>) m5 of (m6, ClippedOldSP) \<Rightarrow>
        fst (insert_before f I (inst0\<lparr>opc := Store, operands := [ClippedOldSP, sp]\<rparr>) m6))"

definition fls_returns :: "ir_module \<Rightarrow> nat \<Rightarrow> nat list" where
  "fls_returns m f = filter (\<lambda>I. isa m I [Ret]) (map (\<lambda>B. last (bb_insts B)) (fn_blocks (fn_of m f)))"

definition fls_stack_pointer :: "nat \<Rightarrow> nat \<Rightarrow> nat \<Rightarrow> ir_module \<Rightarrow> ir_module res" where
  "fls_stack_pointer f stack sp m = (let J = entry_inst (fn_of m f) in
     bindr (shouldRestoreOldSP m f) (\<lambda>restore.
     case (if restore then insert_before f J (inst0\<lparr>opc := Load, ity := PtrTy, operands := [sp]\<rparr>) m else (m, null)) of
       (m1, OldSP) \<Rightarrow>
     bindr (shouldSaveNewSP m1 f) (\<lambda>save.
     let m2 = (if save then save_new_sp f J sp m1 else m1) in
     bindr (shouldRestoreOldSP m2 f) (\<lambda>restore2.
     Inr (if restore2 then fold (restore_old_sp f stack sp OldSP) (fls_returns m2 f) m2 else m2)))))"

definition fls_runOnFunction :: "nat \<Rightarrow> string \<Rightarrow> nat \<Rightarrow> ir_module \<times> fls_global list \<Rightarrow> (ir_module \<times> fls_global list) res" where
  "fls_runOnFunction StackSize FnAttr_fps_usestack f = (\<lambda>(m, GVs).
     let m1 = addFnAttr f ''stackrealign'' m in
     bindr (shouldRestoreOldSP m1 f) (\<lambda>restore.
     let m2 = (if \<not> restore then addFnAttr f FnAttr_fps_usestack m1 else m1) in
     case make_globals StackSize f m2 of (m3, gs, stack, sp) \<Rightarrow>
     bindr (fls_stack_pointer f stack sp m3) (\<lambda>m4. Inr (m4, GVs @ gs))))"

definition fls_runOnModule :: "options \<Rightarrow> nat \<Rightarrow> string \<Rightarrow> ir_module \<Rightarrow> (bool \<times> ir_module \<times> fls_global list) res" where
  "fls_runOnModule opt StackSize FnAttr_fps_usestack m =
     (if \<not> en_fps opt then Inr (False, m, [])
      else bindr (foldr_res (\<lambda>f s. if \<not> isDeclaration (fn_of (fst s) f)
          then fls_runOnFunction StackSize FnAttr_fps_usestack f s else Inr s) (fn_list m) (m, []))
        (\<lambda>(m', GVs). Inr (True, m', GVs)))"

subsection \<open>What the inserted code does\<close>

text \<open>Running straight-line code: \<open>rho\<close> holds the results of instructions, \<open>mem\<close> is the memory; \<open>addr\<close> is where
  a global variable is, and adding one to a pointer to the stack adds \<open>StackSize\<close>.\<close>

fun val_of :: "nat \<Rightarrow> (nat \<Rightarrow> nat) \<Rightarrow> nat \<Rightarrow> ir_module \<Rightarrow> (nat \<Rightarrow> nat) \<Rightarrow> nat \<Rightarrow> nat" where
  "val_of 0 addr StackSize m rho v = rho v"
| "val_of (Suc n) addr StackSize m rho v = (case vals m v of
      GlobalVariable \<Rightarrow> addr v
    | ConstantExpr CGEP vs _ \<Rightarrow> val_of n addr StackSize m rho (hd vs) + StackSize
    | ConstantExpr _ vs _ \<Rightarrow> val_of n addr StackSize m rho (hd vs)
    | _ \<Rightarrow> rho v)"

definition exec_inst :: "(nat \<Rightarrow> nat) \<Rightarrow> nat \<Rightarrow> ir_module \<Rightarrow> nat \<Rightarrow> (nat \<Rightarrow> nat) \<times> (nat \<Rightarrow> nat) \<Rightarrow>
    (nat \<Rightarrow> nat) \<times> (nat \<Rightarrow> nat)" where
  "exec_inst addr StackSize m I = (\<lambda>(rho, mem).
     let x = (\<lambda>k. val_of 3 addr StackSize m rho (opnd (ins m I) k)) in
     if isa m I [Load] then (rho(I := mem (x 0)), mem)
     else if isa m I [Store] then (rho, mem(x 1 := x 0))
     else if intrinsic_id m I = Some In_umin then (rho(I := min (x 0) (x 1)), mem)
     else if isa m I [IntToPtr, OtherCast] then (rho(I := x 0), mem)
     else (rho, mem))"

definition exec :: "(nat \<Rightarrow> nat) \<Rightarrow> nat \<Rightarrow> ir_module \<Rightarrow> nat list \<Rightarrow> (nat \<Rightarrow> nat) \<times> (nat \<Rightarrow> nat) \<Rightarrow>
    (nat \<Rightarrow> nat) \<times> (nat \<Rightarrow> nat)" where
  "exec addr StackSize m Is s = fold (exec_inst addr StackSize m) Is s"

text \<open>The code that puts back the saved stack pointer.\<close>

definition epilogue_at :: "ir_module \<Rightarrow> nat \<Rightarrow> nat \<Rightarrow> nat \<Rightarrow> nat list \<Rightarrow> nat \<Rightarrow> nat \<Rightarrow> nat \<Rightarrow> nat \<Rightarrow> bool" where
  "epilogue_at m stack sp OldSP E ei e one callee \<longleftrightarrow> (case E of [a, b, c, d] \<Rightarrow>
     set (ei # e # E) \<subseteq> {..<vbound m} \<and>
     vals m a = Inst (inst0\<lparr>opc := OtherCast, ity := IntTy 64, operands := [OldSP]\<rparr>) \<and>
     vals m b = Inst (inst0\<lparr>opc := Call, ity := IntTy 64, iid := Some In_umin, nargs := 2, operands := [ei, a, callee]\<rparr>) \<and>
     vals m c = Inst (inst0\<lparr>opc := IntToPtr, ity := PtrTy, operands := [b]\<rparr>) \<and>
     vals m d = Inst (inst0\<lparr>opc := Store, operands := [c, sp]\<rparr>) \<and>
     vals m ei = ConstantExpr COtherExpr [e] (IntTy 64) \<and> vals m e = ConstantExpr CGEP [stack, one] PtrTy
   | _ \<Rightarrow> False)"

definition epilogue :: "ir_module \<Rightarrow> nat \<Rightarrow> nat \<Rightarrow> nat \<Rightarrow> nat list \<Rightarrow> bool" where
  "epilogue m stack sp OldSP E \<longleftrightarrow> (\<exists>ei e one callee. epilogue_at m stack sp OldSP E ei e one callee)"

lemma epilogue_cases:
  assumes "epilogue_at m stack sp OldSP E ei e one callee"
  obtains a b c d where "E = [a, b, c, d]"
  using assms by (auto simp: epilogue_at_def split: list.splits)

lemma exec_epilogue:
  assumes "epilogue m stack sp OldSP E" "vals m stack = GlobalVariable" "vals m sp = GlobalVariable" "is_inst m OldSP"
  shows "snd (exec addr StackSize m E (rho, mem)) = mem(addr sp := min (addr stack + StackSize) (rho OldSP))"
proof -
  from assms(1) obtain ei e one callee where at: "epilogue_at m stack sp OldSP E ei e one callee"
    unfolding epilogue_def by blast
  obtain a b c d where E: "E = [a, b, c, d]" by (rule epilogue_cases[OF at])
  note v = at[unfolded epilogue_at_def E list.case, THEN conjunct2]
  have old: "val_of 3 addr StackSize m r OldSP = r OldSP" for r
    using assms(4) by (auto simp: is_inst_def numeral_3_eq_3 split: vdesc.splits)
  have vo: "val_of 3 addr StackSize m r a = r a" "val_of 3 addr StackSize m r b = r b" "val_of 3 addr StackSize m r c = r c"
    "val_of 3 addr StackSize m r sp = addr sp" "val_of 3 addr StackSize m r ei = addr stack + StackSize" for r
    using v assms(2,3) by (simp_all add: numeral_3_eq_3)
  show ?thesis
    using v by (simp add: exec_def E exec_inst_def Let_def isa_def is_inst_def ins_def intrinsic_id_def opnd_def inst0_def old vo)
qed

lemma epilogue_mono:
  assumes "epilogue m stack sp OldSP E" "here m f" "grown f m m' J xs"
  shows "epilogue m' stack sp OldSP E"
proof -
  have keep: "vals m' v = vals m v" if "v < vbound m" "(\<exists>i. vals m v = Inst i) \<or> (\<exists>c vs t. vals m v = ConstantExpr c vs t)" for v
    using that grown_old[OF assms(3), of v] assms(2) by (cases "v = f") (auto simp: here_def)
  have vb: "vbound m \<le> vbound m'" by (rule grown_here(2)[OF assms(3)])
  from assms(1) obtain ei e one callee where at: "epilogue_at m stack sp OldSP E ei e one callee"
    unfolding epilogue_def by blast
  obtain a b c d where E: "E = [a, b, c, d]" by (rule epilogue_cases[OF at])
  note v = at[unfolded epilogue_at_def E list.case]
  have "epilogue_at m' stack sp OldSP E ei e one callee"
    unfolding epilogue_at_def E list.case
    using v vb keep[of a] keep[of b] keep[of c] keep[of d] keep[of ei] keep[of e] by auto
  then show ?thesis unfolding epilogue_def by blast
qed

lemma restore_old_sp_law:
  assumes "here m f" "I < vbound m"
  shows "\<exists>E. grown f m (restore_old_sp f stack sp OldSP I m) I E \<and> epilogue (restore_old_sp f stack sp OldSP I m) stack sp OldSP E"
proof -
  obtain m0 one where m0: "new_val (ConstantInt 1 (IntTy 32)) m = (m0, one)" by (cases "new_val (ConstantInt 1 (IntTy 32)) m")
  obtain m1 e where m1: "new_val (ConstantExpr CGEP [stack, one] PtrTy) m0 = (m1, e)" by (cases "new_val (ConstantExpr CGEP [stack, one] PtrTy) m0")
  obtain m2 ei where m2: "new_val (ConstantExpr COtherExpr [e] (IntTy 64)) m1 = (m2, ei)" by (cases "new_val (ConstantExpr COtherExpr [e] (IntTy 64)) m1")
  let ?a = "inst0\<lparr>opc := OtherCast, ity := IntTy 64, operands := [OldSP]\<rparr>"
  obtain m3 a where m3: "insert_before f I ?a m2 = (m3, a)" by (cases "insert_before f I ?a m2")
  obtain m4 callee where m4: "getOrInsertFunction ''llvm.umin.i64'' m3 = (m4, callee)" by (cases "getOrInsertFunction ''llvm.umin.i64'' m3")
  let ?b = "inst0\<lparr>opc := Call, ity := IntTy 64, iid := Some In_umin, nargs := 2, operands := [ei, a, callee]\<rparr>"
  obtain m5 b where m5: "insert_before f I ?b m4 = (m5, b)" by (cases "insert_before f I ?b m4")
  let ?c = "inst0\<lparr>opc := IntToPtr, ity := PtrTy, operands := [b]\<rparr>"
  obtain m6 c where m6: "insert_before f I ?c m5 = (m6, c)" by (cases "insert_before f I ?c m5")
  let ?d = "inst0\<lparr>opc := Store, operands := [c, sp]\<rparr>"
  obtain m7 d where m7: "insert_before f I ?d m6 = (m7, d)" by (cases "insert_before f I ?d m6")
  have run: "restore_old_sp f stack sp OldSP I m = m7"
    by (simp add: restore_old_sp_def stack_end_def m0 m1 m2 m3 m4 m5 m6 m7)
  note g0 = grown_new_val(1)[OF assms(1) m0, where J = I] grown_new_val(2-4)[OF assms(1) m0]
  note g1 = grown_new_val(1)[OF grown_here(1)[OF g0(1)] m1, where J = I] grown_new_val(2-4)[OF grown_here(1)[OF g0(1)] m1]
  note g2 = grown_new_val(1)[OF grown_here(1)[OF g1(1)] m2, where J = I] grown_new_val(2-4)[OF grown_here(1)[OF g1(1)] m2]
  have I2: "I < vbound m2" "I < vbound m0" "I < vbound m1"
    using assms(2) grown_here(2)[OF g0(1)] grown_here(2)[OF g1(1)] grown_here(2)[OF g2(1)] by auto
  note g3 = grown_insert[OF grown_here(1)[OF g2(1)] m3 I2(1)]
  note g4 = grown_declaration[OF grown_here(1)[OF g3(1)] m4, where J = I, simplified]
  have I4: "I < vbound m3" "I < vbound m4" using I2 grown_here(2)[OF g3(1)] grown_here(2)[OF g4] by auto
  note g5 = grown_insert[OF grown_here(1)[OF g4] m5 I4(2)]
  have I5: "I < vbound m5" using I4 grown_here(2)[OF g5(1)] by simp
  note g6 = grown_insert[OF grown_here(1)[OF g5(1)] m6 I5]
  have I6: "I < vbound m6" using I5 grown_here(2)[OF g6(1)] by simp
  note g7 = grown_insert[OF grown_here(1)[OF g6(1)] m7 I6]
  have up: "vbound m0 \<le> vbound m1" "vbound m1 \<le> vbound m2" "vbound m2 \<le> vbound m3" "vbound m3 \<le> vbound m4"
    "vbound m4 \<le> vbound m5" "vbound m5 \<le> vbound m6" "vbound m6 \<le> vbound m7"
    using grown_here(2)[OF g1(1)] grown_here(2)[OF g2(1)] grown_here(2)[OF g3(1)] grown_here(2)[OF g4]
      grown_here(2)[OF g5(1)] grown_here(2)[OF g6(1)] grown_here(2)[OF g7(1)] by auto
  note t67 = grown_trans[OF g6(1) g7(1) I5]
  note t57 = grown_trans[OF g5(1) t67 I4(2)]
  note t47 = grown_trans[OF g4 t57 I4(1)]
  note t37 = grown_trans[OF g3(1) t47 I2(1)]
  note t27 = grown_trans[OF g2(1) t37 I2(3)]
  note t17 = grown_trans[OF g1(1) t27 I2(2)]
  note t07 = grown_trans[OF g0(1) t17 assms(2)]
  have f: "f < vbound m" using assms(1) by (simp add: here_def)
  have "vbound m \<le> vbound m0" by (rule grown_here(2)[OF g0(1)])
  then have "vals m7 e = ConstantExpr CGEP [stack, one] PtrTy" "vals m7 ei = ConstantExpr COtherExpr [e] (IntTy 64)"
    "vals m7 a = Inst ?a" "vals m7 b = Inst ?b" "vals m7 c = Inst ?c" "vals m7 d = Inst ?d"
    using grown_old[OF t27 g1(4)] grown_old[OF t37 g2(4)] grown_old[OF t47 g3(4)] grown_old[OF t67 g5(4)]
      grown_old[OF g7(1) g6(4)] g1(2,3) g2(2,3) g3(2,3) g5(2,3) g6(2,3) g7(3) f up by auto
  moreover have "e < vbound m7" "ei < vbound m7" "a < vbound m7" "b < vbound m7" "c < vbound m7" "d < vbound m7"
    using g1(4) g2(4) g3(4) g5(4) g6(4) g7(4) up by auto
  ultimately have "epilogue_at m7 stack sp OldSP [a, b, c, d] ei e one callee" by (simp add: epilogue_at_def)
  then have "epilogue m7 stack sp OldSP [a, b, c, d]" unfolding epilogue_def by blast
  with t07 run show ?thesis by auto
qed

text \<open>\<open>restored n m f R\<close>: the code right before \<open>R\<close> puts the stack pointer back; it is new, from address \<open>n\<close> on.\<close>

definition restored :: "nat \<Rightarrow> ir_module \<Rightarrow> nat \<Rightarrow> nat \<Rightarrow> nat \<Rightarrow> nat \<Rightarrow> nat \<Rightarrow> bool" where
  "restored n m f stack sp OldSP R \<longleftrightarrow> (\<exists>B \<in> set (fn_blocks (fn_of m f)). \<exists>pre E post.
     bb_insts B = pre @ E @ R # post \<and> set E \<subseteq> {n..} \<and> epilogue m stack sp OldSP E)"

lemma restored_mono: "restored n' m f stack sp OldSP R \<Longrightarrow> n \<le> n' \<Longrightarrow> restored n m f stack sp OldSP R"
  unfolding restored_def by (meson atLeast_iff atLeast_subset_iff subset_trans)

lemma restored_step:
  assumes "restored n m f stack sp OldSP R0" "here m f" "grown f m m1 R E1" "R < n" "R \<noteq> R0"
  shows "restored n m1 f stack sp OldSP R0"
proof -
  from assms(1) obtain B pre E post where i: "B \<in> set (fn_blocks (fn_of m f))" "bb_insts B = pre @ E @ R0 # post"
    "set E \<subseteq> {n..}" "epilogue m stack sp OldSP E"
    unfolding restored_def by blast
  have e: "epilogue m1 stack sp OldSP E" by (rule epilogue_mono[OF i(4) assms(2,3)])
  have B: "B\<lparr>bb_insts := put_before R E1 (bb_insts B)\<rparr> \<in> set (fn_blocks (fn_of m1 f))"
    using assms(3) i(1) by (simp add: grown_def insts_before_def)
  have "R \<notin> set E" using i(3) assms(4) by auto
  then have "put_before R E1 (bb_insts B) = (if R \<in> set pre then put_before R E1 pre @ E @ R0 # post
      else pre @ E @ R0 # put_before R E1 post)"
    using assms(5) by (simp add: i(2) put_before_append)
  then have "\<exists>pre' post'. bb_insts (B\<lparr>bb_insts := put_before R E1 (bb_insts B)\<rparr>) = pre' @ E @ R0 # post'"
    by (cases "R \<in> set pre") auto
  with e i(3) B show ?thesis unfolding restored_def by blast
qed

lemma restored_new:
  assumes "here m f" "R \<in> set (insts (fn_of m f))" "n \<le> vbound m"
  shows "restored n (restore_old_sp f stack sp OldSP R m) f stack sp OldSP R"
    "\<exists>E. grown f m (restore_old_sp f stack sp OldSP R m) R E"
proof -
  let ?m = "restore_old_sp f stack sp OldSP R m"
  have "R < vbound m" using assms(1,2) by (auto simp: here_def)
  from restore_old_sp_law[OF assms(1) this] obtain E where E: "grown f m ?m R E" "epilogue ?m stack sp OldSP E" by blast
  from assms(2) obtain B where B: "B \<in> set (fn_blocks (fn_of m f))" "R \<in> set (bb_insts B)" by (auto simp: in_insts)
  from split_list_first[OF B(2)] obtain pre post where i: "bb_insts B = pre @ R # post" "R \<notin> set pre" by blast
  have "B\<lparr>bb_insts := put_before R E (bb_insts B)\<rparr> \<in> set (fn_blocks (fn_of ?m f))"
    using E(1) B(1) by (simp add: grown_def insts_before_def)
  moreover have "bb_insts (B\<lparr>bb_insts := put_before R E (bb_insts B)\<rparr>) = pre @ E @ R # post"
    using i by (simp add: put_before_split)
  moreover have "set E \<subseteq> {n..}" using E(1) assms(3) by (fastforce simp: grown_def)
  ultimately show "restored n ?m f stack sp OldSP R" using E(2) unfolding restored_def by blast
  show "\<exists>E. grown f m ?m R E" using E(1) by blast
qed

lemma restore_all:
  assumes "here m f" "distinct Rs" "set Rs \<subseteq> set (insts (fn_of m f))" "set Rs \<subseteq> {..<n}" "n \<le> vbound m"
    "\<forall>R \<in> D. restored n m f stack sp OldSP R" "D \<inter> set Rs = {}" "hd (insts (fn_of m f)) \<notin> set Rs"
  shows "let m' = fold (restore_old_sp f stack sp OldSP) Rs m in here m' f \<and> vbound m \<le> vbound m' \<and>
    (\<forall>v < vbound m. v \<noteq> f \<longrightarrow> vals m' v = vals m v) \<and> (\<forall>R \<in> D \<union> set Rs. restored n m' f stack sp OldSP R) \<and>
    hd (insts (fn_of m' f)) = hd (insts (fn_of m f))"
  using assms
proof (induction Rs arbitrary: m D)
  case (Cons R Rs)
  let ?m = "restore_old_sp f stack sp OldSP R m"
  have R: "R \<in> set (insts (fn_of m f))" "R < n" using Cons.prems(3,4) by auto
  obtain E where g: "grown f m ?m R E" using restored_new(2)[OF Cons.prems(1) R(1) order_refl] by blast
  have ins: "insts (fn_of ?m f) = put_before R E (insts (fn_of m f))" using g by (simp add: grown_def)
  have D: "\<forall>Q \<in> insert R D. restored n ?m f stack sp OldSP Q"
  proof
    fix Q assume "Q \<in> insert R D"
    then show "restored n ?m f stack sp OldSP Q"
    proof
      assume "Q = R" then show ?thesis using restored_new(1)[OF Cons.prems(1) R(1) Cons.prems(5)] by simp
    next
      assume Q: "Q \<in> D"
      then have "R \<noteq> Q" using Cons.prems(7) by auto
      with Q Cons.prems(6) show ?thesis using restored_step[OF _ Cons.prems(1) g R(2)] by blast
    qed
  qed
  have hd: "hd (insts (fn_of ?m f)) = hd (insts (fn_of m f))"
    using Cons.prems(8) R(1) by (cases "insts (fn_of m f)") (auto simp: ins)
  have p: "distinct Rs" "set Rs \<subseteq> {..<n}" "n \<le> vbound ?m" "insert R D \<inter> set Rs = {}"
    using Cons.prems(2,4,5,7) grown_here(2)[OF g] by auto
  have sub: "set Rs \<subseteq> set (insts (fn_of ?m f))" using Cons.prems(3) by (auto simp: ins set_put_before)
  have hd': "hd (insts (fn_of ?m f)) \<notin> set Rs" using Cons.prems(8) by (simp add: hd)
  have IH: "let m' = fold (restore_old_sp f stack sp OldSP) Rs ?m in here m' f \<and> vbound ?m \<le> vbound m' \<and>
    (\<forall>v < vbound ?m. v \<noteq> f \<longrightarrow> vals m' v = vals ?m v) \<and> (\<forall>Q \<in> insert R D \<union> set Rs. restored n m' f stack sp OldSP Q) \<and>
    hd (insts (fn_of m' f)) = hd (insts (fn_of ?m f))"
    by (rule Cons.IH[OF grown_here(1)[OF g] p(1) sub p(2,3) D p(4) hd'])
  have old: "vals ?m v = vals m v" if "v < vbound m" "v \<noteq> f" for v using grown_old[OF g that] .
  show ?case using IH hd old grown_here(2)[OF g] by (auto simp: Let_def)
qed simp

subsection \<open>Asking twice\<close>

text \<open>The pass asks \<open>doesNotRecurse\<close> again after it has inserted code; it inserts no call that the question
  looks at, so the answer is the same.\<close>

definition same_calls :: "nat \<Rightarrow> ir_module \<Rightarrow> ir_module \<Rightarrow> bool" where
  "same_calls f m m' \<longleftrightarrow> vbound m \<le> vbound m' \<and> (\<forall>v < vbound m. v \<noteq> f \<longrightarrow> vals m' v = vals m v) \<and>
     (\<exists>F F'. vals m f = Function F \<and> vals m' f = Function F' \<and> fn_norecurse F' = fn_norecurse F \<and>
       isDeclaration F' = isDeclaration F \<and> filter (ext_call m') (insts F') = filter (ext_call m) (insts F))"

lemma same_calls_trans: "same_calls f m m1 \<Longrightarrow> same_calls f m1 m2 \<Longrightarrow> same_calls f m m2"
  unfolding same_calls_def by fastforce

lemma ext_call_old: "vals m' I = vals m I \<Longrightarrow> ext_call m' I = ext_call m I"
  by (simp add: ext_call_def isa_def is_inst_def ins_def intrinsic_id_def)

lemma same_calls_frame:
  assumes "here m f" "vbound m \<le> vbound m'" "\<And>v. v < vbound m \<Longrightarrow> vals m' v = vals m v"
  shows "same_calls f m m'"
proof -
  obtain F where F: "vals m f = Function F" "f < vbound m" using assms(1) by (auto simp: here_def)
  have "ext_call m' I = ext_call m I" if "I \<in> set (insts F)" for I
    using that assms(1,3) F by (intro ext_call_old) (auto simp: here_def fn_of_def)
  then have "filter (ext_call m') (insts F) = filter (ext_call m) (insts F)" by (rule filter_cong[OF refl])
  with assms(2,3) F show ?thesis by (auto simp: same_calls_def)
qed

lemma same_calls_insert:
  assumes "here m f" "insert_before f J i m = (m', a)" "J < vbound m" "opc i \<notin> set CallBase \<or> opc i = Call \<and> iid i \<noteq> None"
  shows "same_calls f m m'"
proof -
  note g = grown_insert[OF assms(1-3)]
  obtain F where F: "vals m f = Function F" "f < vbound m" using assms(1) by (auto simp: here_def)
  have fa: "f \<noteq> vbound m" using F(2) by simp
  note s = insert_before_simps[OF assms(2) fa]
  have F': "vals m' f = Function (F\<lparr>fn_blocks := insts_before J [a] (fn_blocks F)\<rparr>)"
    using assms(2) F by (auto simp: insert_before_def new_val_def update_blocks_def set_val_def fn_of_def)
  have new: "\<not> ext_call m' a"
    using assms(4) g(3) by (auto simp: ext_call_def isa_def is_inst_def ins_def intrinsic_id_def)
  have old: "ext_call m' I = ext_call m I" if "I \<in> set (insts F)" for I
    
  proof (rule ext_call_old)
    have "is_inst m I" "I < vbound m" using that assms(1) F by (auto simp: here_def fn_of_def)
    moreover have "I \<noteq> f" using calculation(1) F by (auto simp: is_inst_def)
    ultimately show "vals m' I = vals m I" using grown_old[OF g(1), of I] by simp
  qed
  have "filter (ext_call m') (put_before J [a] xs) = filter (ext_call m) xs" if "set xs \<subseteq> set (insts F)" for xs
    using that
  proof (induction xs)
    case (Cons x xs)
    have "filter (ext_call m') xs = filter (ext_call m) xs" using Cons.prems old by (intro filter_cong[OF refl]) auto
    with Cons show ?case by (auto simp: new old)
  qed simp
  moreover have "distinct (insts F)" using assms(1) F by (simp add: here_def fn_of_def)
  moreover have "isDeclaration (F\<lparr>fn_blocks := insts_before J [a] (fn_blocks F)\<rparr>) = isDeclaration F"
    by (simp add: isDeclaration_def insts_before_def)
  ultimately show ?thesis using g(1) F(1) F' unfolding same_calls_def grown_def
    by (simp add: insts_put_before)
qed

definition insts_bounded :: "ir_module \<Rightarrow> bool" where
  "insts_bounded m \<longleftrightarrow> (\<forall>v. vals m v \<noteq> Undef \<longrightarrow> v < vbound m) \<and>
     (\<forall>F. F \<in> {F. \<exists>g. vals m g = Function F} \<longrightarrow> (\<forall>I \<in> set (insts F). I < vbound m))"

lemma getCalledFunctionRec_same:
  assumes "same_calls f m m'" "insts_bounded m"
  shows "getCalledFunctionRec m n V = Inr r \<Longrightarrow> n \<le> n' \<Longrightarrow> getCalledFunctionRec m' n' V = Inr r"
proof (induction n arbitrary: V r n')
  case (Suc n)
  then obtain k where n': "n' = Suc k" "n \<le> k" by (cases n') auto
  from assms(1) obtain F F' where F: "vals m f = Function F" "vals m' f = Function F'" by (auto simp: same_calls_def)
  show ?case
  proof (cases "V = f")
    case True
    with Suc.prems(1) F show ?thesis by (simp add: n')
  next
    case False
    have "vals m V \<noteq> Undef" using Suc.prems(1) by auto
    with assms False have "vals m' V = vals m V" by (simp add: same_calls_def insts_bounded_def)
    with Suc.prems(1) Suc.IH[OF _ n'(2)] show ?thesis
      by (auto simp: n' split: vdesc.splits constexpr.splits if_splits)
  qed
qed simp

lemma all_of_st_filter:
  "all_of_st (dnr_step m n) xs s = all_of_st (dnr_step m n) (filter (ext_call m) xs) s"
proof (induction xs arbitrary: s)
  case (Cons I xs)
  have "(\<lambda>(b, s'). if b then all_of_st (dnr_step m n) xs s' else Inr (False, s')) =
    (\<lambda>(b, s'). if b then all_of_st (dnr_step m n) (filter (ext_call m) xs) s' else Inr (False, s'))"
    using Cons.IH by (auto simp: fun_eq_iff)
  moreover have "dnr_step m n I s = Inr (True, s)" if "\<not> ext_call m I" using that by (simp add: dnr_step_def)
  ultimately show ?case using Cons.IH by (cases "ext_call m I") (simp_all del: bindr_eq_Inr)
qed simp

lemma all_of_st_same:
  assumes "\<And>I s r. I \<in> set xs \<Longrightarrow> p I s = Inr r \<Longrightarrow> p' I s = Inr r"
  shows "all_of_st p xs s = Inr r \<Longrightarrow> all_of_st p' xs s = Inr r"
  using assms
proof (induction xs arbitrary: s)
  case (Cons I xs)
  from Cons.prems(1) obtain b s1 where s1: "p I s = Inr (b, s1)"
    "(if b then all_of_st p xs s1 else Inr (False, s1)) = Inr r" by (auto simp: bindr_eq_Inr)
  have "p' I s = Inr (b, s1)" using Cons.prems(2) s1(1) by simp
  moreover have "b \<Longrightarrow> all_of_st p' xs s1 = Inr r" using Cons.IH[of s1] Cons.prems(2) s1(2) by simp
  ultimately show ?case using s1(2) by auto
qed simp

lemma doesNotRecurseRec_same:
  assumes "same_calls f m m'" "insts_bounded m"
  shows "doesNotRecurseRec m n g seen = Inr r \<Longrightarrow> \<exists>G. vals m g = Function G \<Longrightarrow> n \<le> n' \<Longrightarrow>
    doesNotRecurseRec m' n' g seen = Inr r"
proof (induction n arbitrary: g seen r n')
  case (Suc n)
  then obtain k where n': "n' = Suc k" "n \<le> k" by (cases n') auto
  from Suc.prems(2) obtain G where G: "vals m g = Function G" by blast
  have step: "dnr_step m' k I s = Inr q" if I: "I \<in> set (filter (ext_call m) (insts G))" and q: "dnr_step m n I s = Inr q" for I s q
  proof -
    have ext: "ext_call m I" and lt: "I < vbound m" using I G assms(2) by (auto simp: insts_bounded_def)
    have "I \<noteq> f" using ext assms(1) by (auto simp: same_calls_def ext_call_def isa_def is_inst_def)
    then have v: "vals m' I = vals m I" using lt assms(1) by (simp add: same_calls_def)
    from ext q obtain callee where c: "getCalledFunction m I = Inr callee"
      "(case callee of None \<Rightarrow> Inr (False, s) | Some h \<Rightarrow> doesNotRecurseRec m n h s) = Inr q"
      by (auto simp: dnr_step_def bindr_eq_Inr)
    have "vbound m \<le> vbound m'" using assms(1) by (simp add: same_calls_def)
    then have c': "getCalledFunction m' I = Inr callee"
      using getCalledFunctionRec_same[OF assms, of "Suc (vbound m)" "getCalledOperand (ins m I)" callee "Suc (vbound m')"] c(1) v
      by (simp add: getCalledFunction_def ins_def)
    have "doesNotRecurseRec m' k h s = Inr q" if h: "callee = Some h" for h
      using Suc.IH[of h s q k] c h n'(2) getCalledFunctionRec_function unfolding getCalledFunction_def by fastforce
    with c(2) c' ext show ?thesis
      by (cases callee) (auto simp: dnr_step_def ext_call_old[OF v])
  qed
  from assms(1) have "\<exists>G'. vals m' g = Function G' \<and> fn_norecurse G' = fn_norecurse G \<and>
      isDeclaration G' = isDeclaration G \<and> filter (ext_call m') (insts G') = filter (ext_call m) (insts G)"
  proof (cases "g = f")
    case False
    have "g < vbound m" using assms(2) G by (simp add: insts_bounded_def)
    with False assms(1) have v: "vals m' g = Function G" by (simp add: same_calls_def G)
    have "ext_call m' I = ext_call m I" if "I \<in> set (insts G)" for I
    proof (cases "I = f")
      case True
      with assms(1) show ?thesis by (auto simp: same_calls_def ext_call_def isa_def is_inst_def)
    next
      case False
      with that G assms show ?thesis by (intro ext_call_old) (auto simp: same_calls_def insts_bounded_def)
    qed
    then have "filter (ext_call m') (insts G) = filter (ext_call m) (insts G)" by (rule filter_cong[OF refl])
    with v show ?thesis by simp
  next
    case True
    from assms(1) obtain F F' where F: "vals m f = Function F" "vals m' f = Function F'" "fn_norecurse F' = fn_norecurse F"
      "isDeclaration F' = isDeclaration F" "filter (ext_call m') (insts F') = filter (ext_call m) (insts F)"
      unfolding same_calls_def by blast
    with G True show ?thesis by simp
  qed
  then obtain G' where G': "fn_of m' g = G'" "fn_norecurse G' = fn_norecurse G"
    "isDeclaration G' = isDeclaration G" "filter (ext_call m') (insts G') = filter (ext_call m) (insts G)"
    by (auto simp: fn_of_def)
  have "all_of_st (dnr_step m n) (insts G) s = Inr r \<Longrightarrow> all_of_st (dnr_step m' k) (insts G') s = Inr r" for s
    using all_of_st_same[of "filter (ext_call m) (insts G)" "dnr_step m n" "dnr_step m' k", OF step] all_of_st_filter[of m n "insts G" s] all_of_st_filter[of m' k "insts G'" s] G'(4) by simp
  then show ?case using Suc.prems(1) G G' by (simp add: n' doesNotRecurseRec_Suc fn_of_def split: if_splits)
qed simp

lemma doesNotRecurse_same:
  assumes "same_calls f m m'" "insts_bounded m" "doesNotRecurse m f = Inr b"
  shows "doesNotRecurse m' f = Inr b"
proof -
  from assms(3) obtain seen where r: "doesNotRecurseRec m (Suc (vbound m)) f {} = Inr (b, seen)"
    by (auto simp: doesNotRecurse_def bindr_eq_Inr)
  have "vbound m \<le> vbound m'" "\<exists>F. vals m f = Function F" using assms(1) by (auto simp: same_calls_def)
  with doesNotRecurseRec_same[OF assms(1,2) r] show ?thesis by (simp add: doesNotRecurse_def)
qed

subsection \<open>The pass\<close>

text \<open>Publishing the new stack pointer.\<close>

lemma save_new_sp_law:
  assumes "here m f" "J < vbound m"
  shows "\<exists>xs. grown f m (save_new_sp f J sp m) J xs" "same_calls f m (save_new_sp f J sp m)"
proof -
  obtain m1 MDV where m1: "new_val MetadataAsValue m = (m1, MDV)" by (cases "new_val MetadataAsValue m")
  obtain m2 callee where m2: "getOrInsertFunction ''llvm.read_register.i64'' m1 = (m2, callee)"
    by (cases "getOrInsertFunction ''llvm.read_register.i64'' m1")
  let ?a = "inst0\<lparr>opc := Call, ity := IntTy 64, iid := Some In_read_register, nargs := 1, operands := [MDV, callee]\<rparr>"
  obtain m3 rsp where m3: "insert_before f J ?a m2 = (m3, rsp)" by (cases "insert_before f J ?a m2")
  let ?b = "inst0\<lparr>opc := IntToPtr, ity := PtrTy, operands := [rsp]\<rparr>"
  obtain m4 NewSP where m4: "insert_before f J ?b m3 = (m4, NewSP)" by (cases "insert_before f J ?b m3")
  let ?c = "inst0\<lparr>opc := Store, operands := [NewSP, sp]\<rparr>"
  obtain m5 x where m5: "insert_before f J ?c m4 = (m5, x)" by (cases "insert_before f J ?c m4")
  have run: "save_new_sp f J sp m = m5" by (simp only: save_new_sp_def m1 m2 m3 m4 m5 prod.case fst_conv)
  note g1 = grown_new_val(1)[OF assms(1) m1, where J = J]
  note g2 = grown_declaration[OF grown_here(1)[OF g1] m2, where J = J, simplified]
  have J: "J < vbound m1" "J < vbound m2" using assms(2) grown_here(2)[OF g1] grown_here(2)[OF g2] by auto
  note g3 = grown_insert(1)[OF grown_here(1)[OF g2] m3 J(2)]
  have J3: "J < vbound m3" using J grown_here(2)[OF g3] by simp
  note g4 = grown_insert(1)[OF grown_here(1)[OF g3] m4 J3]
  have J4: "J < vbound m4" using J3 grown_here(2)[OF g4] by simp
  note g5 = grown_insert(1)[OF grown_here(1)[OF g4] m5 J4]
  from grown_trans[OF g1 grown_trans[OF g2 grown_trans[OF g3 grown_trans[OF g4 g5 J3] J(2)] J(1)] assms(2)] run
  show "\<exists>xs. grown f m (save_new_sp f J sp m) J xs" by auto
  have s1: "same_calls f m m1"
    using grown_old[OF g1] m1 by (intro same_calls_frame[OF assms(1) grown_here(2)[OF g1]]) (auto simp: new_val_def)
  have s2: "same_calls f m1 m2"
    by (rule same_calls_frame[OF grown_here(1)[OF g1] grown_here(2)[OF g2]]) (rule getOrInsertFunction_law(1)[OF m2])
  have s3: "same_calls f m2 m3" by (rule same_calls_insert[OF grown_here(1)[OF g2] m3 J(2)]) simp
  have s4: "same_calls f m3 m4" by (rule same_calls_insert[OF grown_here(1)[OF g3] m4 J3]) simp
  have s5: "same_calls f m4 m5" by (rule same_calls_insert[OF grown_here(1)[OF g4] m5 J4]) simp
  show "same_calls f m (save_new_sp f J sp m)"
    unfolding run by (rule same_calls_trans[OF s1 same_calls_trans[OF s2 same_calls_trans[OF s3 same_calls_trans[OF s4 s5]]]])
qed

lemma put_before_hd: "xs \<noteq> [] \<Longrightarrow> hd xs \<noteq> J \<Longrightarrow> hd (put_before J ys xs) = hd xs"
  by (cases xs) auto

lemma last_in_insts: "B \<in> set (fn_blocks F) \<Longrightarrow> bb_insts B \<noteq> [] \<Longrightarrow> last (bb_insts B) \<in> set (insts F)"
  unfolding in_insts by (meson last_in_set)

lemma fls_returns_ends:
  assumes "\<forall>B \<in> set (fn_blocks (fn_of m f)). bb_insts B \<noteq> []"
  shows "set (fls_returns m f) \<subseteq> set (insts (fn_of m f))"
    "distinct (insts (fn_of m f)) \<Longrightarrow> distinct (fls_returns m f)"
proof -
  show "set (fls_returns m f) \<subseteq> set (insts (fn_of m f))" using assms last_in_insts by (auto simp: fls_returns_def)
  have "distinct (concat (map bb_insts Bs)) \<Longrightarrow> distinct (map (\<lambda>B. last (bb_insts B)) Bs)"
    if "\<forall>B \<in> set Bs. bb_insts B \<noteq> []" for Bs
    using that
  proof (induction Bs)
    case (Cons B Bs)
    have "last (bb_insts B) \<in> set (bb_insts B)" "\<And>B'. B' \<in> set Bs \<Longrightarrow> last (bb_insts B') \<in> set (bb_insts B')"
      using Cons.prems(2) by auto
    with Cons show ?case by (fastforce simp: disjoint_iff)
  qed simp
  then show "distinct (insts (fn_of m f)) \<Longrightarrow> distinct (fls_returns m f)"
    using assms unfolding fls_returns_def insts_def by (intro distinct_filter) blast
qed

lemma fls_returns_grown:
  assumes "here m f" "grown f m m' J xs" "\<forall>B \<in> set (fn_blocks (fn_of m f)). bb_insts B \<noteq> []"
  shows "fls_returns m' f = fls_returns m f" "\<forall>B \<in> set (fn_blocks (fn_of m' f)). bb_insts B \<noteq> []"
proof -
  have bl: "fn_blocks (fn_of m' f) = insts_before J xs (fn_blocks (fn_of m f))" using assms(2) by (simp add: grown_def)
  show "\<forall>B \<in> set (fn_blocks (fn_of m' f)). bb_insts B \<noteq> []" using assms(3) by (auto simp: bl insts_before_def)
  have "isa m' (last (bb_insts B)) [Ret] = isa m (last (bb_insts B)) [Ret]" if "B \<in> set (fn_blocks (fn_of m f))" for B
  proof -
    have "last (bb_insts B) \<in> set (insts (fn_of m f))" using that assms(3) by (intro last_in_insts) auto
    then have I: "is_inst m (last (bb_insts B))" "last (bb_insts B) < vbound m" using assms(1) by (auto simp: here_def)
    then have "last (bb_insts B) \<noteq> f" using assms(1) by (auto simp: here_def is_inst_def)
    with I(2) grown_old[OF assms(2)] show ?thesis by (simp add: isa_def is_inst_def ins_def)
  qed
  moreover have "map (\<lambda>B. last (bb_insts B)) (insts_before J xs Bs) = map (\<lambda>B. last (bb_insts B)) Bs"
    if "\<forall>B \<in> set Bs. bb_insts B \<noteq> []" for Bs
    using that by (induction Bs) (auto simp: insts_before_def)
  ultimately show "fls_returns m' f = fls_returns m f"
    using assms(3) by (auto simp: fls_returns_def bl intro!: filter_cong)
qed

text \<open>Where the outer activation is saved, every return puts it back.\<close>

lemma fls_law:
  assumes hr: "here m f" and ib: "insts_bounded m" and ne: "\<forall>B \<in> set (fn_blocks (fn_of m f)). bb_insts B \<noteq> []"
    and i0: "insts (fn_of m f) \<noteq> []" and sv: "shouldRestoreOldSP m f = Inr True"
    and run: "fls_stack_pointer f stack sp m = Inr m'"
  shows "hd (insts (fn_of m' f)) = vbound m" "\<forall>v < vbound m. v \<noteq> f \<longrightarrow> vals m' v = vals m v"
    "vals m' (vbound m) = Inst (inst0\<lparr>opc := Load, ity := PtrTy, operands := [sp]\<rparr>)"
    "\<forall>R \<in> set (fls_returns m f). restored (vbound m) m' f stack sp (vbound m) R"
proof -
  define J where "J = entry_inst (fn_of m f)"
  have J: "J = hd (insts (fn_of m f))" "J \<in> set (insts (fn_of m f))" "J < vbound m"
    using i0 hr by (auto simp: J_def entry_inst_def here_def split: list.splits)
  let ?load = "inst0\<lparr>opc := Load, ity := PtrTy, operands := [sp]\<rparr>"
  obtain m1 OldSP where m1: "insert_before f J ?load m = (m1, OldSP)" by (cases "insert_before f J ?load m")
  note g1 = grown_insert[OF hr m1 J(3)]
  have s1: "same_calls f m m1" by (rule same_calls_insert[OF hr m1 J(3)]) simp
  from run obtain save where save: "shouldSaveNewSP m1 f = Inr save"
    by (auto simp: fls_stack_pointer_def sv J_def[symmetric] m1 Let_def bindr_eq_Inr)
  define m2 where "m2 = (if save then save_new_sp f J sp m1 else m1)"
  have J1: "J < vbound m1" using J(3) grown_here(2)[OF g1(1)] by simp
  obtain xs where g2: "grown f m1 m2 J xs" and s2: "same_calls f m1 m2"
  proof (cases save)
    case True
    with save_new_sp_law[OF grown_here(1)[OF g1(1)] J1] that show ?thesis by (auto simp: m2_def)
  next
    case False
    have "grown f m1 m1 J []" using grown_here(1)[OF g1(1)] by (simp add: grown_def)
    moreover have "same_calls f m1 m1" by (rule same_calls_frame[OF grown_here(1)[OF g1(1)]]) simp_all
    ultimately show ?thesis using that False by (simp add: m2_def)
  qed
  have sv2: "shouldRestoreOldSP m2 f = Inr True"
  proof -
    have "doesNotRecurse m f = Inr False" using sv by (cases "doesNotRecurse m f") (auto simp: shouldRestoreOldSP_def not_res_def)
    from doesNotRecurse_same[OF same_calls_trans[OF s1 s2] ib this] show ?thesis by (simp add: shouldRestoreOldSP_def not_res_def)
  qed
  note g12 = grown_trans[OF g1(1) g2 J(3)]
  have rets: "fls_returns m2 f = fls_returns m f" "\<forall>B \<in> set (fn_blocks (fn_of m2 f)). bb_insts B \<noteq> []"
    by (rule fls_returns_grown[OF hr g12 ne])+
  have m': "m' = fold (restore_old_sp f stack sp OldSP) (fls_returns m f) m2"
    using run sv2 by (simp add: fls_stack_pointer_def sv J_def[symmetric] m1 save Let_def m2_def[symmetric] rets)
  have h2: "here m2 f" by (rule grown_here(1)[OF g12])
  have "insts (fn_of m2 f) = put_before J (OldSP # xs) (insts (fn_of m f))" using g12 by (simp add: grown_def)
  then have hd2: "hd (insts (fn_of m2 f)) = OldSP" using J(1) i0 by (cases "insts (fn_of m f)") auto
  have old2: "vals m2 OldSP = Inst ?load"
    using grown_old[OF g2 g1(4)] g1(2,3) hr by (auto simp: here_def)
  have sub: "set (fls_returns m f) \<subseteq> set (insts (fn_of m2 f))" "distinct (fls_returns m f)"
    using fls_returns_ends[OF rets(2)] h2 by (simp_all add: rets(1) here_def)
  have "OldSP \<notin> set (fls_returns m f)"
    unfolding rets(1)[symmetric] using old2 by (auto simp: fls_returns_def isa_def ins_def)
  moreover have "set (fls_returns m f) \<subseteq> {..<vbound m2}" using sub(1) h2 by (auto simp: here_def)
  ultimately have law: "here m' f \<and> vbound m2 \<le> vbound m' \<and> (\<forall>v < vbound m2. v \<noteq> f \<longrightarrow> vals m' v = vals m2 v) \<and>
      (\<forall>R \<in> set (fls_returns m f). restored (vbound m2) m' f stack sp OldSP R) \<and> hd (insts (fn_of m' f)) = OldSP"
    using restore_all[OF h2 sub(2,1) _ order_refl, of "{}" stack sp OldSP] by (simp add: m' Let_def hd2)
  have a: "OldSP = vbound m" "vbound m \<le> vbound m2" "OldSP < vbound m2" "OldSP \<noteq> f"
    using g1(2,4) grown_here(2)[OF g12] grown_here(2)[OF g2] hr by (auto simp: here_def)
  show "hd (insts (fn_of m' f)) = vbound m" using law a(1) by simp
  show "\<forall>v < vbound m. v \<noteq> f \<longrightarrow> vals m' v = vals m v" using law a(2) grown_old[OF g12] by auto
  show "vals m' (vbound m) = Inst ?load" using law a(3,4) old2 by (simp add: a(1))
  have "\<forall>R \<in> set (fls_returns m f). restored (vbound m) m' f stack sp OldSP R" using law restored_mono[OF _ a(2)] by blast
  then show "\<forall>R \<in> set (fls_returns m f). restored (vbound m) m' f stack sp (vbound m) R" by (simp only: a(1))
qed

end
