(* ===== verification/StackInit.thy ===== *)
theory StackInit
  imports Insertion
begin

text \<open>
  \<open>src/StackInitPass.cc\<close>: every alloca is filled with zeros by code right after it. \<open>size_of\<close> is
  \<open>getTypeAllocSize\<close> of the allocated type. The loop of the code also visits what it inserts, which are
  no allocas.
\<close>

definition getArraySize :: "ir_module \<Rightarrow> nat \<Rightarrow> nat" where
  "getArraySize m AI = opnd (ins m AI) 0"

definition isArrayAllocation :: "ir_module \<Rightarrow> nat \<Rightarrow> bool" where
  "isArrayAllocation m AI = (case vals m (getArraySize m AI) of ConstantInt n _ \<Rightarrow> n \<noteq> 1 | _ \<Rightarrow> True)"

definition isIntOrPtrTy :: "ty \<Rightarrow> bool" where
  "isIntOrPtrTy t = (case t of IntTy _ \<Rightarrow> True | PtrTy \<Rightarrow> True | _ \<Rightarrow> False)"

definition getNullValue :: "ty \<Rightarrow> vdesc" where
  "getNullValue t = (case t of IntTy _ \<Rightarrow> ConstantInt 0 t | _ \<Rightarrow> ConstantData t)"

text \<open>The builder folds a product of constants, and a cast of a pointer that is an \<open>i8\<close> pointer already.\<close>

definition CreateMul :: "nat \<Rightarrow> nat \<Rightarrow> nat \<Rightarrow> nat \<Rightarrow> ir_module \<Rightarrow> ir_module \<times> nat" where
  "CreateMul f J a b m = (case (vals m a, vals m b) of
      (ConstantInt x t, ConstantInt y _) \<Rightarrow> new_val (ConstantInt (x * y mod 2 ^ 64) t) m
    | _ \<Rightarrow> insert_before f J (inst0\<lparr>opc := OtherBinary, ity := IntTy 64, operands := [a, b]\<rparr>) m)"

definition CreateBitCast :: "nat \<Rightarrow> nat \<Rightarrow> nat \<Rightarrow> ir_module \<Rightarrow> ir_module \<times> nat" where
  "CreateBitCast f J AI m = (if alloc_ty (ins m AI) = IntTy 8 then (m, AI)
     else insert_before f J (inst0\<lparr>opc := BitCast, ity := PtrTy, operands := [AI]\<rparr>) m)"

definition memset_call :: "nat \<Rightarrow> nat \<Rightarrow> nat \<Rightarrow> nat \<Rightarrow> nat \<Rightarrow> inst" where
  "memset_call Ptr Zero Size isVolatile callee = inst0\<lparr>opc := Call, iid := Some In_memset, nargs := 4,
     operands := [Ptr, Zero, Size, isVolatile, callee]\<rparr>"

definition CreateMemSet :: "nat \<Rightarrow> nat \<Rightarrow> nat \<Rightarrow> nat \<Rightarrow> nat \<Rightarrow> ir_module \<Rightarrow> ir_module" where
  "CreateMemSet f J Ptr Zero Size m =
     (case new_val (ConstantInt 1 (IntTy 1)) m of (m1, isVolatile) \<Rightarrow>
      case getOrInsertFunction ''llvm.memset.p0i8.i64'' m1 of (m2, callee) \<Rightarrow>
        fst (insert_before f J (memset_call Ptr Zero Size isVolatile callee) m2))"

definition si_alloca :: "(ty \<Rightarrow> nat) \<Rightarrow> nat \<Rightarrow> nat \<Rightarrow> ir_module \<Rightarrow> ir_module" where
  "si_alloca size_of f AI m =
     (let T = alloc_ty (ins m AI); J = (case next_in (insts (fn_of m f)) AI of Some J \<Rightarrow> J | None \<Rightarrow> null) in
      case new_val (ConstantInt (int (size_of T)) (IntTy 64)) m of (m1, EltSize) \<Rightarrow>
      if isArrayAllocation m AI then
        (case new_val (ConstantInt 0 (IntTy 8)) m1 of (m2, Zero) \<Rightarrow>
         case CreateMul f J EltSize (getArraySize m AI) m2 of (m3, Size) \<Rightarrow>
         case CreateBitCast f J AI m3 of (m4, Ptr) \<Rightarrow> CreateMemSet f J Ptr Zero Size m4)
      else if isIntOrPtrTy T then
        (case new_val (getNullValue T) m1 of (m2, Zero) \<Rightarrow>
          fst (insert_before f J (inst0\<lparr>opc := Store, operands := [Zero, AI], volatile := True\<rparr>) m2))
      else
        (case new_val (ConstantInt 0 (IntTy 8)) m1 of (m2, Zero) \<Rightarrow>
         case CreateBitCast f J AI m2 of (m3, Ptr) \<Rightarrow> CreateMemSet f J Ptr Zero EltSize m3))"

definition si_runOnFunction :: "(ty \<Rightarrow> nat) \<Rightarrow> nat \<Rightarrow> ir_module \<Rightarrow> ir_module \<times> bool" where
  "si_runOnFunction size_of f m =
     (let orig_icount = length (insts (fn_of m f));
          m' = fold (si_alloca size_of f) (insts_of m (fn_of m f) [Alloca]) m
      in (m', length (insts (fn_of m' f)) \<noteq> orig_icount))"

subsection \<open>What follows an alloca\<close>

text \<open>\<open>zeroes m f elt AI x\<close>: \<open>x\<close> is a volatile write of zeros over the memory of \<open>AI\<close>, a store of the null
  value of the type or a \<open>memset\<close> of the whole size.\<close>

definition same_pointer :: "ir_module \<Rightarrow> nat \<Rightarrow> nat \<Rightarrow> bool" where
  "same_pointer m AI p \<longleftrightarrow> p = AI \<or> vals m p = Inst (inst0\<lparr>opc := BitCast, ity := PtrTy, operands := [AI]\<rparr>)"

definition whole_size :: "ir_module \<Rightarrow> nat \<Rightarrow> nat \<Rightarrow> nat \<Rightarrow> bool" where
  "whole_size m elt AI S \<longleftrightarrow>
     (if isArrayAllocation m AI then \<exists>e. vals m e = ConstantInt (int elt) (IntTy 64) \<and> e < vbound m \<and>
        ((\<exists>n t. vals m (getArraySize m AI) = ConstantInt n t \<and> vals m S = ConstantInt (int elt * n mod 2 ^ 64) (IntTy 64)) \<or>
         vals m S = Inst (inst0\<lparr>opc := OtherBinary, ity := IntTy 64, operands := [e, getArraySize m AI]\<rparr>))
      else vals m S = ConstantInt (int elt) (IntTy 64))"

inductive zeroes :: "ir_module \<Rightarrow> nat \<Rightarrow> nat \<Rightarrow> nat \<Rightarrow> bool" for m elt AI where
  zeroes_store: "zeroes m elt AI x"
    if "vals m x = Inst (inst0\<lparr>opc := Store, operands := [Z, AI], volatile := True\<rparr>)" "x < vbound m"
      "vals m Z = getNullValue (alloc_ty (ins m AI))" "Z < vbound m" "\<not> isArrayAllocation m AI"
| zeroes_memset: "zeroes m elt AI x"
    if "vals m x = Inst (memset_call P Z S V callee)" "x < vbound m" "same_pointer m AI P" "P < vbound m"
      "vals m Z = ConstantInt 0 (IntTy 8)" "Z < vbound m" "vals m V = ConstantInt 1 (IntTy 1)" "V < vbound m"
      "whole_size m elt AI S" "S < vbound m"

definition alloca_ok :: "ir_module \<Rightarrow> nat \<Rightarrow> nat \<Rightarrow> bool" where
  "alloca_ok m f AI \<longleftrightarrow> is_inst m AI \<and> AI < vbound m \<and> getArraySize m AI < vbound m \<and> getArraySize m AI \<noteq> f"

lemma alloca_old:
  assumes "here m f" "grown f m m' J xs" "alloca_ok m f AI"
  shows "vals m' AI = vals m AI" "ins m' AI = ins m AI" "getArraySize m' AI = getArraySize m AI"
    "vals m' (getArraySize m AI) = vals m (getArraySize m AI)" "isArrayAllocation m' AI = isArrayAllocation m AI"
    "alloca_ok m' f AI"
proof -
  have f: "AI \<noteq> f" using assms(1,3) by (auto simp: here_def alloca_ok_def is_inst_def)
  with grown_old[OF assms(2)] assms(3) show v: "vals m' AI = vals m AI" by (simp add: alloca_ok_def)
  then show i: "ins m' AI = ins m AI" by (simp add: ins_def)
  then show g: "getArraySize m' AI = getArraySize m AI" by (simp add: getArraySize_def)
  show w: "vals m' (getArraySize m AI) = vals m (getArraySize m AI)"
    using grown_old[OF assms(2)] assms(3) by (simp add: alloca_ok_def)
  then show "isArrayAllocation m' AI = isArrayAllocation m AI" by (simp add: isArrayAllocation_def g)
  show "alloca_ok m' f AI" using assms(3) v grown_here(2)[OF assms(2)] by (simp add: alloca_ok_def g is_inst_def)
qed

text \<open>A write that is there stays there.\<close>

lemma grown_keeps:
  assumes "here m f" "grown f m m' J xs" "v < vbound m" "vals m v = d" "\<forall>F. d \<noteq> Function F"
  shows "vals m' v = d" "v < vbound m'"
proof -
  have "v \<noteq> f" using assms(1,4,5) by (auto simp: here_def)
  with grown_old[OF assms(2,3)] grown_here(2)[OF assms(2)] assms(3,4) show "vals m' v = d" "v < vbound m'" by auto
qed

lemma whole_size_grown:
  assumes "whole_size m elt AI S" "S < vbound m" and h: "here m f" and g: "grown f m m' J xs" and ok: "alloca_ok m f AI"
  shows "whole_size m' elt AI S"
proof (cases "isArrayAllocation m AI")
  case True
  with assms(1) obtain e where e: "vals m e = ConstantInt (int elt) (IntTy 64)" "e < vbound m"
    "(\<exists>n t. vals m (getArraySize m AI) = ConstantInt n t \<and> vals m S = ConstantInt (int elt * n mod 2 ^ 64) (IntTy 64)) \<or>
     vals m S = Inst (inst0\<lparr>opc := OtherBinary, ity := IntTy 64, operands := [e, getArraySize m AI]\<rparr>)"
    by (auto simp: whole_size_def)
  have "vals m' S = vals m S" using e(3) grown_keeps(1)[OF h g assms(2)] by auto
  with e grown_keeps[OF h g e(2,1)] True alloca_old(3-5)[OF h g ok] show ?thesis by (auto simp: whole_size_def)
next
  case False
  with assms(1,2) grown_keeps(1)[OF h g] alloca_old(5)[OF h g ok] show ?thesis by (simp add: whole_size_def)
qed

lemma same_pointer_grown:
  "same_pointer m AI P \<Longrightarrow> P < vbound m \<Longrightarrow> here m f \<Longrightarrow> grown f m m' J xs \<Longrightarrow> same_pointer m' AI P"
  using grown_keeps(1)[of m f m' J xs P] by (auto simp: same_pointer_def)

lemma zeroes_grown:
  assumes "zeroes m elt AI x" and h: "here m f" and g: "grown f m m' J xs" and ok: "alloca_ok m f AI"
  shows "zeroes m' elt AI x"
  using assms(1)
proof cases
  case (zeroes_store Z)
  note k = grown_keeps[OF h g]
  have "\<forall>F. getNullValue t \<noteq> Function F" for t by (auto simp: getNullValue_def split: ty.splits)
  with k[OF zeroes_store(4,3)] k[OF zeroes_store(2,1)] zeroes_store(5) alloca_old[OF h g ok] show ?thesis
    by (intro zeroes.zeroes_store) auto
next
  case (zeroes_memset P Z S V callee)
  note k = grown_keeps[OF h g]
  have P: "same_pointer m' AI P" by (rule same_pointer_grown[OF zeroes_memset(3,4) h g])
  have S: "whole_size m' elt AI S" by (rule whole_size_grown[OF zeroes_memset(9,10) h g ok])
  show ?thesis
    using k[OF zeroes_memset(2,1)] k[OF zeroes_memset(6,5)] k[OF zeroes_memset(8,7)] P S
      zeroes_memset(4,10) grown_here(2)[OF g]
    by (intro zeroes.zeroes_memset[of m' x P Z S V callee]) auto
qed

subsection \<open>One alloca\<close>

lemma grown_insts: "grown f m m' J xs \<Longrightarrow> set (insts (fn_of m f)) \<subseteq> set (insts (fn_of m' f))"
  by (auto simp: grown_def set_put_before)

lemma grown_refl: "here m f \<Longrightarrow> grown f m m J []"
  by (simp add: grown_def)

lemma CreateMul_law:
  assumes h: "here m f" and J: "J < vbound m" and ok: "alloca_ok m f AI" and arr: "isArrayAllocation m AI"
    and e: "vals m e = ConstantInt (int elt) (IntTy 64)" "e < vbound m"
    and run: "CreateMul f J e (getArraySize m AI) m = (m', S)"
  shows "(\<exists>xs. grown f m m' J xs) \<and> whole_size m' elt AI S \<and> S < vbound m'"
proof (cases "\<exists>n t. vals m (getArraySize m AI) = ConstantInt n t")
  case True
  then obtain n t where n: "vals m (getArraySize m AI) = ConstantInt n t" by blast
  with run e have nv: "new_val (ConstantInt (int elt * n mod 2 ^ 64) (IntTy 64)) m = (m', S)" by (simp add: CreateMul_def)
  note g = grown_new_val(1)[OF h nv, where J = J] grown_new_val(2-4)[OF h nv]
  note a = alloca_old[OF h g(1) ok] and k = grown_keeps[OF h g(1) e(2,1)]
  have "whole_size m' elt AI S" using arr a(3-5) n g(3) k by (auto simp: whole_size_def)
  with g(1,4) show ?thesis by blast
next
  case False
  with run e have i: "insert_before f J (inst0\<lparr>opc := OtherBinary, ity := IntTy 64, operands := [e, getArraySize m AI]\<rparr>) m = (m', S)"
    by (auto simp: CreateMul_def split: vdesc.splits)
  note g = grown_insert[OF h i J]
  note a = alloca_old[OF h g(1) ok] and k = grown_keeps[OF h g(1) e(2,1)]
  have "whole_size m' elt AI S" using arr a(3,5) g(3) k by (auto simp: whole_size_def)
  with g(1,4) show ?thesis by blast
qed

lemma CreateBitCast_law:
  assumes "here m f" "J < vbound m" "alloca_ok m f AI" "CreateBitCast f J AI m = (m', P)"
  shows "(\<exists>xs. grown f m m' J xs) \<and> same_pointer m' AI P \<and> P < vbound m'"
proof (cases "alloc_ty (ins m AI) = IntTy 8")
  case True
  with assms(3,4) grown_refl[OF assms(1)] show ?thesis by (auto simp: CreateBitCast_def same_pointer_def alloca_ok_def)
next
  case False
  with assms(4) have i: "insert_before f J (inst0\<lparr>opc := BitCast, ity := PtrTy, operands := [AI]\<rparr>) m = (m', P)"
    by (simp add: CreateBitCast_def)
  from grown_insert[OF assms(1) i assms(2)] show ?thesis by (auto simp: same_pointer_def)
qed

lemma CreateMemSet_law:
  assumes h: "here m f" and J: "J < vbound m" and ok: "alloca_ok m f AI"
    and P: "same_pointer m AI P" "P < vbound m" and Z: "vals m Z = ConstantInt 0 (IntTy 8)" "Z < vbound m"
    and S: "whole_size m elt AI S" "S < vbound m"
  shows "\<exists>xs x. grown f m (CreateMemSet f J P Z S m) J xs \<and> x \<in> set xs \<and> zeroes (CreateMemSet f J P Z S m) elt AI x"
proof -
  obtain m1 V where m1: "new_val (ConstantInt 1 (IntTy 1)) m = (m1, V)" by (cases "new_val (ConstantInt 1 (IntTy 1)) m")
  obtain m2 callee where m2: "getOrInsertFunction ''llvm.memset.p0i8.i64'' m1 = (m2, callee)"
    by (cases "getOrInsertFunction ''llvm.memset.p0i8.i64'' m1")
  obtain m3 x where m3: "insert_before f J (memset_call P Z S V callee) m2 = (m3, x)"
    by (cases "insert_before f J (memset_call P Z S V callee) m2")
  have run: "CreateMemSet f J P Z S m = m3" by (simp only: CreateMemSet_def m1 m2 m3 prod.case fst_conv)
  note g1 = grown_new_val(1)[OF h m1, where J = J] grown_new_val(2-4)[OF h m1]
  note g2 = grown_declaration[OF grown_here(1)[OF g1(1)] m2, where J = J, simplified]
  have J2: "J < vbound m1" "J < vbound m2" using J grown_here(2)[OF g1(1)] grown_here(2)[OF g2] by auto
  note g3 = grown_insert[OF grown_here(1)[OF g2] m3 J2(2)]
  note t2 = grown_trans[OF g2 g3(1) J2(1)]
  note t = grown_trans[OF g1(1) t2 J]
  have "V < vbound m1" "vals m1 V = ConstantInt 1 (IntTy 1)" by (rule g1)+
  note kV = grown_keeps[OF grown_here(1)[OF g1(1)] t2 this]
  have S': "whole_size m3 elt AI S" by (rule whole_size_grown[OF S h t ok])
  have P': "same_pointer m3 AI P" by (rule same_pointer_grown[OF P h t])
  have "zeroes m3 elt AI x"
    using g3(3,4) P' P(2) grown_keeps[OF h t Z(2,1)] kV S' S(2) grown_here(2)[OF t]
    by (intro zeroes_memset[of m3 x P Z S V callee]) auto
  with t run show ?thesis by auto
qed

lemma cast_memset_law:
  assumes h: "here m f" and J: "J < vbound m" and ok: "alloca_ok m f AI"
    and Z: "vals m Z = ConstantInt 0 (IntTy 8)" "Z < vbound m" and S: "whole_size m elt AI S" "S < vbound m"
  shows "\<exists>xs x. grown f m (case CreateBitCast f J AI m of (m', P) \<Rightarrow> CreateMemSet f J P Z S m') J xs \<and> x \<in> set xs \<and>
    zeroes (case CreateBitCast f J AI m of (m', P) \<Rightarrow> CreateMemSet f J P Z S m') elt AI x"
proof -
  obtain m1 P where m1: "CreateBitCast f J AI m = (m1, P)" by (cases "CreateBitCast f J AI m")
  from CreateBitCast_law[OF h J ok m1] obtain ys where g: "grown f m m1 J ys" "same_pointer m1 AI P" "P < vbound m1" by blast
  have h1: "here m1 f" and J1: "J < vbound m1" and S1: "S < vbound m1" using grown_here[OF g(1)] J S(2) by auto
  note z1 = grown_keeps[OF h g(1) Z(2,1), simplified]
  from CreateMemSet_law[OF h1 J1 alloca_old(6)[OF h g(1) ok] g(2,3) z1 whole_size_grown[OF S h g(1) ok] S1]
  obtain zs x where x: "grown f m1 (CreateMemSet f J P Z S m1) J zs" "x \<in> set zs" "zeroes (CreateMemSet f J P Z S m1) elt AI x"
    by blast
  have "x \<in> set (ys @ zs)" using x(2) by simp
  with grown_trans[OF g(1) x(1) J] x(3) show ?thesis unfolding m1 prod.case by blast
qed

lemma si_alloca_law:
  assumes h: "here m f" and ok: "alloca_ok m f AI" and J: "next_in (insts (fn_of m f)) AI = Some J" "J < vbound m"
  shows "\<exists>xs x. grown f m (si_alloca size_of f AI m) J xs \<and> x \<in> set xs \<and>
    zeroes (si_alloca size_of f AI m) (size_of (alloc_ty (ins m AI))) AI x"
proof -
  let ?T = "alloc_ty (ins m AI)" let ?e = "int (size_of ?T)" let ?arr = "isArrayAllocation m AI"
  obtain m1 EltSize where m1: "new_val (ConstantInt ?e (IntTy 64)) m = (m1, EltSize)" by (cases "new_val (ConstantInt ?e (IntTy 64)) m")
  note g1 = grown_new_val(1)[OF h m1, where J = J] grown_new_val(2-4)[OF h m1]
  define d where "d = (if \<not> ?arr \<and> isIntOrPtrTy ?T then getNullValue ?T else ConstantInt 0 (IntTy 8))"
  obtain m2 Zero where m2: "new_val d m1 = (m2, Zero)" by (cases "new_val d m1")
  have h1: "here m1 f" by (rule grown_here(1)[OF g1(1)])
  note g2 = grown_new_val(1)[OF h1 m2, where J = J] grown_new_val(2-4)[OF h1 m2]
  have h2: "here m2 f" by (rule grown_here(1)[OF g2(1)])
  note t2 = grown_trans[OF g1(1) g2(1) J(2)]
  have J2: "J < vbound m2" using J(2) grown_here(2)[OF t2] by simp
  note a2 = alloca_old[OF h t2 ok] and e2 = grown_keeps[OF h1 g2(1) g1(4,3), simplified]
  have run: "si_alloca size_of f AI m = (if ?arr then (case CreateMul f J EltSize (getArraySize m AI) m2 of (m3, S) \<Rightarrow>
        case CreateBitCast f J AI m3 of (m4, P) \<Rightarrow> CreateMemSet f J P Zero S m4)
      else if isIntOrPtrTy ?T then fst (insert_before f J (inst0\<lparr>opc := Store, operands := [Zero, AI], volatile := True\<rparr>) m2)
      else (case CreateBitCast f J AI m2 of (m3, P) \<Rightarrow> CreateMemSet f J P Zero EltSize m3))"
    using m2 by (cases ?arr; cases "isIntOrPtrTy ?T") (simp_all add: si_alloca_def Let_def J(1) m1 d_def)
  have "\<exists>xs x. grown f m2 (si_alloca size_of f AI m) J xs \<and> x \<in> set xs \<and> zeroes (si_alloca size_of f AI m) (size_of ?T) AI x"
  proof (cases "\<not> ?arr \<and> isIntOrPtrTy ?T")
    case True
    obtain m3 x where m3: "insert_before f J (inst0\<lparr>opc := Store, operands := [Zero, AI], volatile := True\<rparr>) m2 = (m3, x)"
      by (cases "insert_before f J (inst0\<lparr>opc := Store, operands := [Zero, AI], volatile := True\<rparr>) m2")
    note g3 = grown_insert[OF h2 m3 J2]
    have z: "vals m2 Zero = getNullValue ?T" using True g2(3) by (simp add: d_def)
    have "\<forall>F. getNullValue ?T \<noteq> Function F" by (auto simp: getNullValue_def split: ty.splits)
    from grown_keeps[OF h2 g3(1) g2(4) z this] g3(3,4) True alloca_old[OF h2 g3(1) a2(6)] a2
    have "zeroes m3 (size_of ?T) AI x" by (intro zeroes_store[of m3 x Zero]) auto
    with True g3(1) show ?thesis unfolding run by (auto simp: m3)
  next
    case False
    then have z: "vals m2 Zero = ConstantInt 0 (IntTy 8)" using g2(3) by (auto simp: d_def)
    show ?thesis
    proof (cases ?arr)
      case True
      obtain m3 S where m3: "CreateMul f J EltSize (getArraySize m AI) m2 = (m3, S)"
        by (cases "CreateMul f J EltSize (getArraySize m AI) m2")
      have arr2: "isArrayAllocation m2 AI" using True a2(5) by simp
      from CreateMul_law[OF h2 J2 a2(6) arr2 e2, of m3 S] m3 obtain ys where
        g3: "grown f m2 m3 J ys" "whole_size m3 (size_of ?T) AI S" "S < vbound m3" by (auto simp: a2(3))
      have h3: "here m3 f" and J3: "J < vbound m3" using grown_here[OF g3(1)] J2 by auto
      note z3 = grown_keeps[OF h2 g3(1) g2(4) z, simplified]
      from cast_memset_law[OF h3 J3 alloca_old(6)[OF h2 g3(1) a2(6)] z3 g3(2,3)] obtain zs x where
        x: "grown f m3 (si_alloca size_of f AI m) J zs" "x \<in> set zs" "zeroes (si_alloca size_of f AI m) (size_of ?T) AI x"
        unfolding run by (auto simp: True m3)
      have "x \<in> set (ys @ zs)" using x(2) by simp
      with grown_trans[OF g3(1) x(1) J2] x(3) show ?thesis by blast
    next
      case arr: False
      have "whole_size m2 (size_of ?T) AI EltSize" using arr e2(1) a2(5) by (simp add: whole_size_def)
      from cast_memset_law[OF h2 J2 a2(6) z g2(4) this e2(2)] show ?thesis using arr False unfolding run by simp
    qed
  qed
  then obtain xs x where x: "grown f m2 (si_alloca size_of f AI m) J xs" "x \<in> set xs" "zeroes (si_alloca size_of f AI m) (size_of ?T) AI x"
    by blast
  have "x \<in> set (([] @ []) @ xs)" using x(2) by simp
  with grown_trans[OF t2 x(1) J(2)] x(3) show ?thesis by blast
qed

subsection \<open>All of them\<close>

text \<open>\<open>initialised n m f elt AI\<close>: after the alloca comes a write of zeros, with only code from address \<open>n\<close> on
  in between.\<close>

definition initialised :: "nat \<Rightarrow> ir_module \<Rightarrow> nat \<Rightarrow> nat \<Rightarrow> nat \<Rightarrow> bool" where
  "initialised n m f elt AI \<longleftrightarrow> (\<exists>pre ys x post. insts (fn_of m f) = pre @ AI # ys @ x # post \<and>
     set ys \<subseteq> {n..} \<and> n \<le> x \<and> zeroes m elt AI x)"

lemma initialised_step:
  assumes "initialised n m f elt AI" "here m f" "grown f m m' J E" "J < n" "alloca_ok m f AI"
  shows "initialised n m' f elt AI"
proof -
  from assms(1) obtain pre ys x post where i: "insts (fn_of m f) = pre @ AI # ys @ x # post" "set ys \<subseteq> {n..}" "n \<le> x"
    "zeroes m elt AI x" unfolding initialised_def by blast
  have "insts (fn_of m' f) = put_before J E (pre @ AI # ys @ x # post)" using assms(3) i(1) by (simp add: grown_def)
  moreover have "J \<notin> set ys" "J \<noteq> x" using i(2,3) assms(4) by auto
  ultimately have "insts (fn_of m' f) = (if J \<in> set pre then put_before J E pre @ AI # ys @ x # post
      else if J = AI then (pre @ E) @ AI # ys @ x # post else pre @ AI # ys @ x # put_before J E post)"
    by (simp add: put_before_append)
  then have "\<exists>pre' post'. insts (fn_of m' f) = pre' @ AI # ys @ x # post'"
    by (metis append_assoc)
  with i(2,3) zeroes_grown[OF i(4) assms(2,3,5)] show ?thesis unfolding initialised_def by blast
qed

lemma next_in_put_before:
  assumes "distinct xs" "next_in xs I = Some J" "I' \<noteq> I" "I' \<in> set xs" "I' \<notin> set E"
  shows "next_in (put_before J E xs) I' = next_in xs I'"
proof -
  from assms(1,2) obtain as bs where xs: "xs = as @ I # J # bs" by (auto simp: next_in_Some)
  have J: "J \<notin> set as" "J \<noteq> I" using assms(1) xs by auto
  have ys: "put_before J E xs = as @ I # E @ J # bs" using J by (simp add: xs put_before_append)
  show ?thesis
  proof (cases "I' \<in> set as")
    case True
    from split_list_first[OF this] obtain a1 a2 where a: "as = a1 @ I' # a2" "I' \<notin> set a1" by blast
    have "xs = a1 @ I' # (a2 @ I # J # bs)" by (simp add: xs a(1))
    moreover have "put_before J E xs = a1 @ I' # (a2 @ I # E @ J # bs)" unfolding ys by (simp add: a(1))
    ultimately show ?thesis using a(2) by (cases a2) (simp_all add: next_in_mid)
  next
    case False
    then have "I' \<in> set (J # bs)" using assms(3,4) xs by auto
    from split_list_first[OF this] obtain b1 b2 where b: "J # bs = b1 @ I' # b2" "I' \<notin> set b1" by blast
    have "xs = (as @ I # b1) @ I' # b2" using b(1) by (simp add: xs)
    moreover have "put_before J E xs = (as @ I # E @ b1) @ I' # b2" unfolding ys b(1) by simp
    moreover have "I' \<notin> set (as @ I # b1)" "I' \<notin> set (as @ I # E @ b1)" using False assms(3,5) b(2) by auto
    ultimately show ?thesis by (metis next_in_mid)
  qed
qed

definition si_ready :: "nat \<Rightarrow> ir_module \<Rightarrow> nat \<Rightarrow> nat \<Rightarrow> bool" where
  "si_ready n m f AI \<longleftrightarrow> alloca_ok m f AI \<and> AI \<in> set (insts (fn_of m f)) \<and> AI < n \<and>
     (\<exists>J < n. next_in (insts (fn_of m f)) AI = Some J)"

lemma si_ready_step:
  assumes "si_ready n m f AI'" "here m f" "grown f m m' J xs" "n \<le> vbound m" "next_in (insts (fn_of m f)) AI = Some J" "AI' \<noteq> AI"
  shows "si_ready n m' f AI'"
proof -
  have i: "insts (fn_of m' f) = put_before J xs (insts (fn_of m f))" using assms(3) by (simp add: grown_def)
  have AI': "AI' \<in> set (insts (fn_of m f))" "alloca_ok m f AI'" "AI' < n" using assms(1) by (auto simp: si_ready_def)
  have "AI' \<notin> set xs" using AI'(3) assms(3,4) by (auto simp: grown_def)
  moreover have "distinct (insts (fn_of m f))" using assms(2) by (simp add: here_def)
  ultimately have "next_in (insts (fn_of m' f)) AI' = next_in (insts (fn_of m f)) AI'"
    unfolding i using next_in_put_before[OF _ assms(5,6) AI'(1)] by blast
  with assms(1) alloca_old(6)[OF assms(2,3) AI'(2)] show ?thesis by (auto simp: si_ready_def i set_put_before)
qed

lemma si_alloca_initialises:
  assumes h: "here m f" and r: "si_ready n m f AI" and n: "n \<le> vbound m"
  shows "\<exists>J xs. J < n \<and> next_in (insts (fn_of m f)) AI = Some J \<and> grown f m (si_alloca size_of f AI m) J xs \<and>
    initialised n (si_alloca size_of f AI m) f (size_of (alloc_ty (ins m AI))) AI"
proof -
  from r obtain J where J: "J < n" "next_in (insts (fn_of m f)) AI = Some J" and ok: "alloca_ok m f AI"
    by (auto simp: si_ready_def)
  let ?m = "si_alloca size_of f AI m"
  from J(1) n have "J < vbound m" by simp
  from si_alloca_law[OF h ok J(2) this] obtain xs x where x: "grown f m ?m J xs" "x \<in> set xs"
    "zeroes ?m (size_of (alloc_ty (ins m AI))) AI x" by blast
  have d: "distinct (insts (fn_of m f))" using h by (simp add: here_def)
  with J(2) obtain as bs where i: "insts (fn_of m f) = as @ AI # J # bs" by (auto simp: next_in_Some)
  from split_list[OF x(2)] obtain ys zs where xs: "xs = ys @ x # zs" by blast
  have "insts (fn_of ?m f) = put_before J xs (as @ AI # J # bs)" using x(1) i by (simp add: grown_def)
  also have "... = as @ AI # ys @ x # (zs @ J # bs)" using d by (simp add: i xs put_before_append)
  finally have ins: "insts (fn_of ?m f) = as @ AI # ys @ x # (zs @ J # bs)" .
  have new: "\<forall>y \<in> set xs. n \<le> y" using x(1) n by (auto simp: grown_def)
  have "set ys \<subseteq> {n..}" "n \<le> x" using new by (auto simp: xs)
  with ins x(1,3) J show ?thesis unfolding initialised_def by blast
qed

lemma si_all:
  assumes "here m f" "distinct AIs" "\<forall>AI \<in> set AIs. si_ready n m f AI \<and> sz AI = size_of (alloc_ty (ins m AI))" "n \<le> vbound m"
    "\<forall>AI \<in> D. initialised n m f (sz AI) AI \<and> alloca_ok m f AI" "D \<inter> set AIs = {}"
  shows "here (fold (si_alloca size_of f) AIs m) f \<and> set (insts (fn_of m f)) \<subseteq> set (insts (fn_of (fold (si_alloca size_of f) AIs m) f)) \<and>
    (\<forall>AI \<in> D \<union> set AIs. initialised n (fold (si_alloca size_of f) AIs m) f (sz AI) AI)"
  using assms
proof (induction AIs arbitrary: m D)
  case (Cons AI AIs)
  let ?m = "si_alloca size_of f AI m"
  have AI: "si_ready n m f AI" "sz AI = size_of (alloc_ty (ins m AI))" using Cons.prems(3) by auto
  from si_alloca_initialises[OF Cons.prems(1) AI(1) Cons.prems(4), of size_of] obtain J xs where
    g: "J < n" "next_in (insts (fn_of m f)) AI = Some J" "grown f m ?m J xs" "initialised n ?m f (sz AI) AI"
    using AI(2) by auto
  note old = alloca_old[OF Cons.prems(1) g(3)]
  have "\<forall>A \<in> insert AI D. initialised n ?m f (sz A) A \<and> alloca_ok ?m f A"
    using g(4) old(6) AI(1) Cons.prems(5) initialised_step[OF _ Cons.prems(1) g(3,1)] by (auto simp: si_ready_def)
  moreover have "si_ready n ?m f A \<and> sz A = size_of (alloc_ty (ins ?m A))" if A: "A \<in> set AIs" for A
  proof -
    have A': "si_ready n m f A" "sz A = size_of (alloc_ty (ins m A))" "A \<noteq> AI" using Cons.prems(2,3) A by auto
    then have "alloca_ok m f A" by (simp add: si_ready_def)
    from si_ready_step[OF A'(1) Cons.prems(1) g(3) Cons.prems(4) g(2) A'(3)] A'(2) old(2)[OF this] show ?thesis by simp
  qed
  moreover have "insert AI D \<inter> set AIs = {}" "distinct AIs" "n \<le> vbound ?m"
    using Cons.prems(2,4,6) grown_here(2)[OF g(3)] by auto
  ultimately show ?case using Cons.IH[of ?m "insert AI D"] grown_here(1)[OF g(3)] grown_insts[OF g(3)] by auto
qed simp

text \<open>What the pass asks of the function: no alloca is the last instruction, and the array sizes are values.\<close>

definition si_ok :: "ir_module \<Rightarrow> nat \<Rightarrow> bool" where
  "si_ok m f \<longleftrightarrow> here m f \<and> (\<forall>AI \<in> set (insts_of m (fn_of m f) [Alloca]).
     getArraySize m AI < vbound m \<and> getArraySize m AI \<noteq> f \<and> next_in (insts (fn_of m f)) AI \<noteq> None)"

lemma si_law:
  assumes ok: "si_ok m f" and run: "si_runOnFunction size_of f m = (m', c)"
  shows "AI \<in> set (insts_of m (fn_of m f) [Alloca]) \<Longrightarrow>
      initialised (vbound m) m' f (size_of (alloc_ty (ins m AI))) AI"
    "c \<longleftrightarrow> insts_of m (fn_of m f) [Alloca] \<noteq> []"
proof -
  let ?As = "insts_of m (fn_of m f) [Alloca]"
  have h: "here m f" using ok by (simp add: si_ok_def)
  then have d: "distinct ?As" and I: "\<And>I. I \<in> set (insts (fn_of m f)) \<Longrightarrow> is_inst m I \<and> I < vbound m"
    by (auto simp: here_def insts_of_def)
  have "si_ready (vbound m) m f A" if "A \<in> set ?As" for A
  proof -
    have A: "A \<in> set (insts (fn_of m f))" using that by (simp add: insts_of_def)
    from ok that obtain J where J: "next_in (insts (fn_of m f)) A = Some J" by (auto simp: si_ok_def)
    have "distinct (insts (fn_of m f))" using h by (simp add: here_def)
    with J have "J \<in> set (insts (fn_of m f))" by (auto simp: next_in_Some)
    with J ok that I[OF A] I A show ?thesis by (auto simp: si_ready_def si_ok_def alloca_ok_def)
  qed
  then have all: "here m' f \<and> set (insts (fn_of m f)) \<subseteq> set (insts (fn_of m' f)) \<and>
      (\<forall>A \<in> set ?As. initialised (vbound m) m' f (size_of (alloc_ty (ins m A))) A)"
    using si_all[OF h d, of "vbound m" "\<lambda>A. size_of (alloc_ty (ins m A))" size_of "{}"] run
    by (auto simp: si_runOnFunction_def Let_def)
  then show "AI \<in> set ?As \<Longrightarrow> initialised (vbound m) m' f (size_of (alloc_ty (ins m AI))) AI" by blast
  have c: "c = (length (insts (fn_of m' f)) \<noteq> length (insts (fn_of m f)))" using run by (auto simp: si_runOnFunction_def Let_def)
  show "c \<longleftrightarrow> ?As \<noteq> []"
  proof (cases "?As = []")
    case True
    with run show ?thesis by (auto simp: si_runOnFunction_def Let_def)
  next
    case False
    with all obtain A where "initialised (vbound m) m' f (size_of (alloc_ty (ins m A))) A" by (meson list.set_sel(1))
    then obtain x where "x \<in> set (insts (fn_of m' f))" "vbound m \<le> x" unfolding initialised_def by (metis UnCI list.set_intros(1) list.set_intros(2) set_append)
    with all I have "set (insts (fn_of m f)) \<subset> set (insts (fn_of m' f))" by (auto simp: psubset_eq) (meson leD)
    then have "card (set (insts (fn_of m f))) < card (set (insts (fn_of m' f)))" by (simp add: psubset_card_mono)
    with all h False c show ?thesis by (simp add: here_def distinct_card)
  qed
qed

end
