(* ===== verification/TransformProperties.thy ===== *)
theory TransformProperties
  imports AnalysisProperties ContractChecker InlinePass FramePromotion MemIntrinsicPass DuplicatePass MarkPasses FunctionLocalStacks StackInit
begin

text \<open>
  The properties of the passes around the mitigation pass, each with a concrete instance.
\<close>

subsection \<open>The contract checker\<close>

definition constants0 :: constants where
  "constants0 = \<lparr>getGlobalVariable = (\<lambda>_. None), const_operands = (\<lambda>_. []), const_kind = (\<lambda>_. COther),
     stripPointerCasts = (\<lambda>v. v)\<rparr>"

text \<open>C15. The contract checker terminates, and it accepts a function exactly if its arguments and
  return values are public by the rules (the least set of public values that the annotations, the
  transmitters, the calls and the dataflow rules generate).\<close>

theorem contract_check_exact:
  assumes "fn_ok m (fn_of m f)" "dep_ok dep (fn_of m f)"
  shows "\<exists>r. cc_values K dep m f = Some r \<and> (\<forall>mem pub. r = Inr (mem, pub) \<longrightarrow>
    (cc_runOnFunction K dep m f = Some (Inr ()) \<longleftrightarrow>
       set (fn_args (fn_of m f)) \<subseteq> cc_public K dep m f \<and>
       (\<forall>v \<in> set (cc_returns m (fn_of m f)). v \<in> cc_public K dep m f \<or> is_constant (vals m v))))"
proof -
  obtain r where r: "cc_values K dep m f = Some r" using cc_returns_always[OF assms] by blast
  have "cc_runOnFunction K dep m f = Some (Inr ()) \<longleftrightarrow>
       set (fn_args (fn_of m f)) \<subseteq> cc_public K dep m f \<and>
       (\<forall>v \<in> set (cc_returns m (fn_of m f)). v \<in> cc_public K dep m f \<or> is_constant (vals m v))"
    if "r = Inr (mem, pub)" for mem pub
  proof -
    have run: "cc_values K dep m f = Some (Inr (mem, pub))" using r that by simp
    show ?thesis unfolding cc_exact[OF assms run, symmetric]
      by (auto simp: cc_runOnFunction_def run secret_arguments_def secret_returns_def filter_empty_conv is_pub_def)
  qed
  with r show ?thesis by blast
qed

text \<open>\<open>chain\<close> has a pointer argument and returns nothing; \<open>leaky\<close> returns what it loads.\<close>

definition leaky_func :: func where
  "leaky_func = func0\<lparr>fn_name := ''leaky'', fn_args := [3], fn_blocks := [\<lparr>bb_id = 2, bb_insts = [11, 14]\<rparr>]\<rparr>"

definition leaky_vals :: "nat \<Rightarrow> vdesc" where
  "leaky_vals v = (if v = 1 then Function leaky_func else if v = 2 then BasicBlock
     else if v = 3 then Argument 1 0 PtrTy
     else if v = 11 then Inst (inst0\<lparr>opc := Load, ity := IntTy 64, operands := [3]\<rparr>)
     else if v = 14 then Inst (inst0\<lparr>opc := Ret, operands := [11]\<rparr>)
     else Undef)"

definition leaky_mod :: ir_module where
  "leaky_mod = \<lparr>vals = leaky_vals, vbound = 15, fn_list = [1]\<rparr>"

lemma contract_check_exact_witness:
  "cc_runOnFunction constants0 (\<lambda>_. NonLocalDep) chain_mod 1 = Some (Inr ()) \<and>
   3 \<in> cc_public constants0 (\<lambda>_. NonLocalDep) chain_mod 1 \<and>
   11 \<notin> cc_public constants0 (\<lambda>_. NonLocalDep) leaky_mod 1"
proof -
  have F: "fn_of chain_mod 1 = chain_func" by code_simp
  have ok: "fn_ok chain_mod (fn_of chain_mod 1)" unfolding F by (rule fn_ok_chain)
  have dep: "dep_ok (\<lambda>_. NonLocalDep) F" for F by (simp add: dep_ok_def)
  obtain mem pub where v: "cc_values constants0 (\<lambda>_. NonLocalDep) chain_mod 1 = Some (Inr (mem, pub))"
    and run: "cc_runOnFunction constants0 (\<lambda>_. NonLocalDep) chain_mod 1 = Some (Inr ())"
    and args: "fn_args (fn_of chain_mod 1) = [3]"
  proof
    show "cc_values constants0 (\<lambda>_. NonLocalDep) chain_mod 1 = Some (Inr ({3}, {3, 11, 12}))" by code_simp
  qed code_simp+
  have one: "3 \<in> cc_public constants0 (\<lambda>_. NonLocalDep) chain_mod 1"
    using contract_check_exact[OF ok dep, of constants0] v run args by auto
  have "wf_module leaky_mod"
    by (auto simp: wf_module_def leaky_mod_def leaky_vals_def is_inst_def ins_def inst0_def split: if_splits)
  moreover have "\<forall>I \<in> set (insts (fn_of leaky_mod 1)). is_inst leaky_mod I \<and> I < vbound leaky_mod" by code_simp
  moreover have "\<forall>A \<in> set (fn_args (fn_of leaky_mod 1)). A < vbound leaky_mod" by code_simp
  ultimately have ok': "fn_ok leaky_mod (fn_of leaky_mod 1)" by (simp add: fn_ok_def)
  have v': "cc_values constants0 (\<lambda>_. NonLocalDep) leaky_mod 1 = Some (Inr ({}, {3}))"
    and run': "cc_runOnFunction constants0 (\<lambda>_. NonLocalDep) leaky_mod 1 = Some (Inl Exited)"
    and args': "fn_args (fn_of leaky_mod 1) = [3]" and ret': "cc_returns leaky_mod (fn_of leaky_mod 1) = [11]" by code_simp+
  have "3 \<in> cc_public constants0 (\<lambda>_. NonLocalDep) leaky_mod 1"
    by (rule cc_public.argument) code_simp+
  with contract_check_exact[OF ok' dep, of constants0] v' run' args' ret'
  have "11 \<notin> cc_public constants0 (\<lambda>_. NonLocalDep) leaky_mod 1" by auto
  with one run show ?thesis by blast
qed

subsection \<open>Inlining\<close>

text \<open>\<open>inl_func\<close> stores a secret, calls \<open>inl_callee\<close>, and has an \<open>lfence\<close> of its own.\<close>

definition inl_func :: func where
  "inl_func = func0\<lparr>fn_name := ''inl'', fn_args := [3],
     fn_blocks := [\<lparr>bb_id = 2, bb_insts = [11, 12, 13, 14, 15]\<rparr>]\<rparr>"

definition inl_callee :: func where
  "inl_callee = func0\<lparr>fn_name := ''callee'', fn_blocks := [\<lparr>bb_id = 4, bb_insts = [21]\<rparr>]\<rparr>"

definition inl_vals :: "nat \<Rightarrow> vdesc" where
  "inl_vals v = (if v = 1 then Function inl_func else if v = 5 then Function inl_callee
     else if v = 6 then Function func0 else if v = 2 \<or> v = 4 then BasicBlock else if v = 3 then Argument 1 0 PtrTy
     else if v = 11 then Inst (inst0\<lparr>opc := Load, ity := IntTy 64, operands := [3]\<rparr>)
     else if v = 12 then Inst (inst0\<lparr>opc := Store, operands := [11, 3]\<rparr>)
     else if v = 13 then Inst (inst0\<lparr>opc := Call, operands := [5]\<rparr>)
     else if v = 14 then Inst (intrinsic_call (x86 sse2_lfence) []\<lparr>operands := [6]\<rparr>)
     else if v = 15 \<or> v = 21 then Inst (inst0\<lparr>opc := Ret\<rparr>)
     else Undef)"

definition inl_mod :: ir_module where
  "inl_mod = \<lparr>vals = inl_vals, vbound = 22, fn_list = [1, 5]\<rparr>"

definition inl_an :: analyses where
  "inl_an = \<lparr>an_pub = {}, an_taints = {(11, 11)}, an_leaks = {}, an_ca = []\<rparr>"

text \<open>Inlining a function that only returns deletes the call.\<close>

definition inline_empty :: inliner where
  "inline_empty CB m = (if CB = 1 then None else Some (eraseFromParent 1 CB m))"



text \<open>C16. The inline pass terminates whatever \<open>InlineFunction\<close> does: it inlines at most 100 calls into
  a function. The assertion at its end holds, because it erases every \<open>lfence\<close> of the function, the
  program's own included.\<close>

theorem inline_bounded:
  assumes "\<forall>g. g \<noteq> f \<longrightarrow> counts g + inline_limit < 2 ^ 32" "\<not> is_inst m f"
    "\<forall>CB m m'. InlineFunction CB m = Some m' \<and> \<not> is_inst m f \<longrightarrow> \<not> is_inst m' f"
  shows "\<exists>r. inline_loop InlineFunction an f \<lparr>im = m, iskip = {}, inline_counts = counts, changed = False\<rparr> = Some r \<and>
    (\<forall>s. r = Inr s \<longrightarrow> (\<exists>n \<le> inline_limit - counts f. (m, im s) \<in> inlined InlineFunction ^^ n) \<and>
      (\<exists>s'. inline_runOnFunction InlineFunction an f counts m = Some (Inr s') \<and>
         (\<forall>I \<in> set (insts (fn_of (im s') f)). \<not> is_MitigationInst (im s') I) \<and>
         insts (fn_of (im s') f) = filter (\<lambda>I. \<not> is_MitigationInst (im s) I) (insts (fn_of (im s) f))))"
proof -
  define s0 where "s0 = \<lparr>im = m, iskip = {}, inline_counts = counts, changed = False\<rparr>"
  have "counts_ok f s0" using assms(1) by (simp add: counts_ok_def s0_def)
  from inline_loop_law[OF this, of InlineFunction an] obtain r where r: "inline_loop InlineFunction an f s0 = Some r"
    and bound: "\<forall>s'. r = Inr s' \<longrightarrow> (\<exists>n. (m, im s') \<in> inlined InlineFunction ^^ n \<and> n \<le> inline_limit - counts f)"
    by (auto simp: s0_def)
  have "\<exists>s'. inline_runOnFunction InlineFunction an f counts m = Some (Inr s') \<and>
         (\<forall>I \<in> set (insts (fn_of (im s') f)). \<not> is_MitigationInst (im s') I) \<and>
         insts (fn_of (im s') f) = filter (\<lambda>I. \<not> is_MitigationInst (im s) I) (insts (fn_of (im s) f))" if s: "r = Inr s" for s
  proof -
    from bound s obtain n where "(m, im s) \<in> inlined InlineFunction ^^ n" by blast
    then have f: "\<not> is_inst (im s) f" by (rule inlined_keeps[OF _ assms(2)]) (use assms(3) in blast)
    obtain m' erased where e: "erase_mitigations f (im s) = (m', erased)" by (cases "erase_mitigations f (im s)")
    note law = erase_mitigations_law[OF f e]
    have "inline_runOnFunction InlineFunction an f counts m = Some (Inr (s\<lparr>im := m', changed := (changed s \<or> erased)\<rparr>))"
      using r s e law(1) by (simp add: inline_runOnFunction_def s0_def[symmetric] is_MitigationInst_def)
    with law show ?thesis by simp
  qed
  with r bound show ?thesis unfolding s0_def by blast
qed

lemma inline_bounded_witness:
  "\<exists>s'. inline_runOnFunction inline_empty inl_an 1 (\<lambda>_. 0) inl_mod = Some (Inr s') \<and>
     is_MitigationInst inl_mod 14 \<and> insts (fn_of (im s') 1) = [11, 12, 15]"
proof -
  have keeps: "\<forall>CB m m'. inline_empty CB m = Some m' \<and> \<not> is_inst m 1 \<longrightarrow> \<not> is_inst m' 1"
    by (auto simp: inline_empty_def erase_law(4) split: if_splits)
  have "\<not> is_inst inl_mod 1" by code_simp
  from inline_bounded[OF _ this keeps, of "\<lambda>_. 0" inl_an] obtain r where
    r: "inline_loop inline_empty inl_an 1 \<lparr>im = inl_mod, iskip = {}, inline_counts = \<lambda>_. 0, changed = False\<rparr> = Some r"
    "\<forall>s. r = Inr s \<longrightarrow> (\<exists>s'. inline_runOnFunction inline_empty inl_an 1 (\<lambda>_. 0) inl_mod = Some (Inr s') \<and>
       insts (fn_of (im s') 1) = filter (\<lambda>I. \<not> is_MitigationInst (im s) I) (insts (fn_of (im s) 1)))"
    by (auto simp: inline_limit_def)
  have "map_option (map_sum (\<lambda>e. e) (\<lambda>s. filter (\<lambda>I. \<not> is_MitigationInst (im s) I) (insts (fn_of (im s) 1))))
      (inline_loop inline_empty inl_an 1 \<lparr>im = inl_mod, iskip = {}, inline_counts = \<lambda>_. 0, changed = False\<rparr>) =
    Some (Inr [11, 12, 15])" by code_simp
  with r(1) obtain s where "r = Inr s" "filter (\<lambda>I. \<not> is_MitigationInst (im s) I) (insts (fn_of (im s) 1)) = [11, 12, 15]"
    by (cases r) auto
  moreover have "is_MitigationInst inl_mod 14" by code_simp
  ultimately show ?thesis using r(2) by auto
qed

subsection \<open>Frames, memory intrinsics, copies and marks\<close>

text \<open>C28. Frame promotion leaves a function that may recurse alone. In any other function no static
  alloca is left, nothing else is deleted, and nothing in the module refers to a deleted alloca.\<close>

theorem frame_promotion_removes_allocas:
  assumes "fp_ok (pm s) f" "distinct (insts (fn_of (pm s) f))" "fp_runOnFunction align f s = Inr s'"
  shows "(doesNotRecurse (pm s) f = Inr False \<longrightarrow> s' = s) \<and> (doesNotRecurse (pm s) f = Inr True \<longrightarrow>
    insts (fn_of (pm s') f) = filter (\<lambda>I. \<not> isStaticAlloca (pm s) (fn_of (pm s) f) I) (insts (fn_of (pm s) f)) \<and>
    (\<forall>I \<in> set (insts (fn_of (pm s') f)). \<not> isStaticAlloca (pm s') (fn_of (pm s') f) I) \<and>
    (\<forall>I \<in> set (insts (fn_of (pm s) f)). isStaticAlloca (pm s) (fn_of (pm s) f) I \<longrightarrow> \<not> used (pm s') I))"
proof (intro conjI impI)
  assume "doesNotRecurse (pm s) f = Inr False"
  with assms(3) show "s' = s" by (simp add: fp_runOnFunction_def)
next
  assume b: "doesNotRecurse (pm s) f = Inr True"
  define AIs where "AIs = filter (isStaticAlloca (pm s) (fn_of (pm s) f)) (insts_of (pm s) (fn_of (pm s) f) [Alloca])"
  have s': "s' = fold (promote align f) AIs s" using assms(3) b by (simp add: fp_runOnFunction_def Let_def AIs_def)
  have set: "set AIs = {I \<in> set (insts (fn_of (pm s) f)). isStaticAlloca (pm s) (fn_of (pm s) f) I}"
    by (auto simp: AIs_def insts_of_def isStaticAlloca_def)
  have d: "distinct AIs" using assms(2) by (simp add: AIs_def insts_of_def)
  have sub: "set AIs \<subseteq> set (insts (fn_of (pm s) f))" "\<forall>AI \<in> set AIs. isStaticAlloca (pm s) (fn_of (pm s) f) AI"
    by (simp_all add: set)
  note law = promote_all[OF assms(1) d sub, of align, folded s']
  have 1: "insts (fn_of (pm s') f) = filter (\<lambda>J. J \<notin> set AIs) (insts (fn_of (pm s) f))" using law by blast
  have 2: "\<forall>AI \<in> set AIs. \<not> used (pm s') AI" using law by blast
  have 3: "\<forall>J \<in> set (insts (fn_of (pm s) f)) - set AIs. isStaticAlloca (pm s') (fn_of (pm s') f) J =
      isStaticAlloca (pm s) (fn_of (pm s) f) J" using law by blast
  show "insts (fn_of (pm s') f) = filter (\<lambda>I. \<not> isStaticAlloca (pm s) (fn_of (pm s) f) I) (insts (fn_of (pm s) f))"
    unfolding 1 set by (rule filter_cong) auto
  show "\<forall>I \<in> set (insts (fn_of (pm s') f)). \<not> isStaticAlloca (pm s') (fn_of (pm s') f) I"
    using 1 3 set by auto
  show "\<forall>I \<in> set (insts (fn_of (pm s) f)). isStaticAlloca (pm s) (fn_of (pm s) f) I \<longrightarrow> \<not> used (pm s') I"
    using 2 set by blast
qed

definition frame_func :: func where
  "frame_func = func0\<lparr>fn_name := ''frame'', fn_blocks := [\<lparr>bb_id = 2, bb_insts = [11, 12, 13]\<rparr>]\<rparr>"

definition frame_vals :: "nat \<Rightarrow> vdesc" where
  "frame_vals v = (if v = 1 then Function frame_func else if v = 2 then BasicBlock else if v = 3 then ConstantInt 1 (IntTy 32)
     else if v = 11 then Inst (inst0\<lparr>opc := Alloca, ity := PtrTy, operands := [3], alloc_ty := IntTy 32\<rparr>)
     else if v = 12 then Inst (inst0\<lparr>opc := Store, operands := [3, 11]\<rparr>)
     else if v = 13 then Inst (inst0\<lparr>opc := Ret\<rparr>)
     else Undef)"

definition frame_mod :: ir_module where
  "frame_mod = \<lparr>vals = frame_vals, vbound = 14, fn_list = [1]\<rparr>"

lemma frame_promotion_removes_allocas_witness:
  "\<exists>s'. fp_runOnModule (\<lambda>_. 4) frame_mod = Inr s' \<and> insts (fn_of (pm s') 1) = [12, 13] \<and> \<not> used (pm s') 11"
proof -
  let ?s = "\<lparr>pm = frame_mod, globals = [], fp_changed = False\<rparr>"
  have ok: "fp_ok (pm ?s) 1" "distinct (insts (fn_of (pm ?s) 1))" by code_simp+
  have "map_sum (\<lambda>e. e) (\<lambda>_. True) (fp_runOnFunction (\<lambda>_. 4) 1 ?s) = Inr True" by code_simp
  then obtain s' where s': "fp_runOnFunction (\<lambda>_. 4) 1 ?s = Inr s'" by (cases "fp_runOnFunction (\<lambda>_. 4) 1 ?s") auto
  have facts: "doesNotRecurse (pm ?s) 1 = Inr True" "isStaticAlloca (pm ?s) (fn_of (pm ?s) 1) 11"
    "11 \<in> set (insts (fn_of (pm ?s) 1))"
    "filter (\<lambda>I. \<not> isStaticAlloca (pm ?s) (fn_of (pm ?s) 1) I) (insts (fn_of (pm ?s) 1)) = [12, 13]" by code_simp+
  note res = frame_promotion_removes_allocas[OF ok s', THEN conjunct2, rule_format, OF facts(1)]
  have "\<not> isDeclaration (fn_of frame_mod 1)" "fn_list frame_mod = [1]" by code_simp+
  with s' have "fp_runOnModule (\<lambda>_. 4) frame_mod = Inr s'" by (simp add: fp_runOnModule_def)
  then show ?thesis using res facts(2-4) by metis
qed

text \<open>C29. The memory-intrinsic pass replaces exactly the \<open>memcpy\<close> calls of a constant length, each in its
  place by \<open>memcpy.inline\<close> with the same destination, source, length and volatile flag; it changes
  nothing else and reports a change exactly if there is one.\<close>

theorem memcpy_becomes_inline:
  assumes "mi_ok m f" "\<forall>J. intrinsic_id m J = Some In_memcpy \<longrightarrow> \<not> used m J"
    "mi_runOnFunction f m = (m', ch)"
  shows "\<exists>g. insts (fn_of m' f) = map g (insts (fn_of m f)) \<and>
    (\<forall>J \<in> set (insts (fn_of m f)). replaced m m' J (g J)) \<and>
    (ch \<longleftrightarrow> (\<exists>J \<in> set (insts (fn_of m f)). eligible m J))"
proof -
  have "distinct (filter (is_MemIntrinsic m) (insts (fn_of m f)))" using assms(1) by (simp add: mi_ok_def)
  from mi_steps_law[OF assms(1,2) this _ assms(3)[unfolded mi_runOnFunction_def]] obtain g where
    g: "insts (fn_of m' f) = map g (insts (fn_of m f))"
      "\<forall>J \<in> set (insts (fn_of m f)). if is_MemIntrinsic m J then replaced m m' J (g J) else g J = J \<and> vals m' J = vals m J"
      "ch \<longleftrightarrow> (\<exists>J \<in> set (insts (fn_of m f)). is_MemIntrinsic m J \<and> eligible m J)" by auto
  have e: "eligible m J \<Longrightarrow> is_MemIntrinsic m J" for J by (simp add: eligible_def is_MemIntrinsic_def)
  have "replaced m m' J (g J)" if "J \<in> set (insts (fn_of m f))" for J
    using g(2) that e[of J] by (auto simp: replaced_def split: if_splits)
  with g e show ?thesis by (intro exI[of _ g]) auto
qed

definition copy_func :: func where
  "copy_func = func0\<lparr>fn_name := ''copy'', fn_args := [3, 4, 5], fn_blocks := [\<lparr>bb_id = 2, bb_insts = [11, 12, 13]\<rparr>]\<rparr>"

definition copy_vals :: "nat \<Rightarrow> vdesc" where
  "copy_vals v = (if v = 1 then Function copy_func else if v = 2 then BasicBlock
     else if v = 3 then Argument 1 0 PtrTy else if v = 4 then Argument 1 1 PtrTy else if v = 5 then Argument 1 2 (IntTy 64)
     else if v = 6 then ConstantInt 16 (IntTy 64) else if v = 7 then ConstantInt 0 (IntTy 1) else if v = 8 then Function func0
     else if v = 11 then Inst (inst0\<lparr>opc := Call, iid := Some In_memcpy, operands := [3, 4, 6, 7, 8], nargs := 4\<rparr>)
     else if v = 12 then Inst (inst0\<lparr>opc := Call, iid := Some In_memcpy, operands := [3, 4, 5, 7, 8], nargs := 4\<rparr>)
     else if v = 13 then Inst (inst0\<lparr>opc := Ret\<rparr>)
     else Undef)"

definition copy_mod :: ir_module where
  "copy_mod = \<lparr>vals = copy_vals, vbound = 14, fn_list = [1]\<rparr>"

lemma memcpy_becomes_inline_witness:
  "\<exists>J callee. insts (fn_of (fst (mi_runOnFunction 1 copy_mod)) 1) = [J, 12, 13] \<and>
     vals (fst (mi_runOnFunction 1 copy_mod)) J = Inst (memcpy_inline_call (ins copy_mod 11) callee)"
proof -
  have ok: "mi_ok copy_mod 1" by code_simp
  have "v \<notin> {11, 12}" if "v \<in> uses_of (copy_vals u)" for u v
    using that by (auto simp: copy_vals_def inst0_def split: if_splits)
  moreover have "intrinsic_id copy_mod J = Some In_memcpy \<Longrightarrow> J \<in> {11, 12}" for J
    by (auto simp: intrinsic_id_def copy_mod_def copy_vals_def isa_def is_inst_def ins_def inst0_def split: if_splits)
  ultimately have void: "\<forall>J. intrinsic_id copy_mod J = Some In_memcpy \<longrightarrow> \<not> used copy_mod J"
    by (auto simp: used_def copy_mod_def)
  obtain m' ch where run: "mi_runOnFunction 1 copy_mod = (m', ch)" by (cases "mi_runOnFunction 1 copy_mod")
  from memcpy_becomes_inline[OF ok void run] obtain g where g: "insts (fn_of m' 1) = map g (insts (fn_of copy_mod 1))"
    "\<forall>J \<in> set (insts (fn_of copy_mod 1)). replaced copy_mod m' J (g J)" by blast
  have ex: "insts (fn_of copy_mod 1) = [11, 12, 13]" "eligible copy_mod 11" "\<not> eligible copy_mod 12" "\<not> eligible copy_mod 13"
    by code_simp+
  from g ex run show ?thesis by (auto simp: replaced_def)
qed


definition clone_empty :: "nat \<Rightarrow> ir_module \<Rightarrow> ir_module \<times> nat" where
  "clone_empty f m = new_val (Function (fn_of m f)) m"


text \<open>C33. The no-spill pass marks exactly the instructions with a result that may leak and are not
  speculatively secret.\<close>

theorem nospill_marks_public:
  assumes "nsp_runOnFunction an f m = Inr (m', c)" "\<forall>I \<in> set (insts (fn_of m f)). is_inst m I"
  shows "getMetadataFlag m' I flag \<longleftrightarrow> getMetadataFlag m I flag \<or> flag = ''clou.nospill'' \<and>
    I \<in> set (insts (fn_of m f)) \<and> \<not> is_void m I \<and> LA_mayLeak an I \<and> ST_secret m an I = Inr False"
  using nospill_public_fold[OF assms(1)[unfolded nsp_runOnFunction_def]] assms(2)
  by (auto simp: nonvoid_instructions_def)

lemma nospill_marks_public_witness:
  "\<exists>m' c. nsp_runOnFunction (inl_an\<lparr>an_leaks := {11, 12}\<rparr>) 1 chain_mod = Inr (m', c) \<and>
     getMetadataFlag m' 12 ''clou.nospill'' \<and> \<not> getMetadataFlag m' 11 ''clou.nospill''"
proof -
  let ?an = "inl_an\<lparr>an_leaks := {11, 12}\<rparr>"
  have "map_sum (\<lambda>e. e) (\<lambda>_. True) (nsp_runOnFunction ?an 1 chain_mod) = Inr True" by code_simp
  then obtain m' c where run: "nsp_runOnFunction ?an 1 chain_mod = Inr (m', c)"
    by (cases "nsp_runOnFunction ?an 1 chain_mod") auto
  have "\<forall>I \<in> set (insts (fn_of chain_mod 1)). is_inst chain_mod I" by code_simp
  note marks = nospill_marks_public[OF run this]
  have facts: "12 \<in> set (insts (fn_of chain_mod 1))" "\<not> is_void chain_mod 12" "LA_mayLeak ?an 12"
    "ST_secret chain_mod ?an 12 = Inr False" "ST_secret chain_mod ?an 11 = Inr True"
    "\<not> getMetadataFlag chain_mod 11 ''clou.nospill''" by code_simp+
  with run marks show ?thesis by auto
qed

text \<open>C30. Where a function may be entered again before it returns, the pass saves the stack pointer of the
  outer activation first of all, and right before every return puts it back, clipped to the end of
  the stack: for every placement of the globals and every state the inserted code runs in.\<close>

theorem fls_restores_outer_activation:
  assumes "here m f" "insts_bounded m" "\<forall>B \<in> set (fn_blocks (fn_of m f)). bb_insts B \<noteq> []" "insts (fn_of m f) \<noteq> []"
    and "shouldRestoreOldSP m f = Inr True" "fls_stack_pointer f stack sp m = Inr m'"
    and g: "vals m stack = GlobalVariable" "vals m sp = GlobalVariable" and R: "R \<in> set (fls_returns m f)"
  shows "\<exists>OldSP B pre E post. hd (insts (fn_of m' f)) = OldSP \<and>
    (\<forall>rho mem. exec addr StackSize m' [OldSP] (rho, mem) = (rho(OldSP := mem (addr sp)), mem)) \<and>
    B \<in> set (fn_blocks (fn_of m' f)) \<and> bb_insts B = pre @ E @ R # post \<and>
    (\<forall>rho mem. snd (exec addr StackSize m' E (rho, mem)) = mem(addr sp := min (addr stack + StackSize) (rho OldSP)))"
proof -
  note law = fls_law[OF assms(1-6)]
  have lt: "stack < vbound m" "sp < vbound m" "stack \<noteq> f" "sp \<noteq> f" using g assms(1,2) by (auto simp: insts_bounded_def here_def)
  then have g': "vals m' stack = GlobalVariable" "vals m' sp = GlobalVariable" using law(2) g by auto
  from law(4) R obtain B pre E post where B: "B \<in> set (fn_blocks (fn_of m' f))" "bb_insts B = pre @ E @ R # post"
    and e: "epilogue m' stack sp (vbound m) E" unfolding restored_def by blast
  have "is_inst m' (vbound m)" using law(3) by (simp add: is_inst_def)
  note ex = exec_epilogue[OF e g' this]
  have "exec addr StackSize m' [vbound m] (rho, mem) = (rho(vbound m := mem (addr sp)), mem)" for rho mem
    using law(3) g'(2) by (simp add: exec_def exec_inst_def isa_def is_inst_def ins_def opnd_def numeral_3_eq_3 Let_def)
  with law(1) B ex show ?thesis by blast
qed

definition again_vals :: "nat \<Rightarrow> vdesc" where
  "again_vals v = (if v = 1 then Function (func0\<lparr>fn_name := ''again'', fn_args := [3],
       fn_blocks := [\<lparr>bb_id = 2, bb_insts = [11, 12]\<rparr>]\<rparr>)
     else if v = 2 then BasicBlock else if v = 3 then Argument 1 0 PtrTy
     else if v = 4 \<or> v = 5 then GlobalVariable
     else if v = 11 then Inst (inst0\<lparr>opc := Call, operands := [3]\<rparr>)
     else if v = 12 then Inst (inst0\<lparr>opc := Ret\<rparr>) else Undef)"

definition again_mod :: ir_module where
  "again_mod = \<lparr>vals = again_vals, vbound = 13, fn_list = [1]\<rparr>"

lemma fls_restores_outer_activation_witness:
  "\<exists>m' OldSP B pre E post. fls_stack_pointer 1 4 5 again_mod = Inr m' \<and> hd (insts (fn_of m' 1)) = OldSP \<and>
    exec (\<lambda>v. v * 1000) 64 m' [OldSP] (\<lambda>_. 0, \<lambda>_. 4032) = ((\<lambda>_. 0)(OldSP := 4032), \<lambda>_. 4032) \<and>
    B \<in> set (fn_blocks (fn_of m' 1)) \<and> bb_insts B = pre @ E @ 12 # post \<and>
    snd (exec (\<lambda>v. v * 1000) 64 m' E (\<lambda>_. 4032, \<lambda>_. 0)) 5000 = 4032"
proof -
  have "map_sum (\<lambda>e. e) (\<lambda>_. True) (fls_stack_pointer 1 4 5 again_mod) = Inr True" by code_simp
  then obtain m' where run: "fls_stack_pointer 1 4 5 again_mod = Inr m'" by (cases "fls_stack_pointer 1 4 5 again_mod") auto
  have f: "fn_of again_mod 1 = func0\<lparr>fn_name := ''again'', fn_args := [3], fn_blocks := [\<lparr>bb_id = 2, bb_insts = [11, 12]\<rparr>]\<rparr>"
    "vals again_mod 1 = Function (fn_of again_mod 1)"
    by (simp_all add: again_mod_def again_vals_def fn_of_def)
  have h: "here again_mod 1" unfolding here_def using f
    by (simp add: again_mod_def again_vals_def insts_def is_inst_def)
  have b: "insts_bounded again_mod"
    by (auto simp: insts_bounded_def again_mod_def again_vals_def insts_def split: if_splits)
  have c: "\<forall>B \<in> set (fn_blocks (fn_of again_mod 1)). bb_insts B \<noteq> []" "insts (fn_of again_mod 1) \<noteq> []"
    "shouldRestoreOldSP again_mod 1 = Inr True" "vals again_mod 4 = GlobalVariable" "vals again_mod 5 = GlobalVariable"
    "12 \<in> set (fls_returns again_mod 1)" by code_simp+
  obtain OldSP B pre E post where r: "hd (insts (fn_of m' 1)) = OldSP"
    "\<forall>rho mem. exec (\<lambda>v. v * 1000) 64 m' [OldSP] (rho, mem) = (rho(OldSP := mem (5 * 1000)), mem)"
    "B \<in> set (fn_blocks (fn_of m' 1))" "bb_insts B = pre @ E @ 12 # post"
    "\<forall>rho mem. snd (exec (\<lambda>v. v * 1000) 64 m' E (rho, mem)) = mem(5 * 1000 := min (4 * 1000 + 64) (rho OldSP))"
    using fls_restores_outer_activation[OF h b c(1-3) run c(4-6), where addr = "\<lambda>v. v * 1000" and StackSize = 64]
    by (elim exE conjE) (rule that)
  have e: "exec (\<lambda>v. v * 1000) 64 m' [OldSP] (\<lambda>_. 0, \<lambda>_. 4032) = ((\<lambda>_. 0)(OldSP := 4032), \<lambda>_. 4032)"
    "snd (exec (\<lambda>v. v * 1000) 64 m' E (\<lambda>_. 4032, \<lambda>_. 0)) 5000 = 4032" using r(2,5) by simp_all
  with run r(1,3,4) show ?thesis by blast
qed


definition buffer_vals :: "nat \<Rightarrow> vdesc" where
  "buffer_vals v = (if v = 1 then Function (func0\<lparr>fn_name := ''buffer'', fn_args := [4],
       fn_blocks := [\<lparr>bb_id = 2, bb_insts = [11, 12, 13]\<rparr>]\<rparr>)
     else if v = 2 then BasicBlock else if v = 3 then ConstantInt 1 (IntTy 32) else if v = 4 then Argument 1 0 (IntTy 64)
     else if v = 11 then Inst (inst0\<lparr>opc := Alloca, ity := PtrTy, operands := [3], alloc_ty := PtrTy\<rparr>)
     else if v = 12 then Inst (inst0\<lparr>opc := Alloca, ity := PtrTy, operands := [4], alloc_ty := AggregateTy\<rparr>)
     else if v = 13 then Inst (inst0\<lparr>opc := Ret\<rparr>) else Undef)"

definition buffer_mod :: ir_module where
  "buffer_mod = \<lparr>vals = buffer_vals, vbound = 14, fn_list = [1]\<rparr>"

definition buffer_size :: "ty \<Rightarrow> nat" where
  "buffer_size t = (if t = AggregateTy then 24 else 8)"


end
